(* ===== verification/Chat_Prelude.thy ===== *)
theory Chat_Prelude
  imports Main "HOL-Library.AList" "HOL-Library.Sublist"
begin

text \<open>
  What the components share: the outcome of a run (a C++ call may not return, may fault, or may
  return a value), the C string view of a \<^verbatim>\<open>std::string\<close>, substring search, and the two container
  shapes the sources use, a hash map of hash sets and the plain hash map, as association lists
  whose order is the iteration order. The collection \<open>registry_simps\<close> holds the equations of the
  map-of-sets operations.
\<close>

named_theorems registry_simps

section \<open>Outcomes\<close>

text \<open>
  \<open>None\<close> is a run that does not return; \<open>Some (Inl f)\<close> one that faults; \<open>Some (Inr v)\<close> one that
  returns \<open>v\<close>. The faults are what the sources can run into: a null pointer dereference, an
  access outside an array, the \<^verbatim>\<open>std::range_error\<close> of a failed character conversion, a failed
  \<^verbatim>\<open>assert\<close>, an \<^verbatim>\<open>abort\<close> of a called library and one of the program itself.
\<close>

datatype fault =
  NullDeref | OutOfRange | RangeError | AssertFailed | LibraryAbort | ProgramAbort

type_synonym 'a outcome = "fault + 'a"

type_synonym 'a run = "(fault + 'a) option"

definition and_then :: "'a outcome \<Rightarrow> ('a \<Rightarrow> 'b outcome) \<Rightarrow> 'b outcome" where
  "and_then r f = (case r of Inl e \<Rightarrow> Inl e | Inr v \<Rightarrow> f v)"

lemma and_then_simps [simp]:
  "and_then (Inl e) f = Inl e"
  "and_then (Inr v) f = f v"
  by (simp_all add: and_then_def)

lemma and_then_Inr_iff:
  "and_then r f = Inr w \<longleftrightarrow> (\<exists>v. r = Inr v \<and> f v = Inr w)"
  by (cases r) simp_all

lemma and_then_cong [fundef_cong]:
  "r = r' \<Longrightarrow> (\<And>v. r' = Inr v \<Longrightarrow> f v = g v) \<Longrightarrow> and_then r f = and_then r' g"
  by (simp add: and_then_def split: sum.split)

lemma and_then_assoc: "and_then (and_then r f) g = and_then r (\<lambda>v. and_then (f v) g)"
  by (cases r) simp_all

text \<open>Sequencing of runs: a run that does not return or faults ends the whole.\<close>

definition run_then :: "'a run \<Rightarrow> ('a \<Rightarrow> 'b run) \<Rightarrow> 'b run" where
  "run_then r f =
     (case r of None \<Rightarrow> None | Some (Inl e) \<Rightarrow> Some (Inl e) | Some (Inr v) \<Rightarrow> f v)"

lemma run_then_simps [simp]:
  "run_then None f = None"
  "run_then (Some (Inl e)) f = Some (Inl e)"
  "run_then (Some (Inr v)) f = f v"
  by (simp_all add: run_then_def)

lemma run_then_Inr_iff:
  "run_then r f = Some (Inr w) \<longleftrightarrow> (\<exists>v. r = Some (Inr v) \<and> f v = Some (Inr w))"
  by (auto simp: run_then_def split: option.splits sum.splits)

lemma run_then_cong [fundef_cong]:
  "r = r' \<Longrightarrow> (\<And>v. r' = Some (Inr v) \<Longrightarrow> f v = g v) \<Longrightarrow> run_then r f = run_then r' g"
  by (auto simp: run_then_def split: option.split sum.split)

lemma run_then_assoc: "run_then (run_then r f) g = run_then r (\<lambda>v. run_then (f v) g)"
  by (auto simp: run_then_def split: option.split sum.split)

text \<open>A recursion may stand in the continuation of a run.\<close>

lemma run_then_mono [partial_function_mono]:
  assumes "\<And>v. mono_option (\<lambda>f. B f v)"
  shows "mono_option (\<lambda>f. run_then r (B f))"
proof (rule monotoneI)
  fix f g :: "'b \<Rightarrow> 'c option"
  assume fg: "fun_ord option_ord f g"
  have "option_ord (B f v) (B g v)" for v
    using assms [of v] fg unfolding monotone_on_def by auto
  then show "option_ord (run_then r (B f)) (run_then r (B g))"
    by (auto simp: run_then_def flat_ord_def split: option.split sum.split)
qed

text \<open>\<open>post r Q\<close>: whatever \<open>r\<close> returns satisfies \<open>Q\<close>; \<open>returns r Q\<close>: \<open>r\<close> returns, and so.\<close>

definition post :: "'a run \<Rightarrow> ('a \<Rightarrow> bool) \<Rightarrow> bool" where
  "post r Q \<longleftrightarrow> (\<forall>v. r = Some (Inr v) \<longrightarrow> Q v)"

definition returns :: "'a run \<Rightarrow> ('a \<Rightarrow> bool) \<Rightarrow> bool" where
  "returns r Q \<longleftrightarrow> (\<exists>v. r = Some (Inr v) \<and> Q v)"

lemma post_simps [simp]:
  "post None Q" "post (Some (Inl e)) Q" "post (Some (Inr v)) Q = Q v"
  by (simp_all add: post_def)

lemma postD: "post r Q \<Longrightarrow> r = Some (Inr v) \<Longrightarrow> Q v"
  by (simp add: post_def)

lemma post_then: "post r P \<Longrightarrow> (\<And>v. P v \<Longrightarrow> post (f v) Q) \<Longrightarrow> post (run_then r f) Q"
  by (auto simp: post_def run_then_Inr_iff)

lemma post_mono: "post r P \<Longrightarrow> (\<And>v. P v \<Longrightarrow> Q v) \<Longrightarrow> post r Q"
  by (simp add: post_def)

lemma post_if: "(b \<Longrightarrow> post r Q) \<Longrightarrow> (\<not> b \<Longrightarrow> post r' Q) \<Longrightarrow> post (if b then r else r') Q"
  by simp

lemma post_True [simp]: "post r (\<lambda>_. True)"
  by (simp add: post_def)

lemma returns_simps [simp]:
  "\<not> returns None Q" "\<not> returns (Some (Inl e)) Q" "returns (Some (Inr v)) Q = Q v"
  by (simp_all add: returns_def)

lemma returns_code [code]:
  "returns r Q = (case r of Some (Inr v) \<Rightarrow> Q v | _ \<Rightarrow> False)"
  by (auto simp: returns_def split: option.split sum.split)

lemma returnsE: "returns r Q \<Longrightarrow> (\<And>v. r = Some (Inr v) \<Longrightarrow> Q v \<Longrightarrow> thesis) \<Longrightarrow> thesis"
  by (auto simp: returns_def)

lemma returns_post: "returns r P \<Longrightarrow> post r Q \<Longrightarrow> returns r (\<lambda>v. P v \<and> Q v)"
  by (auto simp: returns_def)

lemma returns_then:
  "returns r P \<Longrightarrow> (\<And>v. P v \<Longrightarrow> returns (f v) Q) \<Longrightarrow> returns (run_then r f) Q"
  by (auto simp: returns_def)

lemma returns_mono: "returns r P \<Longrightarrow> (\<And>v. P v \<Longrightarrow> Q v) \<Longrightarrow> returns r Q"
  by (auto simp: returns_def)

section \<open>Strings\<close>

text \<open>
  \<open>s.c_str()\<close> read as a C string: everything before the first zero byte.
\<close>

definition c_str :: "string \<Rightarrow> string" where
  "c_str s = takeWhile (\<lambda>c. c \<noteq> CHR 0x00) s"

definition nul_free :: "string \<Rightarrow> bool" where
  "nul_free s \<longleftrightarrow> CHR 0x00 \<notin> set s"

lemma c_str_nul_free [simp]: "nul_free s \<Longrightarrow> c_str s = s"
  by (auto simp: c_str_def nul_free_def takeWhile_eq_all_conv)

lemma nul_free_c_str [simp]: "nul_free (c_str s)"
  by (auto simp: c_str_def nul_free_def dest: set_takeWhileD)

lemma c_str_eq_iff: "c_str s = s \<longleftrightarrow> nul_free s"
  by (metis c_str_nul_free nul_free_c_str)

lemma c_str_idem [simp]: "c_str (c_str s) = c_str s"
  by simp

lemma nul_free_append [simp]: "nul_free (s @ t) \<longleftrightarrow> nul_free s \<and> nul_free t"
  by (auto simp: nul_free_def)

lemma c_str_Cons: "c_str [] = []" "c_str (x # s) = (if x = CHR 0x00 then [] else x # c_str s)"
  by (simp_all add: c_str_def)

lemma c_str_append: "nul_free s \<Longrightarrow> c_str (s @ t) = s @ c_str t"
  unfolding c_str_def nul_free_def by (rule takeWhile_append2) auto

text \<open>\<open>s.find(k)\<close>: the first index at which \<open>k\<close> occurs in \<open>s\<close>, or \<open>npos\<close>.\<close>

fun str_find :: "'a list \<Rightarrow> 'a list \<Rightarrow> nat option" where
  "str_find k [] = (if k = [] then Some 0 else None)"
| "str_find k (c # s) =
     (if take (length k) (c # s) = k then Some 0 else map_option Suc (str_find k s))"

lemma str_find_None_iff: "str_find k s = None \<longleftrightarrow> \<not> sublist k s"
proof (induction s)
  case Nil
  then show ?case by (auto simp: sublist_def)
next
  case (Cons c s)
  have "sublist k (c # s) \<longleftrightarrow> prefix k (c # s) \<or> sublist k s"
    by (rule sublist_Cons_right)
  moreover have "prefix k (c # s) \<longleftrightarrow> take (length k) (c # s) = k"
    by (metis append_eq_conv_conj prefix_def)
  ultimately show ?case using Cons by auto
qed

lemma find_SomeD: "find P xs = Some x \<Longrightarrow> P x \<and> x \<in> set xs"
  by (auto simp: find_Some_iff)

lemma distinct_concat_map:
  assumes "distinct xs" and "\<And>x. x \<in> set xs \<Longrightarrow> distinct (g x)"
    and "\<And>x y. x \<in> set xs \<Longrightarrow> y \<in> set xs \<Longrightarrow> x \<noteq> y \<Longrightarrow> set (g x) \<inter> set (g y) = {}"
  shows "distinct (concat (map g xs))"
  using assms
proof (induction xs)
  case (Cons x xs)
  have "set (g x) \<inter> set (g y) = {}" if "y \<in> set xs" for y
    using that Cons.prems(1) by (intro Cons.prems(3)) auto
  moreover have "distinct (concat (map g xs))"
    using Cons.prems by (intro Cons.IH) simp_all
  ultimately show ?case using Cons.prems(2) by auto
qed simp

lemma distinct_concat_owner:
  "distinct xs \<Longrightarrow> (\<And>x. distinct (f x)) \<Longrightarrow> (\<And>x y. y \<in> set (f x) \<Longrightarrow> g y = x) \<Longrightarrow>
     distinct (concat (map f xs))"
  by (rule distinct_concat_map) (assumption | blast | metis disjoint_iff)+

lemma enumerates_one: "distinct gs \<and> set gs = {a} \<longleftrightarrow> gs = [a]"
  by (cases gs) (auto simp: insert_eq_iff subset_singleton_iff)

section \<open>Text\<close>

text \<open>\<^verbatim>\<open>isspace\<close> in the C locale.\<close>

definition is_space :: "char \<Rightarrow> bool" where
  "is_space c \<longleftrightarrow> c \<in> set [CHR 0x20, CHR 0x09, CHR 0x0A, CHR 0x0B, CHR 0x0C, CHR 0x0D]"

text \<open>\<^verbatim>\<open>atoi\<close>, for numbers an \<^verbatim>\<open>int\<close> can hold.\<close>

fun digits_from :: "int \<Rightarrow> string \<Rightarrow> int" where
  "digits_from n [] = n"
| "digits_from n (c # cs) =
     (if 48 \<le> (of_char c :: int) \<and> (of_char c :: int) \<le> 57 then digits_from (10 * n + (of_char c - 48)) cs else n)"

definition atoi :: "string \<Rightarrow> int" where
  "atoi s =
     (case dropWhile is_space (c_str s) of
        [] \<Rightarrow> 0
      | c # cs \<Rightarrow>
          (if c = CHR ''-'' then - digits_from 0 cs
           else if c = CHR ''+'' then digits_from 0 cs else digits_from 0 (c # cs)))"

section \<open>Maps of sets\<close>

text \<open>
  \<^verbatim>\<open>std::unordered_map<std::string, std::unordered_set<V>>\<close>: an association list from keys to
  duplicate-free lists. The order of both lists is the iteration order of the C++ containers.
  \<open>reg_add\<close> is \<open>m[k].insert(v)\<close>; \<open>reg_del\<close> is \<open>m[k].erase(v)\<close> followed by \<open>m.erase(k)\<close> when the
  set became empty, as both users of the container do.
\<close>

type_synonym ('k, 'v) registry = "('k \<times> 'v list) list"

definition reg_members :: "('k, 'v) registry \<Rightarrow> 'k \<Rightarrow> 'v list" where
  "reg_members m k = (case map_of m k of None \<Rightarrow> [] | Some vs \<Rightarrow> vs)"

definition reg_add :: "'k \<Rightarrow> 'v \<Rightarrow> ('k, 'v) registry \<Rightarrow> ('k, 'v) registry" where
  "reg_add k v m = AList.update k (List.insert v (reg_members m k)) m"

definition reg_del :: "'k \<Rightarrow> 'v \<Rightarrow> ('k, 'v) registry \<Rightarrow> ('k, 'v) registry" where
  "reg_del k v m =
     (let vs = removeAll v (reg_members m k)
      in if vs = [] then AList.delete k m else AList.update k vs m)"

definition reg_ok :: "('k, 'v) registry \<Rightarrow> bool" where
  "reg_ok m \<longleftrightarrow> distinct (map fst m) \<and> (\<forall>(k, vs) \<in> set m. vs \<noteq> [] \<and> distinct vs)"

lemma reg_ok_Nil [simp]: "reg_ok []"
  by (simp add: reg_ok_def)

lemma reg_members_Nil [simp]: "reg_members [] k = []"
  by (simp add: reg_members_def)

lemma reg_ok_lookup: "reg_ok m \<Longrightarrow> map_of m k = Some vs \<Longrightarrow> vs \<noteq> [] \<and> distinct vs"
  by (auto simp: reg_ok_def dest: map_of_SomeD)

lemma reg_ok_distinct: "reg_ok m \<Longrightarrow> distinct (reg_members m k)"
  by (auto simp: reg_members_def dest: reg_ok_lookup split: option.split)

lemma reg_members_empty_iff: "reg_ok m \<Longrightarrow> reg_members m k = [] \<longleftrightarrow> map_of m k = None"
  by (auto simp: reg_members_def dest: reg_ok_lookup split: option.split)

lemma reg_members_in: "v \<in> set (reg_members m k) \<Longrightarrow> \<exists>vs. (k, vs) \<in> set m \<and> v \<in> set vs"
  by (cases "map_of m k") (auto simp: reg_members_def dest: map_of_SomeD)

lemma reg_members_add [registry_simps]:
  "reg_members (reg_add k v m) k' =
     (if k' = k then List.insert v (reg_members m k) else reg_members m k')"
  by (simp add: reg_members_def reg_add_def update_conv')

lemma reg_members_del [registry_simps]:
  "reg_members (reg_del k v m) k' =
     (if k' = k then removeAll v (reg_members m k) else reg_members m k')"
  by (auto simp: reg_members_def reg_del_def Let_def update_conv' delete_conv')

lemma map_of_reg_add [registry_simps]:
  "map_of (reg_add k v m) k' =
     (if k' = k then Some (List.insert v (reg_members m k)) else map_of m k')"
  by (simp add: reg_add_def update_conv')

lemma map_of_reg_del [registry_simps]:
  "map_of (reg_del k v m) k' =
     (if k' = k then
        (if removeAll v (reg_members m k) = [] then None
         else Some (removeAll v (reg_members m k)))
      else map_of m k')"
  by (simp add: reg_del_def Let_def update_conv' delete_conv')

lemma reg_ok_update:
  assumes "reg_ok m" and "vs \<noteq> []" and "distinct vs"
  shows "reg_ok (AList.update k vs m)"
proof -
  have "\<forall>(k', vs') \<in> set (AList.update k vs m). vs' \<noteq> [] \<and> distinct vs'"
    using assms by (induction m) (auto simp: reg_ok_def)
  with assms(1) show ?thesis
    by (simp add: reg_ok_def distinct_update)
qed

lemma reg_ok_delete: "reg_ok m \<Longrightarrow> reg_ok (AList.delete k m)"
  using distinct_delete [of m k] by (auto simp: reg_ok_def AList.delete_eq)

lemma reg_ok_add [simp, intro]: "reg_ok m \<Longrightarrow> reg_ok (reg_add k v m)"
  by (auto simp: reg_add_def List.insert_def intro!: reg_ok_update dest: reg_ok_distinct)

lemma reg_ok_del [simp, intro]: "reg_ok m \<Longrightarrow> reg_ok (reg_del k v m)"
  by (simp add: reg_del_def Let_def reg_ok_update reg_ok_delete reg_ok_distinct distinct_removeAll)

end
