(* ===== verification/Utf8.thy ===== *)
theory Utf8
  imports Chat_Prelude
begin

text \<open>
  The character conversions of \<^verbatim>\<open>ACAutomaton.cc\<close>: \<^verbatim>\<open>utf8_to_utf32\<close> and \<^verbatim>\<open>utf32_to_utf8\<close>, which
  call \<^verbatim>\<open>std::wstring_convert<std::codecvt_utf8<char32_t>, char32_t>\<close> of the standard library.
  Code points are natural numbers, bytes are the values of \<^typ>\<open>char\<close>. A malformed input (stray or
  missing continuation byte, overlong form, surrogate, value above 0x10FFFF) is \<open>None\<close>: the
  library throws \<^verbatim>\<open>std::range_error\<close>. The lemmas show that the two conversions are inverse.
\<close>

type_synonym char32 = nat

definition cont_byte :: "nat \<Rightarrow> bool" where
  "cont_byte b \<longleftrightarrow> 0x80 \<le> b \<and> b < 0xC0"

definition scalar_value :: "char32 \<Rightarrow> bool" where
  "scalar_value c \<longleftrightarrow> c < 0xD800 \<or> (0xE000 \<le> c \<and> c < 0x110000)"

text \<open>One code point at the front of a byte sequence, with the bytes after it.\<close>

definition read_code_point :: "nat list \<Rightarrow> (char32 \<times> nat list) option" where
  "read_code_point bs = (case bs of [] \<Rightarrow> None | b # r \<Rightarrow>
     if b < 0x80 then Some (b, r)
     else if b < 0xC2 then None
     else if b < 0xE0 then
       (case r of b1 # r1 \<Rightarrow>
          if cont_byte b1 then Some ((b - 0xC0) * 64 + (b1 - 0x80), r1) else None
        | _ \<Rightarrow> None)
     else if b < 0xF0 then
       (case r of b1 # b2 # r2 \<Rightarrow>
          let c = (b - 0xE0) * 4096 + (b1 - 0x80) * 64 + (b2 - 0x80)
          in if cont_byte b1 \<and> cont_byte b2 \<and> 0x800 \<le> c \<and> scalar_value c
             then Some (c, r2) else None
        | _ \<Rightarrow> None)
     else if b < 0xF5 then
       (case r of b1 # b2 # b3 # r3 \<Rightarrow>
          let c = (b - 0xF0) * 262144 + (b1 - 0x80) * 4096 + (b2 - 0x80) * 64 + (b3 - 0x80)
          in if cont_byte b1 \<and> cont_byte b2 \<and> cont_byte b3 \<and> 0x10000 \<le> c \<and> scalar_value c
             then Some (c, r3) else None
        | _ \<Rightarrow> None)
     else None)"

lemma read_code_point_shorter:
  "read_code_point bs = Some (c, r) \<Longrightarrow> length r < length bs"
  by (auto simp: read_code_point_def Let_def split: list.splits if_splits)

function decode_bytes :: "nat list \<Rightarrow> char32 list option" where
  "decode_bytes bs =
     (if bs = [] then Some []
      else case read_code_point bs of
        None \<Rightarrow> None
      | Some (c, r) \<Rightarrow> map_option (\<lambda>cs. c # cs) (decode_bytes r))"
  by pat_completeness auto
termination
  by (relation "measure length") (auto dest: read_code_point_shorter)

declare decode_bytes.simps [simp del]

definition write_code_point :: "char32 \<Rightarrow> nat list" where
  "write_code_point c =
     (if c < 0x80 then [c]
      else if c < 0x800 then [0xC0 + c div 64, 0x80 + c mod 64]
      else if c < 0x10000 then [0xE0 + c div 4096, 0x80 + (c div 64) mod 64, 0x80 + c mod 64]
      else [0xF0 + c div 262144, 0x80 + (c div 4096) mod 64, 0x80 + (c div 64) mod 64,
            0x80 + c mod 64])"

definition encode_bytes :: "char32 list \<Rightarrow> nat list option" where
  "encode_bytes cs =
     (if \<forall>c \<in> set cs. scalar_value c then Some (concat (map write_code_point cs)) else None)"

definition utf8_to_utf32 :: "string \<Rightarrow> char32 list option" where
  "utf8_to_utf32 s = decode_bytes (map of_char s)"

definition utf32_to_utf8 :: "char32 list \<Rightarrow> string option" where
  "utf32_to_utf8 cs = map_option (map char_of) (encode_bytes cs)"

section \<open>Reading what was written\<close>

lemma split_64:
  assumes "(r::nat) < 64"
  shows "(q * 64 + r) div 64 = q" and "(q * 64 + r) mod 64 = r"
  using assms by simp_all

lemma split_4096:
  assumes c: "(c::nat) = q * 4096 + r1 * 64 + r0" and "r1 < 64" "r0 < 64"
  shows "c div 4096 = q" and "c div 64 mod 64 = r1" and "c mod 64 = r0"
proof -
  have c': "c = (q * 64 + r1) * 64 + r0" using c by simp
  with assms(2,3) have "c div 64 = q * 64 + r1" and m: "c mod 64 = r0"
    by (simp_all only: split_64)
  moreover have "c div 4096 = c div 64 div 64" by (simp flip: div_mult2_eq)
  ultimately show "c div 4096 = q" and "c div 64 mod 64 = r1"
    using assms(2) by (simp_all only: split_64)
  show "c mod 64 = r0" by (fact m)
qed

lemma split_262144:
  assumes c: "(c::nat) = q * 262144 + r2 * 4096 + r1 * 64 + r0"
    and "r2 < 64" "r1 < 64" "r0 < 64"
  shows "c div 262144 = q" and "c div 4096 mod 64 = r2"
    and "c div 64 mod 64 = r1" and "c mod 64 = r0"
proof -
  have c': "c = (q * 64 + r2) * 4096 + r1 * 64 + r0" using c by simp
  note d = split_4096 [OF c' assms(3,4)]
  have "c div 262144 = c div 4096 div 64" by (simp flip: div_mult2_eq)
  then show "c div 262144 = q" and "c div 4096 mod 64 = r2"
    using assms(2) d(1) by (simp_all only: split_64)
  show "c div 64 mod 64 = r1" and "c mod 64 = r0" by (fact d(2), fact d(3))
qed

lemma digits_64_3:
  "(c::nat) = c div 4096 * 4096 + c div 64 mod 64 * 64 + c mod 64"
proof -
  have "c div 4096 = c div 64 div 64" by (simp flip: div_mult2_eq)
  then have "c div 64 = c div 4096 * 64 + c div 64 mod 64"
    by (metis div_mult_mod_eq)
  then have "c div 64 * 64 = c div 4096 * 4096 + c div 64 mod 64 * 64" by linarith
  then show ?thesis using div_mult_mod_eq [of c 64] by linarith
qed

lemma digits_64_4:
  "(c::nat) = c div 262144 * 262144 + c div 4096 mod 64 * 4096 + c div 64 mod 64 * 64 + c mod 64"
proof -
  have "c div 262144 = c div 4096 div 64" by (simp flip: div_mult2_eq)
  then have "c div 4096 = c div 262144 * 64 + c div 4096 mod 64"
    by (metis div_mult_mod_eq)
  then have "c div 4096 * 4096 = c div 262144 * 262144 + c div 4096 mod 64 * 4096" by linarith
  then show ?thesis using digits_64_3 [of c] by linarith
qed

lemma read_write_code_point:
  assumes "scalar_value c"
  shows "read_code_point (write_code_point c @ r) = Some (c, r)"
proof -
  have bound: "c < 0x110000" using assms by (auto simp: scalar_value_def)
  consider "c < 0x80" | "0x80 \<le> c" "c < 0x800" | "0x800 \<le> c" "c < 0x10000" | "0x10000 \<le> c"
    by linarith
  then show ?thesis
  proof cases
    case 1
    then show ?thesis by (simp add: write_code_point_def read_code_point_def)
  next
    case 2
    then have "2 \<le> c div 64" "c div 64 < 32"
      by (simp_all add: less_mult_imp_div_less less_eq_div_iff_mult_less_eq)
    with 2 show ?thesis
      by (simp add: write_code_point_def read_code_point_def cont_byte_def)
  next
    case 3
    then have d: "c div 4096 < 16" by (simp add: less_mult_imp_div_less)
    from 3 d assms digits_64_3 [of c] show ?thesis
      by (simp add: write_code_point_def read_code_point_def cont_byte_def Let_def)
  next
    case 4
    with bound have d: "c div 262144 < 5" by (simp add: less_mult_imp_div_less)
    from 4 d assms digits_64_4 [of c] show ?thesis
      by (simp add: write_code_point_def read_code_point_def cont_byte_def Let_def)
  qed
qed

lemma write_code_point_nonempty: "write_code_point c \<noteq> []"
  by (simp add: write_code_point_def)

lemma decode_encode_bytes:
  "\<forall>c \<in> set cs. scalar_value c \<Longrightarrow> decode_bytes (concat (map write_code_point cs)) = Some cs"
proof (induction cs)
  case Nil
  then show ?case by (simp add: decode_bytes.simps)
next
  case (Cons c cs)
  then have "read_code_point (write_code_point c @ concat (map write_code_point cs))
      = Some (c, concat (map write_code_point cs))"
    by (simp add: read_write_code_point)
  with Cons show ?case
    by (simp add: decode_bytes.simps [of "write_code_point c @ _"] write_code_point_nonempty)
qed

section \<open>Writing what was read\<close>

lemma write_read_code_point:
  assumes "read_code_point bs = Some (c, r)"
  shows "scalar_value c \<and> bs = write_code_point c @ r"
proof (cases bs)
  case Nil
  with assms show ?thesis by (simp add: read_code_point_def)
next
  case (Cons b t)
  note bs = this
  consider "b < 0x80" | "0x80 \<le> b" "b < 0xC2" | "0xC2 \<le> b" "b < 0xE0"
    | "0xE0 \<le> b" "b < 0xF0" | "0xF0 \<le> b" "b < 0xF5" | "0xF5 \<le> b"
    by linarith
  then show ?thesis
  proof cases
    case 1
    with assms bs show ?thesis
      by (auto simp: read_code_point_def write_code_point_def scalar_value_def)
  next
    case 3
    with assms bs obtain b1 where t: "t = b1 # r" "cont_byte b1"
      and c: "c = (b - 0xC0) * 64 + (b1 - 0x80)"
      by (auto simp: read_code_point_def split: list.splits if_splits)
    then have "b1 - 0x80 < 64" by (auto simp: cont_byte_def)
    then have "c div 64 = b - 0xC0" "c mod 64 = b1 - 0x80" by (simp_all only: c split_64)
    moreover have "0x80 \<le> c" "c < 0x800" using c 3 \<open>b1 - 0x80 < 64\<close> by linarith+
    ultimately show ?thesis
      using 3 t bs by (auto simp: write_code_point_def scalar_value_def cont_byte_def)
  next
    case 4
    with assms bs obtain b1 b2 where t: "t = b1 # b2 # r" "cont_byte b1" "cont_byte b2"
      and c: "c = (b - 0xE0) * 4096 + (b1 - 0x80) * 64 + (b2 - 0x80)"
      and ok: "0x800 \<le> c" "scalar_value c"
      by (auto simp: read_code_point_def Let_def split: list.splits if_splits)
    have lt: "b1 - 0x80 < 64" "b2 - 0x80 < 64" using t by (auto simp: cont_byte_def)
    then have "c div 4096 = b - 0xE0" "c div 64 mod 64 = b1 - 0x80" "c mod 64 = b2 - 0x80"
      using split_4096 [OF c] by blast+
    moreover have "c < 0x10000" using c lt 4 by linarith
    ultimately show ?thesis
      using 4 t ok bs by (auto simp: write_code_point_def cont_byte_def)
  next
    case 5
    with assms bs obtain b1 b2 b3 where t: "t = b1 # b2 # b3 # r"
        "cont_byte b1" "cont_byte b2" "cont_byte b3"
      and c: "c = (b - 0xF0) * 262144 + (b1 - 0x80) * 4096 + (b2 - 0x80) * 64 + (b3 - 0x80)"
      and ok: "0x10000 \<le> c" "scalar_value c"
      by (auto simp: read_code_point_def Let_def split: list.splits if_splits)
    have lt: "b1 - 0x80 < 64" "b2 - 0x80 < 64" "b3 - 0x80 < 64"
      using t by (auto simp: cont_byte_def)
    then have "c div 262144 = b - 0xF0" "c div 4096 mod 64 = b1 - 0x80"
      "c div 64 mod 64 = b2 - 0x80" "c mod 64 = b3 - 0x80"
      using split_262144 [OF c] by blast+
    then show ?thesis
      using 5 t ok bs by (auto simp: write_code_point_def cont_byte_def)
  qed (use assms bs in \<open>simp_all add: read_code_point_def\<close>)
qed

lemma encode_decode_bytes:
  "decode_bytes bs = Some cs \<Longrightarrow>
     (\<forall>c \<in> set cs. scalar_value c) \<and> bs = concat (map write_code_point cs)"
proof (induction bs arbitrary: cs rule: decode_bytes.induct)
  case (1 bs)
  show ?case
  proof (cases "bs = []")
    case True
    with 1 show ?thesis by (simp add: decode_bytes.simps)
  next
    case False
    with "1.prems" obtain c r cs' where rd: "read_code_point bs = Some (c, r)"
      and dec: "decode_bytes r = Some cs'" and cs: "cs = c # cs'"
      by (auto simp: decode_bytes.simps [of bs] split: option.splits)
    have "(\<forall>c \<in> set cs'. scalar_value c) \<and> r = concat (map write_code_point cs')"
      using "1.IH" [OF False rd refl dec] .
    with write_read_code_point [OF rd] cs show ?thesis by simp
  qed
qed

section \<open>The conversions on strings\<close>

lemma char_of_of_char_map [simp]: "map char_of (map (of_char :: char \<Rightarrow> nat) s) = s"
  by (induction s) simp_all

lemma utf8_roundtrip:
  assumes "utf8_to_utf32 s = Some cs"
  shows "utf32_to_utf8 cs = Some s"
proof -
  have "\<forall>c \<in> set cs. scalar_value c" and "map of_char s = concat (map write_code_point cs)"
    using encode_decode_bytes [of "map of_char s" cs] assms by (auto simp: utf8_to_utf32_def)
  then show ?thesis
    using char_of_of_char_map [of s] by (simp add: utf32_to_utf8_def encode_bytes_def)
qed

lemma utf8_scalar: "utf8_to_utf32 s = Some cs \<Longrightarrow> \<forall>c \<in> set cs. scalar_value c"
  using encode_decode_bytes by (auto simp: utf8_to_utf32_def)

lemma write_code_point_byte:
  assumes "scalar_value c" and "b \<in> set (write_code_point c)"
  shows "b < 256"
proof -
  have "c < 0x110000" using assms(1) by (auto simp: scalar_value_def)
  then have "c div 262144 < 5" by (simp add: less_mult_imp_div_less)
  moreover have "c div 64 < 32" if "c < 0x800" using that by (simp add: less_mult_imp_div_less)
  moreover have "c div 4096 < 16" if "c < 0x10000" using that by (simp add: less_mult_imp_div_less)
  moreover have "c mod 64 < 64" "c div 64 mod 64 < 64" "c div 4096 mod 64 < 64" by simp_all
  ultimately show ?thesis
    using assms(2) by (auto simp: write_code_point_def split: if_splits)
qed

lemma utf32_roundtrip:
  assumes "\<forall>c \<in> set cs. scalar_value c"
  shows "\<exists>s. utf32_to_utf8 cs = Some s \<and> utf8_to_utf32 s = Some cs"
proof -
  let ?bs = "concat (map write_code_point cs)"
  have "\<forall>b \<in> set ?bs. b < 256"
    using assms write_code_point_byte by fastforce
  then have "map (of_char \<circ> (char_of :: nat \<Rightarrow> char)) ?bs = ?bs"
    by (intro map_idI) auto
  with assms decode_encode_bytes [OF assms] show ?thesis
    by (simp add: utf32_to_utf8_def utf8_to_utf32_def encode_bytes_def)
qed

lemma utf8_empty_iff: "utf8_to_utf32 s = Some [] \<longleftrightarrow> s = []"
  using utf8_roundtrip [of s "[]"]
  by (auto simp: utf8_to_utf32_def decode_bytes.simps utf32_to_utf8_def encode_bytes_def)

end
