(* ===== verification/AC_Trie.thy ===== *)
theory AC_Trie
  imports Utf8
begin

text \<open>
  The trie of \<^verbatim>\<open>ACAutomaton.cc\<close>: the nodes as a heap of records, the address of a node being its
  index, and \<^verbatim>\<open>insert\<close>. \<open>trie_ok ps h\<close> relates a heap to the list of the strings its nodes stand
  for; \<open>words_ok ps h ws\<close> says which nodes end a keyword. The lemmas show that \<^verbatim>\<open>insert\<close> keeps both
  and adds exactly the prefixes of its word.
\<close>

section \<open>Nodes and the heap\<close>

type_synonym addr = nat

record node =
  nnext :: "(char32 \<times> addr) list"
  isEnd :: bool
  nlen :: nat
  nfail :: "addr option"

definition new_node :: node where
  "new_node = \<lparr>nnext = [], isEnd = False, nlen = 0, nfail = None\<rparr>"

lemma new_node_simps [simp]:
  "nnext new_node = []" "isEnd new_node = False" "nfail new_node = None"
  by (simp_all add: new_node_def)

type_synonym heap = "node list"

text \<open>The field \<^verbatim>\<open>root\<close> is set by the constructor and never reassigned: address 0.\<close>

definition root :: addr where
  "root = 0"

definition ac_new :: heap where
  "ac_new = [new_node]"

text \<open>\<open>node->next[ch]\<close>, when present.\<close>

abbreviation child :: "heap \<Rightarrow> addr \<Rightarrow> char32 \<Rightarrow> addr option" where
  "child h a ch \<equiv> map_of (nnext (h ! a)) ch"

definition add_child :: "heap \<Rightarrow> addr \<Rightarrow> char32 \<Rightarrow> heap" where
  "add_child h a ch =
     h[a := (h ! a)\<lparr>nnext := AList.update ch (length h) (nnext (h ! a))\<rparr>] @ [new_node]"

fun insert_loop :: "heap \<Rightarrow> addr \<Rightarrow> char32 list \<Rightarrow> heap \<times> addr" where
  "insert_loop h a [] = (h, a)"
| "insert_loop h a (ch # cs) =
     (case child h a ch of
        None \<Rightarrow> insert_loop (add_child h a ch) (length h) cs
      | Some b \<Rightarrow> insert_loop h b cs)"

definition insert_word :: "heap \<Rightarrow> char32 list \<Rightarrow> heap" where
  "insert_word h w =
     (let (h', a) = insert_loop h root w
      in h'[a := (h' ! a)\<lparr>isEnd := True, nlen := length w\<rparr>])"

definition ac_insert :: "heap \<Rightarrow> string \<Rightarrow> heap outcome" where
  "ac_insert h word =
     (if word = [] then Inr h
      else case utf8_to_utf32 word of
        None \<Rightarrow> Inl RangeError
      | Some w \<Rightarrow> Inr (insert_word h w))"

section \<open>The strings the nodes stand for\<close>

definition trie_ok :: "char32 list list \<Rightarrow> heap \<Rightarrow> bool" where
  "trie_ok ps h \<longleftrightarrow>
     length ps = length h \<and> h \<noteq> [] \<and> distinct ps \<and> ps ! root = []
     \<and> (\<forall>a < length h. distinct (map fst (nnext (h ! a))))
     \<and> (\<forall>a < length h. \<forall>ch b. child h a ch = Some b \<longleftrightarrow> b < length h \<and> ps ! b = ps ! a @ [ch])
     \<and> (\<forall>a < length h. ps ! a \<noteq> [] \<longrightarrow> butlast (ps ! a) \<in> set ps)"

definition words_ok :: "char32 list list \<Rightarrow> heap \<Rightarrow> char32 list set \<Rightarrow> bool" where
  "words_ok ps h ws \<longleftrightarrow>
     ws \<subseteq> set ps
     \<and> (\<forall>a < length h. (isEnd (h ! a) \<longleftrightarrow> ps ! a \<in> ws)
          \<and> (isEnd (h ! a) \<longrightarrow> nlen (h ! a) = length (ps ! a)))"

lemma trie_okD:
  assumes "trie_ok ps h"
  shows trie_length: "length ps = length h" and trie_distinct: "distinct ps"
    and trie_nonempty: "h \<noteq> []" and trie_root: "ps ! root = []"
  using assms by (auto simp: trie_ok_def)

lemma trie_root_less: "trie_ok ps h \<Longrightarrow> root < length h"
  by (simp add: trie_ok_def root_def)

lemma trie_child_iff:
  "trie_ok ps h \<Longrightarrow> a < length h \<Longrightarrow>
     child h a ch = Some b \<longleftrightarrow> b < length h \<and> ps ! b = ps ! a @ [ch]"
  unfolding trie_ok_def by blast

lemma trie_child_None_iff:
  assumes "trie_ok ps h" "a < length h"
  shows "child h a ch = None \<longleftrightarrow> ps ! a @ [ch] \<notin> set ps"
proof -
  have "(\<exists>b. child h a ch = Some b) \<longleftrightarrow> ps ! a @ [ch] \<in> set ps"
    using assms by (auto simp: trie_child_iff in_set_conv_nth trie_length)
  then show ?thesis by (cases "child h a ch") auto
qed

lemma trie_butlast:
  "trie_ok ps h \<Longrightarrow> s \<in> set ps \<Longrightarrow> s \<noteq> [] \<Longrightarrow> butlast s \<in> set ps"
  by (auto simp: trie_ok_def in_set_conv_nth)

lemma trie_snoc: "trie_ok ps h \<Longrightarrow> s @ [ch] \<in> set ps \<Longrightarrow> s \<in> set ps"
  using trie_butlast [of ps h "s @ [ch]"] by simp

lemma trie_inj:
  "trie_ok ps h \<Longrightarrow> a < length h \<Longrightarrow> b < length h \<Longrightarrow> ps ! a = ps ! b \<longleftrightarrow> a = b"
  by (simp add: trie_ok_def nth_eq_iff_index_eq)

lemma trie_root_iff:
  "trie_ok ps h \<Longrightarrow> a < length h \<Longrightarrow> ps ! a = [] \<longleftrightarrow> a = root"
  using trie_inj [of ps h a root] by (simp add: trie_root trie_root_less)

lemma trie_Nil_in: "trie_ok ps h \<Longrightarrow> [] \<in> set ps"
  by (metis nth_mem trie_length trie_root trie_root_less)

lemma trie_mem_iff: "trie_ok ps h \<Longrightarrow> s \<in> set ps \<longleftrightarrow> (\<exists>a < length h. ps ! a = s)"
  by (auto simp: in_set_conv_nth trie_length)

text \<open>Only the edges matter for \<open>trie_ok\<close>, and only \<open>isEnd\<close> and \<open>nlen\<close> for \<open>words_ok\<close>.\<close>

lemma trie_ok_same_edges:
  assumes "length h' = length h" and "\<And>a. a < length h \<Longrightarrow> nnext (h' ! a) = nnext (h ! a)"
  shows "trie_ok ps h' \<longleftrightarrow> trie_ok ps h"
  using assms by (auto simp: trie_ok_def)

lemma words_ok_same_ends:
  assumes "length h' = length h"
    and "\<And>a. a < length h \<Longrightarrow> isEnd (h' ! a) = isEnd (h ! a) \<and> nlen (h' ! a) = nlen (h ! a)"
  shows "words_ok ps h' ws \<longleftrightarrow> words_ok ps h ws"
  using assms by (auto simp: words_ok_def)

lemma ac_new_ok: "trie_ok [[]] ac_new \<and> words_ok [[]] ac_new {}"
  by (auto simp: trie_ok_def words_ok_def ac_new_def root_def)

section \<open>Adding a node\<close>

lemma add_child_nth:
  assumes "a < length h"
  shows "add_child h a ch ! i =
    (if i = a then (h ! a)\<lparr>nnext := AList.update ch (length h) (nnext (h ! a))\<rparr>
     else if i = length h then new_node else if i < length h then h ! i else add_child h a ch ! i)"
  using assms by (simp add: add_child_def nth_append)

lemma length_add_child [simp]: "length (add_child h a ch) = Suc (length h)"
  by (simp add: add_child_def)

lemma add_child_ok:
  assumes t: "trie_ok ps h" and a: "a < length h" and fresh: "child h a ch = None"
  shows "trie_ok (ps @ [ps ! a @ [ch]]) (add_child h a ch)"
proof -
  let ?ps = "ps @ [ps ! a @ [ch]]" and ?h = "add_child h a ch" and ?n = "length h"
  have len: "length ps = ?n" using t by (rule trie_length)
  have new: "ps ! a @ [ch] \<notin> set ps"
    using fresh t a by (simp add: trie_child_None_iff)
  have node: "nnext (?h ! i) =
      (if i = a then AList.update ch ?n (nnext (h ! a)) else if i = ?n then [] else nnext (h ! i))"
    if "i < Suc ?n" for i
    using that a by (auto simp: add_child_nth [OF a])
  have path: "?ps ! i = (if i = ?n then ps ! a @ [ch] else ps ! i)" if "i < Suc ?n" for i
    using that len by (simp add: nth_append)
  have edge: "map_of (nnext (?h ! i)) c = Some b \<longleftrightarrow> b < Suc ?n \<and> ?ps ! b = ?ps ! i @ [c]"
    if i: "i < Suc ?n" for i c b
  proof -
    have longer: "ps ! b \<noteq> ps ! a @ ch # [c]" if "b < ?n"
      using that new t trie_snoc [OF t, of "ps ! a @ [ch]" c] len
      by (metis append.assoc append_Cons append_Nil nth_mem)
    have not_new: "ps ! b \<noteq> ps ! a @ [ch]" if "b < ?n"
      using that new len by (metis nth_mem)
    consider (new) "i = ?n" | (at) "i = a" | (other) "i < ?n" "i \<noteq> a" using i by linarith
    then show ?thesis
    proof cases
      case new
      then show ?thesis using a longer by (auto simp: node path less_Suc_eq)
    next
      case at
      then show ?thesis
        using a t not_new by (auto simp: node path less_Suc_eq update_conv' trie_child_iff)
    next
      case other
      then have "ps ! i \<noteq> ps ! a" using a t by (simp add: trie_inj)
      with other show ?thesis
        using t by (auto simp: node path less_Suc_eq trie_child_iff)
    qed
  qed
  have keys: "distinct (map fst (nnext (?h ! i)))" if "i < Suc ?n" for i
    using that t a by (auto simp: node trie_ok_def distinct_update)
  have closed: "butlast (?ps ! i) \<in> set ?ps" if "i < Suc ?n" "?ps ! i \<noteq> []" for i
    using that a len trie_butlast [OF t, of "ps ! i"] by (auto simp: path less_Suc_eq)
  have "root < ?n" using t by (rule trie_root_less)
  then have "?ps ! root = []" using t by (simp add: path trie_root)
  then show ?thesis
    using len new t edge keys closed by (simp add: trie_ok_def add_child_def)
qed

lemma add_child_words_ok:
  assumes t: "trie_ok ps h" and w: "words_ok ps h ws" and a: "a < length h"
    and fresh: "child h a ch = None"
  shows "words_ok (ps @ [ps ! a @ [ch]]) (add_child h a ch) ws"
proof -
  have "ps ! a @ [ch] \<notin> ws"
    using fresh t a w by (auto simp: trie_child_None_iff words_ok_def)
  then show ?thesis
    using w a trie_length [OF t]
    by (auto simp: words_ok_def add_child_nth [OF a] nth_append less_Suc_eq)
qed

section \<open>Inserting a word\<close>

lemma insert_loop_ok:
  assumes "trie_ok ps h" "words_ok ps h ws" "a < length h" "insert_loop h a w = (h', a')"
  shows "\<exists>qs. trie_ok qs h' \<and> words_ok qs h' ws \<and> a' < length h' \<and> qs ! a' = ps ! a @ w
    \<and> set qs = set ps \<union> {ps ! a @ p | p. prefix p w}"
  using assms
proof (induction w arbitrary: h a ps)
  case Nil
  have "set ps = set ps \<union> {ps ! a @ p | p. prefix p []}"
    using Nil.prems trie_length [of ps h] by auto
  with Nil show ?case by (intro exI [of _ ps]) auto
next
  case (Cons ch w)
  have split: "{s @ p | p. prefix p (ch # w)} = insert s {(s @ [ch]) @ p | p. prefix p w}" for s
    by (auto simp: prefix_Cons)
  have self: "ps ! a \<in> set ps"
    using Cons.prems(1,3) by (simp add: trie_length)
  show ?case
  proof (cases "child h a ch")
    case None
    let ?ps = "ps @ [ps ! a @ [ch]]"
    have run: "insert_loop (add_child h a ch) (length h) w = (h', a')"
      using Cons.prems(4) None by simp
    have at: "?ps ! length h = ps ! a @ [ch]"
      using trie_length [OF Cons.prems(1)] by (simp add: nth_append)
    obtain qs where "trie_ok qs h'" "words_ok qs h' ws" "a' < length h'"
      "qs ! a' = ?ps ! length h @ w"
      "set qs = set ?ps \<union> {?ps ! length h @ p | p. prefix p w}"
      using Cons.IH [OF add_child_ok [OF Cons.prems(1,3) None]
          add_child_words_ok [OF Cons.prems(1,2,3) None] _ run] by auto
    then show ?thesis
      using self by (intro exI [of _ qs]) (auto simp: at split)
  next
    case (Some b)
    then have b: "b < length h" "ps ! b = ps ! a @ [ch]"
      using Cons.prems(1,3) by (simp_all add: trie_child_iff)
    have run: "insert_loop h b w = (h', a')"
      using Cons.prems(4) Some by simp
    from Cons.IH [OF Cons.prems(1,2) b(1) run] obtain qs where "trie_ok qs h'" "words_ok qs h' ws"
      "a' < length h'" "qs ! a' = ps ! b @ w" "set qs = set ps \<union> {ps ! b @ p | p. prefix p w}"
      by auto
    then show ?thesis
      using self by (intro exI [of _ qs]) (auto simp: b(2) split)
  qed
qed

lemma mark_end_ok:
  assumes "trie_ok ps h" "words_ok ps h ws" "a < length h" "n = length (ps ! a)"
  shows "trie_ok ps (h[a := (h ! a)\<lparr>isEnd := True, nlen := n\<rparr>])"
    and "words_ok ps (h[a := (h ! a)\<lparr>isEnd := True, nlen := n\<rparr>]) (insert (ps ! a) ws)"
proof -
  show "trie_ok ps (h[a := (h ! a)\<lparr>isEnd := True, nlen := n\<rparr>])"
    by (rule trie_ok_same_edges [THEN iffD2, OF _ _ assms(1)]) (use assms(3) in \<open>auto simp: nth_list_update\<close>)
  show "words_ok ps (h[a := (h ! a)\<lparr>isEnd := True, nlen := n\<rparr>]) (insert (ps ! a) ws)"
    using assms trie_inj [OF assms(1)] trie_length [OF assms(1)]
    by (auto simp: words_ok_def nth_list_update)
qed

lemma insert_word_ok:
  assumes t: "trie_ok ps h" and w: "words_ok ps h ws"
  shows "\<exists>qs. trie_ok qs (insert_word h w32) \<and> words_ok qs (insert_word h w32) (insert w32 ws)
    \<and> set qs = set ps \<union> {p. prefix p w32}"
proof -
  obtain h' a where run: "insert_loop h root w32 = (h', a)" by fastforce
  from insert_loop_ok [OF t w trie_root_less [OF t] run] trie_root [OF t]
  obtain qs where qs: "trie_ok qs h'" "words_ok qs h' ws" "a < length h'" "qs ! a = w32"
    "set qs = set ps \<union> {p. prefix p w32}"
    by auto
  note mark_end_ok [OF qs(1-3), of "length w32"]
  with qs show ?thesis by (auto simp: insert_word_def run)
qed

text \<open>A whole keyword list, as the client's constructor inserts it.\<close>

fun insert_all :: "heap \<Rightarrow> string list \<Rightarrow> heap outcome" where
  "insert_all h [] = Inr h"
| "insert_all h (w # ws) = and_then (ac_insert h w) (\<lambda>h'. insert_all h' ws)"

text \<open>The kwords of a list as code points; the empty word is skipped, as \<^verbatim>\<open>insert\<close> does.\<close>

definition kwords :: "string list \<Rightarrow> char32 list set" where
  "kwords ws = {w32. \<exists>w \<in> set ws. w \<noteq> [] \<and> utf8_to_utf32 w = Some w32}"

lemma insert_all_ok:
  assumes "trie_ok ps h" "words_ok ps h K" "insert_all h ws = Inr h'"
  shows "\<exists>qs. trie_ok qs h' \<and> words_ok qs h' (K \<union> kwords ws)
    \<and> set qs = set ps \<union> {p. \<exists>w \<in> kwords ws. prefix p w}"
  using assms
proof (induction ws arbitrary: h ps K)
  case Nil
  then show ?case by (auto simp: kwords_def)
next
  case (Cons w ws)
  show ?case
  proof (cases "w = []")
    case True
    with Cons have "insert_all h ws = Inr h'" by (simp add: ac_insert_def)
    from Cons.IH [OF Cons.prems(1,2) this] True show ?thesis
      by (simp add: kwords_def)
  next
    case False
    with Cons.prems(3) obtain w32 where w32: "utf8_to_utf32 w = Some w32"
      and run: "insert_all (insert_word h w32) ws = Inr h'"
      by (auto simp: ac_insert_def and_then_Inr_iff split: option.splits)
    have keys: "kwords (w # ws) = insert w32 (kwords ws)"
      using False w32 by (auto simp: kwords_def)
    obtain ps' where ps': "trie_ok ps' (insert_word h w32)"
      "words_ok ps' (insert_word h w32) (insert w32 K)" "set ps' = set ps \<union> {p. prefix p w32}"
      using insert_word_ok [OF Cons.prems(1,2)] by blast
    from Cons.IH [OF ps'(1,2) run] ps'(3) show ?thesis
      by (auto simp: keys)
  qed
qed

lemma insert_all_total:
  "(\<forall>w \<in> set ws. utf8_to_utf32 w \<noteq> None) \<Longrightarrow> \<exists>h'. insert_all h ws = Inr h'"
  by (induction ws arbitrary: h) (auto simp: ac_insert_def)

end
