(* ===== verification/AC_Build.thy ===== *)
theory AC_Build
  imports AC_Trie
begin

text \<open>
  \<^verbatim>\<open>ACAutomaton::build\<close>: the breadth-first computation of the failure links. The inner
  \<^verbatim>\<open>while (p)\<close> and the outer \<^verbatim>\<open>while (!q.empty())\<close> are recursions that may fail to return
  (\<open>None\<close>); \<open>build_ok\<close> shows that on a trie they return, and that every node's link then points to
  the node of its longest proper suffix.
\<close>

section \<open>The code\<close>

definition set_fail :: "heap \<Rightarrow> addr \<Rightarrow> addr option \<Rightarrow> heap" where
  "set_fail h a f = h[a := (h ! a)\<lparr>nfail := f\<rparr>]"

text \<open>
  \<^verbatim>\<open>while (p) { if (p->next.count(ch) > 0) { ... break; } p = p->fail; }\<close>: the child found, or
  \<open>None\<close> inside when \<open>p\<close> became null.
\<close>

partial_function (option) find_fail :: "heap \<Rightarrow> addr option \<Rightarrow> char32 \<Rightarrow> addr option option" where
  "find_fail h p ch =
     (case p of
        None \<Rightarrow> Some None
      | Some a \<Rightarrow> (case child h a ch of
            Some b \<Rightarrow> Some (Some b)
          | None \<Rightarrow> find_fail h (nfail (h ! a)) ch))"

fun link_children ::
  "heap \<Rightarrow> addr \<Rightarrow> (char32 \<times> addr) list \<Rightarrow> addr list \<Rightarrow> (heap \<times> addr list) option" where
  "link_children h a [] q = Some (h, q)"
| "link_children h a ((ch, c) # es) q =
     (if a = root then link_children (set_fail h c (Some root)) a es (q @ [c])
      else case find_fail h (nfail (h ! a)) ch of
        None \<Rightarrow> None
      | Some None \<Rightarrow> link_children (set_fail h c (Some root)) a es (q @ [c])
      | Some (Some b) \<Rightarrow> link_children (set_fail h c (Some b)) a es (q @ [c]))"

partial_function (option) bfs :: "heap \<Rightarrow> addr list \<Rightarrow> heap option" where
  "bfs h q =
     (case q of
        [] \<Rightarrow> Some h
      | a # q' \<Rightarrow> (case link_children h a (nnext (h ! a)) q' of
            None \<Rightarrow> None
          | Some r \<Rightarrow> bfs (fst r) (snd r)))"

definition ac_build :: "heap \<Rightarrow> heap option" where
  "ac_build h = bfs (set_fail h root None) [root]"

lemma find_fail_code [code]:
  "find_fail h None ch = Some None"
  "find_fail h (Some a) ch =
     (case child h a ch of Some b \<Rightarrow> Some (Some b) | None \<Rightarrow> find_fail h (nfail (h ! a)) ch)"
  by (simp_all add: find_fail.simps)

lemma bfs_code [code]:
  "bfs h [] = Some h"
  "bfs h (a # q) =
     (case link_children h a (nnext (h ! a)) q of None \<Rightarrow> None | Some r \<Rightarrow> bfs (fst r) (snd r))"
  by (simp_all add: bfs.simps)

section \<open>What a failure link is\<close>

definition fail_val :: "char32 list list \<Rightarrow> addr \<Rightarrow> addr option \<Rightarrow> bool" where
  "fail_val ps a x \<longleftrightarrow>
     (case x of
        None \<Rightarrow> ps ! a = []
      | Some f \<Rightarrow> f < length ps \<and> strict_suffix (ps ! f) (ps ! a)
          \<and> (\<forall>s \<in> set ps. strict_suffix s (ps ! a) \<longrightarrow> suffix s (ps ! f)))"

abbreviation fail_ok :: "char32 list list \<Rightarrow> heap \<Rightarrow> addr \<Rightarrow> bool" where
  "fail_ok ps h a \<equiv> fail_val ps a (nfail (h ! a))"

definition same_but_fail :: "heap \<Rightarrow> heap \<Rightarrow> bool" where
  "same_but_fail h h' \<longleftrightarrow> length h' = length h \<and>
     (\<forall>a < length h. nnext (h' ! a) = nnext (h ! a) \<and> isEnd (h' ! a) = isEnd (h ! a)
        \<and> nlen (h' ! a) = nlen (h ! a))"

lemma same_but_fail_refl [simp]: "same_but_fail h h"
  by (simp add: same_but_fail_def)

lemma same_but_fail_trans:
  "same_but_fail h h' \<Longrightarrow> same_but_fail h' h'' \<Longrightarrow> same_but_fail h h''"
  by (simp add: same_but_fail_def)

lemma same_but_fail_set_fail [simp]: "same_but_fail h (set_fail h a f)"
  by (cases "a < length h") (auto simp: same_but_fail_def set_fail_def nth_list_update)

lemma same_but_fail_length: "same_but_fail h h' \<Longrightarrow> length h' = length h"
  by (simp add: same_but_fail_def)

lemma same_but_fail_trie: "same_but_fail h h' \<Longrightarrow> trie_ok ps h' \<longleftrightarrow> trie_ok ps h"
  by (rule trie_ok_same_edges) (simp_all add: same_but_fail_def)

lemma same_but_fail_words: "same_but_fail h h' \<Longrightarrow> words_ok ps h' ws \<longleftrightarrow> words_ok ps h ws"
  by (rule words_ok_same_ends) (simp_all add: same_but_fail_def)

lemma length_set_fail [simp]: "length (set_fail h a f) = length h"
  by (simp add: set_fail_def)

lemma nfail_set_fail:
  "a < length h \<Longrightarrow> nfail (set_fail h a f ! b) = (if b = a then f else nfail (h ! b))"
  by (auto simp: set_fail_def nth_list_update)

lemma fail_val_None_root:
  "trie_ok ps h \<Longrightarrow> a < length h \<Longrightarrow> fail_val ps a None \<longleftrightarrow> a = root"
  by (simp add: fail_val_def trie_root_iff)

lemma fail_val_SomeD:
  assumes "trie_ok ps h" "fail_val ps a (Some f)"
  shows "f < length h" "strict_suffix (ps ! f) (ps ! a)" "length (ps ! f) < length (ps ! a)"
  using assms suffix_length_less
  by (auto simp: fail_val_def trie_length)

section \<open>Following the links\<close>

text \<open>
  The node found from \<open>x\<close> for \<open>ch\<close>: the child by \<open>ch\<close> of the longest suffix of \<open>x\<close>'s string (the
  string itself included) that has one.
\<close>

definition chain_result :: "char32 list list \<Rightarrow> addr \<Rightarrow> char32 \<Rightarrow> addr option \<Rightarrow> bool" where
  "chain_result ps x ch r \<longleftrightarrow>
     (case r of
        None \<Rightarrow> \<forall>s. suffix s (ps ! x) \<longrightarrow> s @ [ch] \<notin> set ps
      | Some b \<Rightarrow> b < length ps \<and> (\<exists>s. ps ! b = s @ [ch] \<and> suffix s (ps ! x)
          \<and> (\<forall>t. suffix t (ps ! x) \<longrightarrow> t @ [ch] \<in> set ps \<longrightarrow> suffix t s)))"

lemma chain_result_child:
  assumes "trie_ok ps h" "x < length h" "child h x ch = Some b"
  shows "chain_result ps x ch (Some b)"
  using assms by (auto simp: chain_result_def trie_child_iff trie_length)

lemma chain_result_root:
  assumes "trie_ok ps h" "child h root ch = None"
  shows "chain_result ps root ch None"
  using assms trie_child_None_iff [OF assms(1) trie_root_less [OF assms(1)]]
  by (auto simp: chain_result_def trie_root)

lemma suffix_through_fail:
  assumes t: "trie_ok ps h" and x: "x < length h" and none: "child h x ch = None"
    and f: "fail_val ps x (Some f)" and s: "suffix s (ps ! x)" "s @ [ch] \<in> set ps"
  shows "suffix s (ps ! f)"
proof -
  have "s \<noteq> ps ! x" using none s(2) t x by (auto simp: trie_child_None_iff)
  then have "strict_suffix s (ps ! x)" using s(1) by (simp add: strict_suffix_def)
  then show ?thesis using f trie_snoc [OF t s(2)] by (simp add: fail_val_def)
qed

lemma chain_result_fail:
  assumes t: "trie_ok ps h" and x: "x < length h" and none: "child h x ch = None"
    and f: "fail_val ps x (Some f)" and r: "chain_result ps f ch r"
  shows "chain_result ps x ch r"
proof -
  have up: "suffix s (ps ! x)" if "suffix s (ps ! f)" for s
    using that f by (auto simp: fail_val_def strict_suffix_def intro: suffix_order.trans)
  note down = suffix_through_fail [OF t x none f]
  show ?thesis
  proof (cases r)
    case None
    with r down show ?thesis by (auto simp: chain_result_def)
  next
    case (Some b)
    with r obtain s where "b < length ps" "ps ! b = s @ [ch]" "suffix s (ps ! f)"
      "\<And>u. suffix u (ps ! f) \<Longrightarrow> u @ [ch] \<in> set ps \<Longrightarrow> suffix u s"
      by (auto simp: chain_result_def)
    with down up have "b < length ps \<and> (\<exists>s. ps ! b = s @ [ch] \<and> suffix s (ps ! x)
        \<and> (\<forall>t. suffix t (ps ! x) \<longrightarrow> t @ [ch] \<in> set ps \<longrightarrow> suffix t s))"
      by (intro conjI exI [of _ s]) blast+
    with Some show ?thesis by (simp add: chain_result_def)
  qed
qed

lemma find_fail_ok:
  assumes "trie_ok ps h" "x < length h"
    and "\<And>b. b < length h \<Longrightarrow> length (ps ! b) \<le> length (ps ! x) \<Longrightarrow> fail_ok ps h b"
  shows "\<exists>r. find_fail h (Some x) ch = Some r \<and> chain_result ps x ch r"
  using assms(2,3)
proof (induction "length (ps ! x)" arbitrary: x rule: less_induct)
  case less
  show ?case
  proof (cases "child h x ch")
    case (Some b)
    then show ?thesis
      using chain_result_child [OF assms(1) less.prems(1) Some] by (simp add: find_fail.simps)
  next
    case None
    have ok: "fail_ok ps h x" using less.prems by simp
    show ?thesis
    proof (cases "nfail (h ! x)")
      case nul: None
      then have "x = root" using ok less.prems(1) assms(1) fail_val_None_root by metis
      then show ?thesis
        using None nul chain_result_root [OF assms(1)] by (simp add: find_fail.simps)
    next
      case (Some f)
      note link = ok [unfolded Some] and fs = fail_val_SomeD [OF assms(1) ok [unfolded Some]]
      have "\<exists>r. find_fail h (Some f) ch = Some r \<and> chain_result ps f ch r"
        using less.hyps [OF fs(3,1)] less.prems(2) fs(3) by simp
      then show ?thesis
        using chain_result_fail [OF assms(1) less.prems(1) None link] None Some
        by (auto simp: find_fail.simps [of h "Some x"])
    qed
  qed
qed

section \<open>The link of a child\<close>

lemma strict_suffix_snoc:
  "strict_suffix s (u @ [ch]) \<longleftrightarrow> s = [] \<or> (\<exists>t. s = t @ [ch] \<and> strict_suffix t u)"
  by (cases s rule: rev_cases) (auto simp: strict_suffix_def)

lemma root_child_fail:
  assumes t: "trie_ok ps h" and c: "child h root ch = Some c"
  shows "fail_val ps c (Some root)"
proof -
  have "ps ! c = [ch]"
    using c t trie_root_less [OF t] by (simp add: trie_child_iff trie_root)
  moreover have "s = []" if "strict_suffix s [ch]" for s
    using that strict_suffix_snoc [of s "[]" ch] by (auto simp: strict_suffix_def)
  ultimately show ?thesis
    using t trie_root_less [OF t] by (simp add: fail_val_def trie_root trie_length strict_suffix_def)
qed

lemma child_fail:
  assumes t: "trie_ok ps h" and a: "a < length h" and c: "child h a ch = Some c"
    and f: "fail_val ps a (Some f)" and r: "chain_result ps f ch r"
  shows "fail_val ps c (Some (case r of None \<Rightarrow> root | Some b \<Rightarrow> b))"
proof -
  have c_path: "ps ! c = ps ! a @ [ch]" using t a c by (simp add: trie_child_iff)
  have f_suffix: "strict_suffix (ps ! f) (ps ! a)" using f by (simp add: fail_val_def)
  have via: "suffix u (ps ! f)" if "strict_suffix (u @ [ch]) (ps ! c)" "u @ [ch] \<in> set ps" for u
    using that f trie_snoc [OF t that(2)] by (auto simp: c_path strict_suffix_snoc fail_val_def)
  have root: "root < length ps" using t by (simp add: trie_root_less trie_length)
  show ?thesis
  proof (cases r)
    case None
    have "s = []" if "s \<in> set ps" "strict_suffix s (ps ! c)" for s
      using that via r None by (auto simp: c_path strict_suffix_snoc chain_result_def)
    then show ?thesis
      using None root c_path by (simp add: fail_val_def trie_root [OF t] strict_suffix_snoc)
  next
    case (Some b)
    then obtain s where b: "b < length ps" "ps ! b = s @ [ch]" and s: "suffix s (ps ! f)"
      and longest: "\<And>u. suffix u (ps ! f) \<Longrightarrow> u @ [ch] \<in> set ps \<Longrightarrow> suffix u s"
      using r by (auto simp: chain_result_def)
    have "strict_suffix s (ps ! a)"
      using s f_suffix by (metis suffix_order.le_less_trans)
    moreover have "suffix u (ps ! b)" if u: "u \<in> set ps" "strict_suffix u (ps ! c)" for u
    proof (cases u rule: rev_cases)
      case Nil
      then show ?thesis by simp
    next
      case (snoc v x)
      then show ?thesis using u via longest by (auto simp: c_path strict_suffix_snoc b(2))
    qed
    ultimately show ?thesis
      using Some b by (simp add: fail_val_def c_path strict_suffix_snoc)
  qed
qed

section \<open>One node's children\<close>

lemma edge_child:
  assumes "trie_ok ps h" "a < length h" "(ch, c) \<in> set (nnext (h ! a))"
  shows "child h a ch = Some c" "c < length h" "ps ! c = ps ! a @ [ch]"
proof -
  have "distinct (map fst (nnext (h ! a)))" using assms by (simp add: trie_ok_def)
  then show "child h a ch = Some c" using assms(3) by (rule map_of_is_SomeI)
  then show "c < length h" "ps ! c = ps ! a @ [ch]" using assms(1,2) by (simp_all add: trie_child_iff)
qed

lemma link_children_ok:
  assumes "trie_ok ps h" "a < length h" "set es \<subseteq> set (nnext (h ! a))"
    and "\<And>b. b < length h \<Longrightarrow> length (ps ! b) \<le> length (ps ! a) \<Longrightarrow> fail_ok ps h b"
  shows "\<exists>h'. link_children h a es q = Some (h', q @ map snd es) \<and> same_but_fail h h'
    \<and> (\<forall>b. b \<notin> snd ` set es \<longrightarrow> nfail (h' ! b) = nfail (h ! b))
    \<and> (\<forall>c \<in> snd ` set es. fail_ok ps h' c)"
  using assms
proof (induction es arbitrary: h q)
  case Nil
  then show ?case by simp
next
  case (Cons e es)
  obtain ch c where e: "e = (ch, c)" by fastforce
  have edge: "child h a ch = Some c" "c < length h" "ps ! c = ps ! a @ [ch]"
    using edge_child [OF Cons.prems(1,2)] Cons.prems(3) e by auto
  have "\<exists>f. link_children h a (e # es) q = link_children (set_fail h c (Some f)) a es (q @ [c])
      \<and> fail_val ps c (Some f)"
  proof (cases "a = root")
    case True
    then show ?thesis using root_child_fail [OF Cons.prems(1)] edge(1) e by auto
  next
    case False
    have ok: "fail_ok ps h a" using Cons.prems by simp
    obtain f where f: "nfail (h ! a) = Some f"
      using False ok Cons.prems(1,2) fail_val_None_root [of ps h a] by (cases "nfail (h ! a)") auto
    note fs = fail_val_SomeD [OF Cons.prems(1) ok [unfolded f]]
    have "\<exists>r. find_fail h (Some f) ch = Some r \<and> chain_result ps f ch r"
      using fs by (intro find_fail_ok [OF Cons.prems(1)] Cons.prems(4)) simp_all
    then obtain r where r: "find_fail h (Some f) ch = Some r" "chain_result ps f ch r" by blast
    then show ?thesis
      using child_fail [OF Cons.prems(1,2) edge(1) ok [unfolded f] r(2)] False e f
      by (cases r) auto
  qed
  then obtain f where run: "link_children h a (e # es) q
        = link_children (set_fail h c (Some f)) a es (q @ [c])"
    and link: "fail_val ps c (Some f)" by blast
  let ?h = "set_fail h c (Some f)"
  have upd: "nfail (?h ! b) = (if b = c then Some f else nfail (h ! b))" for b
    using edge(2) by (rule nfail_set_fail)
  have same: "same_but_fail h ?h" by simp
  have shallow: "fail_ok ps ?h b" if "b < length ?h" "length (ps ! b) \<le> length (ps ! a)" for b
    using that Cons.prems(4) [of b] link by (simp add: upd)
  have "set es \<subseteq> set (nnext (?h ! a))"
    using Cons.prems(2,3) same by (simp add: same_but_fail_def)
  moreover have "trie_ok ps ?h" using Cons.prems(1) same_but_fail_trie [OF same] by simp
  ultimately have "\<exists>h'. link_children ?h a es (q @ [c]) = Some (h', (q @ [c]) @ map snd es)
      \<and> same_but_fail ?h h' \<and> (\<forall>b. b \<notin> snd ` set es \<longrightarrow> nfail (h' ! b) = nfail (?h ! b))
      \<and> (\<forall>c' \<in> snd ` set es. fail_ok ps h' c')"
    using Cons.prems(2) shallow by (intro Cons.IH) simp_all
  then obtain h' where h': "link_children ?h a es (q @ [c]) = Some (h', (q @ [c]) @ map snd es)"
      "same_but_fail ?h h'"
    and keep: "\<And>b. b \<notin> snd ` set es \<Longrightarrow> nfail (h' ! b) = nfail (?h ! b)"
    and linked: "\<And>c'. c' \<in> snd ` set es \<Longrightarrow> fail_ok ps h' c'" by blast
  have "fail_ok ps h' c" using linked [of c] keep [of c] link by (cases "c \<in> snd ` set es") (auto simp: upd)
  then show ?case
    using run h' keep linked e same_but_fail_trans [OF same] by (auto simp: upd)
qed

section \<open>The breadth-first search\<close>

definition bfs_inv :: "char32 list list \<Rightarrow> heap \<Rightarrow> addr list \<Rightarrow> addr set \<Rightarrow> bool" where
  "bfs_inv ps h q D \<longleftrightarrow>
     trie_ok ps h \<and> D \<union> set q \<subseteq> {..<length h} \<and> distinct q \<and> set q \<inter> D = {}
     \<and> root \<in> D \<union> set q
     \<and> (\<forall>a \<in> D. \<forall>ch b. child h a ch = Some b \<longrightarrow> b \<in> D \<union> set q)
     \<and> (\<forall>b \<in> D \<union> set q. \<forall>a < length h. \<forall>ch. child h a ch = Some b \<longrightarrow> a \<in> D)
     \<and> (\<forall>a \<in> D \<union> set q. fail_ok ps h a)
     \<and> sorted (map (\<lambda>a. length (ps ! a)) q)
     \<and> (\<forall>a \<in> set q. length (ps ! a) \<le> Suc (length (ps ! hd q)))"

lemma bfs_invD:
  assumes "bfs_inv ps h q D"
  shows bfs_inv_trie: "trie_ok ps h"
    and bfs_inv_less: "\<And>a. a \<in> D \<union> set q \<Longrightarrow> a < length h"
    and bfs_inv_distinct: "distinct q" "set q \<inter> D = {}"
    and bfs_inv_root: "root \<in> D \<union> set q"
    and bfs_inv_down: "\<And>a ch b. a \<in> D \<Longrightarrow> child h a ch = Some b \<Longrightarrow> b \<in> D \<union> set q"
    and bfs_inv_up: "\<And>a ch b. b \<in> D \<union> set q \<Longrightarrow> a < length h \<Longrightarrow> child h a ch = Some b \<Longrightarrow> a \<in> D"
    and bfs_inv_link: "\<And>a. a \<in> D \<union> set q \<Longrightarrow> fail_ok ps h a"
    and bfs_inv_sorted: "sorted (map (\<lambda>a. length (ps ! a)) q)"
    and bfs_inv_depth: "\<And>a. a \<in> set q \<Longrightarrow> length (ps ! a) \<le> Suc (length (ps ! hd q))"
  using assms unfolding bfs_inv_def by blast+

lemma bfs_invI:
  assumes "trie_ok ps h" and "D \<union> set q \<subseteq> {..<length h}" and "distinct q" and "set q \<inter> D = {}"
    and "root \<in> D \<union> set q"
    and "\<And>a ch b. a \<in> D \<Longrightarrow> child h a ch = Some b \<Longrightarrow> b \<in> D \<union> set q"
    and "\<And>a ch b. b \<in> D \<union> set q \<Longrightarrow> a < length h \<Longrightarrow> child h a ch = Some b \<Longrightarrow> a \<in> D"
    and "\<And>a. a \<in> D \<union> set q \<Longrightarrow> fail_ok ps h a"
    and "sorted (map (\<lambda>a. length (ps ! a)) q)"
    and "\<And>a. a \<in> set q \<Longrightarrow> length (ps ! a) \<le> Suc (length (ps ! hd q))"
  shows "bfs_inv ps h q D"
  unfolding bfs_inv_def by (intro conjI ballI allI impI) (fact assms)+

lemma bfs_unvisited:
  assumes inv: "bfs_inv ps h q D" and a: "a < length h" "a \<notin> D \<union> set q"
  shows "\<exists>b \<in> set q. length (ps ! b) < length (ps ! a)"
  using a
proof (induction "length (ps ! a)" arbitrary: a rule: less_induct)
  case less
  note t = bfs_inv_trie [OF inv]
  have "a \<noteq> root" using bfs_inv_root [OF inv] less.prems(2) by blast
  then have ne: "ps ! a \<noteq> []" using t less.prems(1) by (simp add: trie_root_iff)
  then have "butlast (ps ! a) \<in> set ps"
    using t less.prems(1) by (intro trie_butlast [OF t]) (simp_all add: trie_length)
  then obtain p where p: "p < length h" "ps ! p = butlast (ps ! a)"
    using t by (auto simp: trie_mem_iff)
  then have "ps ! a = ps ! p @ [last (ps ! a)]" using ne by simp
  then have edge: "child h p (last (ps ! a)) = Some a"
    using t p less.prems(1) trie_child_iff [OF t p(1)] by simp
  have shorter: "length (ps ! p) < length (ps ! a)" using p ne by simp
  have "p \<notin> D" using bfs_inv_down [OF inv _ edge] less.prems(2) by blast
  show ?case
  proof (cases "p \<in> set q")
    case True
    with shorter show ?thesis by blast
  next
    case False
    then obtain b where "b \<in> set q" "length (ps ! b) < length (ps ! p)"
      using less.hyps [OF shorter p(1)] \<open>p \<notin> D\<close> by blast
    with shorter show ?thesis by (intro bexI [of _ b]) simp_all
  qed
qed

lemma bfs_shallow_linked:
  assumes inv: "bfs_inv ps h (x # q) D" and b: "b < length h" "length (ps ! b) \<le> length (ps ! x)"
  shows "fail_ok ps h b"
proof (rule ccontr)
  assume "\<not> fail_ok ps h b"
  then have "b \<notin> D \<union> set (x # q)" using bfs_inv_link [OF inv] by blast
  from bfs_unvisited [OF inv b(1) this] obtain c where
    "c \<in> set (x # q)" "length (ps ! c) < length (ps ! b)" by blast
  moreover have "length (ps ! x) \<le> length (ps ! c)" if "c \<in> set (x # q)" for c
    using that bfs_inv_sorted [OF inv] by auto
  ultimately show False using b(2) by fastforce
qed

lemma children_distinct:
  assumes "trie_ok ps h" "a < length h"
  shows "distinct (map snd (nnext (h ! a)))"
proof -
  have "distinct (map fst (nnext (h ! a)))" using assms by (simp add: trie_ok_def)
  then have d: "distinct (nnext (h ! a))" by (simp add: distinct_map)
  have "e = e'" if "e \<in> set (nnext (h ! a))" "e' \<in> set (nnext (h ! a))" "snd e = snd e'" for e e'
  proof -
    have "ps ! snd e = ps ! a @ [fst e]" "ps ! snd e' = ps ! a @ [fst e']"
      using that(1,2) by (auto intro: edge_child(3) [OF assms])
    with that(3) show ?thesis by (simp add: prod_eq_iff)
  qed
  then show ?thesis using d by (simp add: distinct_map inj_on_def)
qed

lemma sorted_const: "(\<And>y. y \<in> set ys \<Longrightarrow> y = n) \<Longrightarrow> sorted ys"
  by (induction ys) auto

lemma bfs_step:
  assumes inv: "bfs_inv ps h (x # q) D"
  shows "\<exists>h'. link_children h x (nnext (h ! x)) q = Some (h', q @ map snd (nnext (h ! x)))
    \<and> same_but_fail h h' \<and> bfs_inv ps h' (q @ map snd (nnext (h ! x))) (insert x D)"
proof -
  let ?es = "nnext (h ! x)"
  note t = bfs_inv_trie [OF inv]
  have x: "x < length h" using bfs_inv_less [OF inv, of x] by simp
  have xD: "x \<notin> D" using bfs_inv_distinct(2) [OF inv] by simp
  have "\<exists>h'. link_children h x ?es q = Some (h', q @ map snd ?es) \<and> same_but_fail h h'
      \<and> (\<forall>b. b \<notin> snd ` set ?es \<longrightarrow> nfail (h' ! b) = nfail (h ! b))
      \<and> (\<forall>c \<in> snd ` set ?es. fail_ok ps h' c)"
    by (rule link_children_ok [OF t x subset_refl bfs_shallow_linked [OF inv]])
  then obtain h' where run: "link_children h x ?es q = Some (h', q @ map snd ?es)"
    and same: "same_but_fail h h'"
    and keep: "\<And>b. b \<notin> snd ` set ?es \<Longrightarrow> nfail (h' ! b) = nfail (h ! b)"
    and linked: "\<And>c. c \<in> snd ` set ?es \<Longrightarrow> fail_ok ps h' c"
    by (elim exE conjE) (simp only: Ball_def, blast)
  have edge: "child h x ch = Some c" "c < length h" "ps ! c = ps ! x @ [ch]"
    if "(ch, c) \<in> set ?es" for ch c
    using edge_child [OF t x that] by blast+
  have kids: "c < length h \<and> length (ps ! c) = Suc (length (ps ! x)) \<and> c \<notin> D \<union> set (x # q)"
    if "c \<in> snd ` set ?es" for c
  proof -
    from that obtain ch where e: "(ch, c) \<in> set ?es" by auto
    have "x \<in> D" if "c \<in> D \<union> set (x # q)"
      using bfs_inv_up [OF inv that x edge(1) [OF e]] .
    with edge [OF e] xD show ?thesis by auto
  qed
  have child_same: "child h' a ch = child h a ch" if "a < length h" for a ch
    using same that by (simp add: same_but_fail_def)
  have len: "length h' = length h" using same by (rule same_but_fail_length)
  have closed_down: "b \<in> insert x D \<union> set (q @ map snd ?es)"
    if "a \<in> insert x D" "child h' a ch = Some b" for a ch b
  proof -
    have a: "a < length h" using that(1) bfs_inv_less [OF inv, of a] x by blast
    with that(2) have c: "child h a ch = Some b" by (simp add: child_same)
    show ?thesis
    proof (cases "a = x")
      case True
      with c show ?thesis by (auto dest!: map_of_SomeD intro: rev_image_eqI)
    next
      case False
      then show ?thesis using that(1) bfs_inv_down [OF inv _ c] by auto
    qed
  qed
  have closed_up: "a \<in> insert x D"
    if b: "b \<in> insert x D \<union> set (q @ map snd ?es)" and a: "a < length h" "child h' a ch = Some b" for a ch b
  proof (cases "b \<in> snd ` set ?es")
    case True
    then obtain ch' where e: "(ch', b) \<in> set ?es" by auto
    have "ps ! b = ps ! a @ [ch]" using a t by (simp add: child_same trie_child_iff)
    with edge(3) [OF e] have "ps ! a = ps ! x" by simp
    then show ?thesis using t a(1) x by (simp add: trie_inj)
  next
    case False
    then have "b \<in> D \<union> set (x # q)" using b by auto
    then show ?thesis using bfs_inv_up [OF inv _ a(1)] a by (simp add: child_same)
  qed
  have links: "fail_ok ps h' a" if "a \<in> insert x D \<union> set (q @ map snd ?es)" for a
  proof (cases "a \<in> snd ` set ?es")
    case True
    then show ?thesis by (rule linked)
  next
    case False
    then have "a \<in> D \<union> set (x # q)" using that by auto
    then show ?thesis using bfs_inv_link [OF inv] False by (simp add: keep)
  qed
  have depths: "length (ps ! x) \<le> length (ps ! a) \<and> length (ps ! a) \<le> Suc (length (ps ! x))"
    if "a \<in> set (q @ map snd ?es)" for a
  proof (cases "a \<in> set q")
    case True
    then show ?thesis using bfs_inv_sorted [OF inv] bfs_inv_depth [OF inv, of a] by auto
  next
    case False
    then show ?thesis using that kids by auto
  qed
  have "sorted (map (\<lambda>a. length (ps ! a)) q)" using bfs_inv_sorted [OF inv] by simp
  moreover have "sorted (map (\<lambda>a. length (ps ! a)) (map snd ?es))"
    using kids by (intro sorted_const [of _ "Suc (length (ps ! x))"]) auto
  ultimately have sorted: "sorted (map (\<lambda>a. length (ps ! a)) (q @ map snd ?es))"
    using depths kids by (auto simp: sorted_append)
  have near: "length (ps ! a) \<le> Suc (length (ps ! hd (q @ map snd ?es)))"
    if "a \<in> set (q @ map snd ?es)" for a
  proof -
    have "hd (q @ map snd ?es) \<in> set (q @ map snd ?es)"
      using that by (metis empty_iff hd_in_set list.set(1))
    then show ?thesis using depths that by (meson Suc_le_mono le_trans)
  qed
  have "bfs_inv ps h' (q @ map snd ?es) (insert x D)"
  proof (rule bfs_invI [OF _ _ _ _ _ closed_down closed_up links sorted near])
    show "trie_ok ps h'" using t same_but_fail_trie [OF same] by simp
    show "insert x D \<union> set (q @ map snd ?es) \<subseteq> {..<length h'}"
      using bfs_inv_less [OF inv] x kids by (auto simp: len)
    show "distinct (q @ map snd ?es)"
      using bfs_inv_distinct(1) [OF inv] children_distinct [OF t x] kids by auto
    show "set (q @ map snd ?es) \<inter> insert x D = {}"
      using bfs_inv_distinct [OF inv] kids by auto
    show "root \<in> insert x D \<union> set (q @ map snd ?es)"
      using bfs_inv_root [OF inv] by auto
  qed (simp_all only: len)
  with run same show ?thesis by blast
qed

lemma bfs_ok:
  assumes "bfs_inv ps h q D"
  shows "\<exists>h'. bfs h q = Some h' \<and> same_but_fail h h' \<and> (\<forall>a < length h. fail_ok ps h' a)"
  using assms
proof (induction "length h - card D" arbitrary: h q D rule: less_induct)
  case less
  show ?case
  proof (cases q)
    case Nil
    have "a \<in> D" if "a < length h" for a
      using bfs_unvisited [OF less.prems that] Nil by auto
    then show ?thesis using less.prems Nil by (auto simp: bfs.simps bfs_inv_def)
  next
    case (Cons x q')
    from bfs_step [OF less.prems [unfolded Cons]] obtain h' where
      run: "link_children h x (nnext (h ! x)) q' = Some (h', q' @ map snd (nnext (h ! x)))"
      and same: "same_but_fail h h'"
      and inv: "bfs_inv ps h' (q' @ map snd (nnext (h ! x))) (insert x D)" by blast
    have D: "D \<subseteq> {..<length h}" "x < length h" "x \<notin> D"
      using less.prems Cons by (auto simp: bfs_inv_def)
    then have fin: "finite D" using finite_subset by blast
    have "card (insert x D) \<le> length h"
      using D card_mono [of "{..<length h}" "insert x D"] by simp
    then have "length h' - card (insert x D) < length h - card D"
      using fin D(3) by (simp add: same_but_fail_length [OF same])
    from less.hyps [OF this inv] obtain h'' where
      "bfs h' (q' @ map snd (nnext (h ! x))) = Some h''" "same_but_fail h' h''"
      "\<forall>a < length h'. fail_ok ps h'' a" by blast
    moreover have "bfs h (x # q') = bfs h' (q' @ map snd (nnext (h ! x)))"
      by (simp add: bfs.simps [of h "x # q'"] run)
    ultimately show ?thesis
      using Cons same_but_fail_trans [OF same] same_but_fail_length [OF same] by auto
  qed
qed

lemma bfs_inv_start:
  assumes t: "trie_ok ps h"
  shows "bfs_inv ps (set_fail h root None) [root] {}"
proof -
  let ?h = "set_fail h root None"
  have t': "trie_ok ps ?h" using t by (simp add: same_but_fail_trie [OF same_but_fail_set_fail])
  have "nfail (?h ! root) = None" using trie_root_less [OF t] by (simp add: nfail_set_fail)
  moreover have "child ?h a ch \<noteq> Some root" if "a < length ?h" for a ch
    using that t' trie_root [OF t'] by (simp add: trie_child_iff)
  ultimately show ?thesis
    using t' trie_root_less [OF t'] by (auto simp: bfs_inv_def fail_val_def trie_root)
qed

theorem build_ok:
  assumes "trie_ok ps h"
  shows "\<exists>h'. ac_build h = Some h' \<and> same_but_fail h h' \<and> (\<forall>a < length h. fail_ok ps h' a)"
proof -
  have same: "same_but_fail h (set_fail h root None)" by simp
  from bfs_ok [OF bfs_inv_start [OF assms]] show ?thesis
    using same_but_fail_trans [OF same] by (auto simp: ac_build_def)
qed

end
