(* ===== verification/AC_Filter.thy ===== *)
theory AC_Filter
  imports AC_Build
begin

text \<open>
  \<^verbatim>\<open>ACAutomaton::filter\<close> and the destructor. The two \<^verbatim>\<open>while\<close> loops over failure links may not
  return and may dereference a null link; on a built automaton they do neither. \<open>masked\<close> is the
  abstract specification: every code point covered by an occurrence of a keyword is replaced by a
  star. \<open>filter_built\<close> is the refinement lemma the properties rest on.
\<close>

section \<open>The code\<close>

text \<open>\<^verbatim>\<open>while (node->next.count(ch) == 0 && node != root) node = node->fail;\<close>\<close>

partial_function (option) goto_loop :: "heap \<Rightarrow> addr option \<Rightarrow> char32 \<Rightarrow> addr run" where
  "goto_loop h p ch =
     (case p of
        None \<Rightarrow> Some (Inl NullDeref)
      | Some a \<Rightarrow>
          if child h a ch = None \<and> a \<noteq> root then goto_loop h (nfail (h ! a)) ch
          else Some (Inr a))"

text \<open>The loop over \<^verbatim>\<open>temp\<close> that pushes a match for every keyword ending at position \<open>i\<close>.\<close>

partial_function (option) collect_loop ::
  "heap \<Rightarrow> addr option \<Rightarrow> nat \<Rightarrow> (int \<times> int) list \<Rightarrow> (int \<times> int) list run" where
  "collect_loop h p i matches =
     (case p of
        None \<Rightarrow> Some (Inl NullDeref)
      | Some a \<Rightarrow>
          if a = root then Some (Inr matches)
          else collect_loop h (nfail (h ! a)) i
            (if isEnd (h ! a) then matches @ [(int i - int (nlen (h ! a)) + 1, int i)] else matches))"

fun scan :: "heap \<Rightarrow> addr \<Rightarrow> nat \<Rightarrow> char32 list \<Rightarrow> (int \<times> int) list \<Rightarrow> (int \<times> int) list run" where
  "scan h a i [] matches = Some (Inr matches)"
| "scan h a i (ch # cs) matches =
     (case goto_loop h (Some a) ch of
        None \<Rightarrow> None
      | Some (Inl e) \<Rightarrow> Some (Inl e)
      | Some (Inr b) \<Rightarrow>
          (let node = (case child h b ch of Some c \<Rightarrow> c | None \<Rightarrow> root)
           in case collect_loop h (Some node) i matches of
                None \<Rightarrow> None
              | Some (Inl e) \<Rightarrow> Some (Inl e)
              | Some (Inr ms) \<Rightarrow> scan h node (Suc i) cs ms))"

definition star :: char32 where
  "star = 42"

text \<open>\<^verbatim>\<open>for (int i = match.first; i <= match.second; i++) result[i] = '*';\<close>\<close>

function star_range :: "char32 list \<Rightarrow> int \<Rightarrow> int \<Rightarrow> char32 list outcome" where
  "star_range result i last_i =
     (if i \<le> last_i then
        (if 0 \<le> i \<and> i < int (length result)
         then star_range (result[nat i := star]) (i + 1) last_i
         else Inl OutOfRange)
      else Inr result)"
  by pat_completeness auto
termination
  by (relation "measure (\<lambda>(r, i, l). nat (l + 1 - i))") auto

declare star_range.simps [simp del]

fun star_all :: "char32 list \<Rightarrow> (int \<times> int) list \<Rightarrow> char32 list outcome" where
  "star_all result [] = Inr result"
| "star_all result (m # ms) = and_then (star_range result (fst m) (snd m)) (\<lambda>r. star_all r ms)"

definition ac_filter :: "heap \<Rightarrow> string \<Rightarrow> string run" where
  "ac_filter h sentence =
     (case utf8_to_utf32 sentence of
        None \<Rightarrow> Some (Inl RangeError)
      | Some utf32_str \<Rightarrow>
          (case scan h root 0 utf32_str [] of
             None \<Rightarrow> None
           | Some (Inl e) \<Rightarrow> Some (Inl e)
           | Some (Inr matches) \<Rightarrow>
               (case star_all utf32_str matches of
                  Inl e \<Rightarrow> Some (Inl e)
                | Inr result \<Rightarrow>
                    (case utf32_to_utf8 result of
                       None \<Rightarrow> Some (Inl RangeError)
                     | Some s \<Rightarrow> Some (Inr s)))))"

text \<open>The destructor: the addresses in the order they are deleted. The fuel bounds the depth.\<close>

fun release :: "nat \<Rightarrow> heap \<Rightarrow> addr \<Rightarrow> addr list option" where
  "release 0 h a = None"
| "release (Suc n) h a =
     (case those (map (\<lambda>e. release n h (snd e)) (nnext (h ! a))) of
        None \<Rightarrow> None
      | Some freed \<Rightarrow> Some (concat freed @ [a]))"

lemma goto_loop_code [code]:
  "goto_loop h None ch = Some (Inl NullDeref)"
  "goto_loop h (Some a) ch =
     (if child h a ch = None \<and> a \<noteq> root then goto_loop h (nfail (h ! a)) ch else Some (Inr a))"
  by (simp_all add: goto_loop.simps)

lemma collect_loop_code [code]:
  "collect_loop h None i matches = Some (Inl NullDeref)"
  "collect_loop h (Some a) i matches =
     (if a = root then Some (Inr matches)
      else collect_loop h (nfail (h ! a)) i
        (if isEnd (h ! a) then matches @ [(int i - int (nlen (h ! a)) + 1, int i)] else matches))"
  by (simp_all add: collect_loop.simps)

section \<open>The specification\<close>

definition occurs_at :: "char32 list \<Rightarrow> char32 list \<Rightarrow> nat \<Rightarrow> bool" where
  "occurs_at w cs k \<longleftrightarrow> take (length w) (drop k cs) = w"

definition covered :: "char32 list set \<Rightarrow> char32 list \<Rightarrow> nat \<Rightarrow> bool" where
  "covered ws cs i \<longleftrightarrow> (\<exists>w \<in> ws. \<exists>k \<in> {..i}. i < k + length w \<and> occurs_at w cs k)"

definition masked :: "char32 list set \<Rightarrow> char32 list \<Rightarrow> char32 list" where
  "masked ws cs = map (\<lambda>i. if covered ws cs i then star else cs ! i) [0..<length cs]"

definition automaton_ok :: "char32 list list \<Rightarrow> heap \<Rightarrow> char32 list set \<Rightarrow> bool" where
  "automaton_ok ps h ws \<longleftrightarrow> trie_ok ps h \<and> words_ok ps h ws \<and> (\<forall>a < length h. fail_ok ps h a)"

lemma automaton_okD:
  assumes "automaton_ok ps h ws"
  shows automaton_trie: "trie_ok ps h" and automaton_words: "words_ok ps h ws"
    and automaton_link: "a < length h \<Longrightarrow> fail_ok ps h a"
  using assms by (auto simp: automaton_ok_def)

lemma automaton_fail_cases:
  assumes A: "automaton_ok ps h ws" and a: "a < length h" "a \<noteq> root"
  obtains f where "nfail (h ! a) = Some f" "f < length h" "fail_val ps a (Some f)"
    "length (ps ! f) < length (ps ! a)"
proof -
  note t = automaton_trie [OF A] and l = automaton_link [OF A a(1)]
  show ?thesis
  proof (cases "nfail (h ! a)")
    case None
    with l a fail_val_None_root [OF t a(1)] show ?thesis by simp
  next
    case (Some f)
    with l fail_val_SomeD [OF t l [unfolded Some]] that show ?thesis by simp
  qed
qed

section \<open>The transition\<close>

lemma goto_loop_ok:
  assumes A: "automaton_ok ps h ws" and x: "x < length h"
  shows "\<exists>b < length h. goto_loop h (Some x) ch = Some (Inr b) \<and> chain_result ps x ch (child h b ch)"
  using x
proof (induction "length (ps ! x)" arbitrary: x rule: less_induct)
  case less
  note t = automaton_trie [OF A]
  consider (edge) c where "child h x ch = Some c" | (root) "child h x ch = None" "x = root"
    | (fall) "child h x ch = None" "x \<noteq> root" by fastforce
  then show ?case
  proof cases
    case edge
    then show ?thesis
      using less.prems chain_result_child [OF t less.prems edge]
      by (intro exI [of _ x]) (simp add: goto_loop.simps)
  next
    case root
    then show ?thesis
      using less.prems chain_result_root [OF t]
      by (intro exI [of _ x]) (simp add: goto_loop.simps)
  next
    case fall
    obtain f where f: "nfail (h ! x) = Some f" "f < length h" "fail_val ps x (Some f)"
      "length (ps ! f) < length (ps ! x)"
      using automaton_fail_cases [OF A less.prems fall(2)] .
    from less.hyps [OF f(4,2)] obtain b where b: "b < length h"
      "goto_loop h (Some f) ch = Some (Inr b)" "chain_result ps f ch (child h b ch)" by blast
    have "goto_loop h (Some x) ch = Some (Inr b)"
      using b(2) fall f(1) by (simp add: goto_loop.simps [of h "Some x"])
    then show ?thesis
      using b(1) chain_result_fail [OF t less.prems fall(1) f(3) b(3)] by blast
  qed
qed

text \<open>After the text \<open>t\<close> the scan stands on the node of the longest suffix of \<open>t\<close> in the trie.\<close>

definition state_ok :: "char32 list list \<Rightarrow> char32 list \<Rightarrow> addr \<Rightarrow> bool" where
  "state_ok ps t a \<longleftrightarrow> a < length ps \<and> suffix (ps ! a) t
     \<and> (\<forall>s \<in> set ps. suffix s t \<longrightarrow> suffix s (ps ! a))"

lemma state_ok_start: "trie_ok ps h \<Longrightarrow> state_ok ps [] root"
  by (simp add: state_ok_def trie_root_less trie_length trie_root)

lemma state_ok_step:
  assumes t: "trie_ok ps h" and s: "state_ok ps txt a" and r: "chain_result ps a ch r"
  shows "state_ok ps (txt @ [ch]) (case r of Some c \<Rightarrow> c | None \<Rightarrow> root)"
proof -
  have via: "suffix u (ps ! a)" if "u @ [ch] \<in> set ps" "suffix (u @ [ch]) (txt @ [ch])" for u
    using that s trie_snoc [OF t that(1)] by (simp add: state_ok_def)
  show ?thesis
  proof (cases r)
    case None
    have "u = []" if "u \<in> set ps" "suffix u (txt @ [ch])" for u
    proof (cases u rule: rev_cases)
      case (snoc v x)
      with that via [of v] None r show ?thesis by (auto simp: chain_result_def)
    qed
    then show ?thesis
      using None trie_root_less [OF t] by (auto simp: state_ok_def trie_length [OF t] trie_root [OF t])
  next
    case (Some c)
    then obtain u where c: "c < length ps" "ps ! c = u @ [ch]" "suffix u (ps ! a)"
      and longest: "\<And>v. suffix v (ps ! a) \<Longrightarrow> v @ [ch] \<in> set ps \<Longrightarrow> suffix v u"
      using r by (auto simp: chain_result_def)
    have "suffix u txt"
      using c(3) s by (auto simp: state_ok_def intro: suffix_order.trans)
    moreover have "suffix v (ps ! c)" if "v \<in> set ps" "suffix v (txt @ [ch])" for v
    proof (cases v rule: rev_cases)
      case (snoc v' x)
      with that have "x = ch" by simp
      with snoc that via [of v'] longest [of v'] show ?thesis by (simp add: c(2))
    qed simp
    ultimately show ?thesis using Some c by (simp add: state_ok_def)
  qed
qed

lemma state_ok_suffix_iff:
  "state_ok ps t a \<Longrightarrow> s \<in> set ps \<Longrightarrow> suffix s (ps ! a) \<longleftrightarrow> suffix s t"
  by (auto simp: state_ok_def intro: suffix_order.trans)

section \<open>The matches\<close>

definition ends_at :: "char32 list set \<Rightarrow> char32 list \<Rightarrow> nat \<Rightarrow> (int \<times> int) set" where
  "ends_at ws s i = {(int i - int (length w) + 1, int i) | w. w \<in> ws \<and> w \<noteq> [] \<and> suffix w s}"

lemma ends_at_step:
  assumes A: "automaton_ok ps h ws" and x: "x < length h" "x \<noteq> root"
    and f: "fail_val ps x (Some f)"
  shows "ends_at ws (ps ! x) i =
    (if isEnd (h ! x) then {(int i - int (nlen (h ! x)) + 1, int i)} else {}) \<union> ends_at ws (ps ! f) i"
proof -
  note t = automaton_trie [OF A] and w = automaton_words [OF A]
  have ne: "ps ! x \<noteq> []" using t x by (simp add: trie_root_iff)
  have "suffix v (ps ! x) \<longleftrightarrow> v = ps ! x \<or> suffix v (ps ! f)" if "v \<in> ws" for v
  proof -
    have "v \<in> set ps" using that w by (auto simp: words_ok_def)
    then show ?thesis
      using f by (auto simp: fail_val_def strict_suffix_def intro: suffix_order.trans)
  qed
  moreover have "isEnd (h ! x) \<longleftrightarrow> ps ! x \<in> ws" "isEnd (h ! x) \<Longrightarrow> nlen (h ! x) = length (ps ! x)"
    using w x by (auto simp: words_ok_def)
  ultimately show ?thesis using ne by (auto simp: ends_at_def)
qed

lemma collect_loop_ok:
  assumes A: "automaton_ok ps h ws" and x: "x < length h"
  shows "\<exists>ms. collect_loop h (Some x) i acc = Some (Inr (acc @ ms)) \<and> set ms = ends_at ws (ps ! x) i"
  using x
proof (induction "length (ps ! x)" arbitrary: x acc rule: less_induct)
  case less
  show ?case
  proof (cases "x = root")
    case True
    then show ?thesis
      using trie_root [OF automaton_trie [OF A]] by (simp add: collect_loop.simps ends_at_def)
  next
    case False
    obtain f where f: "nfail (h ! x) = Some f" "f < length h" "fail_val ps x (Some f)"
      "length (ps ! f) < length (ps ! x)"
      using automaton_fail_cases [OF A less.prems False] .
    let ?here = "if isEnd (h ! x) then [(int i - int (nlen (h ! x)) + 1, int i)] else []"
    from less.hyps [OF f(4,2), of "acc @ ?here"] obtain ms where
      ms: "collect_loop h (Some f) i (acc @ ?here) = Some (Inr ((acc @ ?here) @ ms))"
        "set ms = ends_at ws (ps ! f) i" by blast
    have "collect_loop h (Some x) i acc = Some (Inr (acc @ ?here @ ms))"
      using ms(1) False f(1) by (simp add: collect_loop.simps [of h "Some x"] split: if_splits)
    moreover have "set (?here @ ms) = ends_at ws (ps ! x) i"
      using ends_at_step [OF A less.prems False f(3), of i] ms(2) by simp
    ultimately show ?thesis by blast
  qed
qed

lemma scan_ok:
  assumes A: "automaton_ok ps h ws" and "state_ok ps t a" and "i = length t"
  shows "\<exists>ms. scan h a i cs acc = Some (Inr (acc @ ms))
    \<and> set ms = (\<Union>j < length cs. ends_at ws (t @ take (Suc j) cs) (i + j))"
  using assms(2,3)
proof (induction cs arbitrary: t a i acc)
  case Nil
  then show ?case by simp
next
  case (Cons ch cs)
  note tr = automaton_trie [OF A]
  have a: "a < length h" using Cons.prems by (simp add: state_ok_def trie_length [OF tr])
  from goto_loop_ok [OF A a] obtain b where b: "b < length h"
    "goto_loop h (Some a) ch = Some (Inr b)" "chain_result ps a ch (child h b ch)" by blast
  let ?n = "case child h b ch of Some c \<Rightarrow> c | None \<Rightarrow> root"
  have st: "state_ok ps (t @ [ch]) ?n" by (rule state_ok_step [OF tr Cons.prems(1) b(3)])
  then have n: "?n < length h" by (simp add: state_ok_def trie_length [OF tr])
  from collect_loop_ok [OF A n] obtain ms where
    ms: "collect_loop h (Some ?n) i acc = Some (Inr (acc @ ms))" "set ms = ends_at ws (ps ! ?n) i"
    by blast
  from Cons.IH [OF st, of "Suc i" "acc @ ms"] Cons.prems(2) obtain ms' where
    ms': "scan h ?n (Suc i) cs (acc @ ms) = Some (Inr (acc @ ms @ ms'))"
      "set ms' = (\<Union>j < length cs. ends_at ws ((t @ [ch]) @ take (Suc j) cs) (Suc i + j))" by auto
  have "ends_at ws (ps ! ?n) i = ends_at ws (t @ [ch]) i"
  proof -
    have "suffix w (ps ! ?n) \<longleftrightarrow> suffix w (t @ [ch])" if "w \<in> ws" for w
      using state_ok_suffix_iff [OF st] automaton_words [OF A] that by (auto simp: words_ok_def)
    then show ?thesis by (auto simp: ends_at_def)
  qed
  then have "set (ms @ ms') = (\<Union>j < length (ch # cs). ends_at ws (t @ take (Suc j) (ch # cs)) (i + j))"
    using ms(2) ms'(2) by (simp add: lessThan_Suc_eq_insert_0 image_image)
  moreover have "scan h a i (ch # cs) acc = Some (Inr (acc @ ms @ ms'))"
    using b(2) ms(1) ms'(1) by simp
  ultimately show ?case by blast
qed

section \<open>The stars\<close>

lemma star_range_ok:
  assumes "0 \<le> i" "l < int (length r)"
  shows "\<exists>r'. star_range r i l = Inr r' \<and> length r' = length r
    \<and> (\<forall>k < length r. r' ! k = (if i \<le> int k \<and> int k \<le> l then star else r ! k))"
  using assms
proof (induction r i l rule: star_range.induct)
  case (1 r i l)
  show ?case
  proof (cases "i \<le> l")
    case False
    then show ?thesis by (auto simp: star_range.simps [of r i l])
  next
    case True
    with "1.prems" have i: "0 \<le> i \<and> i < int (length r)" by simp
    with "1.IH" [OF True i] "1.prems" obtain r' where
      r': "star_range (r[nat i := star]) (i + 1) l = Inr r'" "length r' = length r"
      and at: "\<And>k. k < length r \<Longrightarrow>
        r' ! k = (if i + 1 \<le> int k \<and> int k \<le> l then star else r[nat i := star] ! k)"
      by auto
    have "star_range r i l = Inr r'" using True i r'(1) by (simp add: star_range.simps [of r i l])
    moreover have "r' ! k = (if i \<le> int k \<and> int k \<le> l then star else r ! k)"
      if "k < length r" for k
      using at [OF that] True i that by (auto simp: nth_list_update)
    ultimately show ?thesis using r'(2) by blast
  qed
qed

lemma star_all_ok:
  assumes "\<And>m. m \<in> set ms \<Longrightarrow> 0 \<le> fst m \<and> snd m < int (length r)"
  shows "\<exists>r'. star_all r ms = Inr r' \<and> length r' = length r
    \<and> (\<forall>k < length r. r' ! k =
        (if \<exists>m \<in> set ms. fst m \<le> int k \<and> int k \<le> snd m then star else r ! k))"
  using assms
proof (induction ms arbitrary: r)
  case Nil
  then show ?case by simp
next
  case (Cons m ms)
  from star_range_ok [of "fst m" "snd m" r] Cons.prems obtain r1 where
    r1: "star_range r (fst m) (snd m) = Inr r1" "length r1 = length r"
    and at1: "\<And>k. k < length r \<Longrightarrow>
      r1 ! k = (if fst m \<le> int k \<and> int k \<le> snd m then star else r ! k)" by auto
  from Cons.IH [of r1] Cons.prems r1(2) obtain r2 where
    r2: "star_all r1 ms = Inr r2" "length r2 = length r1"
    and at2: "\<And>k. k < length r1 \<Longrightarrow> r2 ! k =
      (if \<exists>m \<in> set ms. fst m \<le> int k \<and> int k \<le> snd m then star else r1 ! k)" by auto
  show ?case
    using r1 r2 at1 at2 by (intro exI [of _ r2]) auto
qed

lemma suffix_iff_drop:
  "suffix w t \<longleftrightarrow> length w \<le> length t \<and> drop (length t - length w) t = w"
proof
  assume "suffix w t"
  then show "length w \<le> length t \<and> drop (length t - length w) t = w"
    by (auto simp: suffix_def)
next
  assume "length w \<le> length t \<and> drop (length t - length w) t = w"
  then have "t = take (length t - length w) t @ w" by (metis append_take_drop_id)
  then show "suffix w t" by (auto simp: suffix_def)
qed

lemma suffix_take_iff:
  assumes "j < length cs" "w \<noteq> []"
  shows "suffix w (take (Suc j) cs) \<longleftrightarrow>
    length w \<le> Suc j \<and> occurs_at w cs (Suc j - length w)"
proof -
  have "suffix w (take (Suc j) cs) \<longleftrightarrow>
      length w \<le> Suc j \<and> drop (Suc j - length w) (take (Suc j) cs) = w"
    using assms(1) by (simp add: suffix_iff_drop)
  moreover have "drop (Suc j - length w) (take (Suc j) cs) = take (length w) (drop (Suc j - length w) cs)"
    if "length w \<le> Suc j" using that by (simp add: drop_take)
  ultimately show ?thesis by (auto simp: occurs_at_def)
qed

lemma occurs_at_bound:
  assumes "occurs_at w cs k" "w \<noteq> []"
  shows "k + length w \<le> length cs"
proof -
  have "length (take (length w) (drop k cs)) = length w" using assms(1) by (simp add: occurs_at_def)
  moreover have "0 < length w" using assms(2) by simp
  ultimately show ?thesis by (simp only: length_take length_drop)
qed

lemma covered_iff_match:
  assumes "i < length cs"
  shows "covered ws cs i \<longleftrightarrow>
    (\<exists>m \<in> (\<Union>j < length cs. ends_at ws (take (Suc j) cs) j). fst m \<le> int i \<and> int i \<le> snd m)"
    (is "_ \<longleftrightarrow> ?R")
proof
  assume "covered ws cs i"
  then obtain w k where w: "w \<in> ws" "k \<le> i" "i < k + length w" "occurs_at w cs k"
    by (auto simp: covered_def)
  then have ne: "w \<noteq> []" by auto
  let ?j = "k + length w - 1"
  have b: "k + length w \<le> length cs" by (rule occurs_at_bound [OF w(4) ne])
  have "?j < length cs" "Suc ?j - length w = k" "length w \<le> Suc ?j"
    using b w(2,3) ne by auto
  then have "suffix w (take (Suc ?j) cs)"
    using suffix_take_iff [of ?j cs w] ne w(4) by simp
  then have "(int ?j - int (length w) + 1, int ?j) \<in> ends_at ws (take (Suc ?j) cs) ?j"
    using w(1) ne by (auto simp: ends_at_def)
  moreover have "int ?j - int (length w) + 1 \<le> int i \<and> int i \<le> int ?j"
    using w(2,3) by linarith
  ultimately show ?R
    using \<open>?j < length cs\<close>
    by (intro bexI [of _ "(int ?j - int (length w) + 1, int ?j)"] UN_I [of ?j])
      (simp_all only: fst_conv snd_conv lessThan_iff)
next
  assume ?R
  then obtain j w where j: "j < length cs" and w: "w \<in> ws" "w \<noteq> []" "suffix w (take (Suc j) cs)"
    and i: "int j - int (length w) + 1 \<le> int i" "int i \<le> int j"
    by (auto simp: ends_at_def)
  then have "length w \<le> Suc j" "occurs_at w cs (Suc j - length w)"
    using suffix_take_iff [OF j w(2)] by simp_all
  moreover have "Suc j - length w \<le> i" "i < Suc j - length w + length w"
    using i \<open>length w \<le> Suc j\<close> by linarith+
  ultimately show "covered ws cs i"
    unfolding covered_def using w(1) by (intro bexI [of _ w] bexI [of _ "Suc j - length w"]) auto
qed

lemma match_in_range:
  assumes "j < length cs" "m \<in> ends_at ws (take (Suc j) cs) j"
  shows "0 \<le> fst m \<and> snd m < int (length cs)"
proof -
  obtain w where "m = (int j - int (length w) + 1, int j)" "w \<noteq> []" "suffix w (take (Suc j) cs)"
    using assms(2) by (auto simp: ends_at_def)
  then show ?thesis using assms(1) suffix_take_iff [OF assms(1)] by simp
qed

lemma length_masked [simp]: "length (masked ws cs) = length cs"
  by (simp add: masked_def)

lemma nth_masked: "i < length cs \<Longrightarrow> masked ws cs ! i = (if covered ws cs i then star else cs ! i)"
  by (simp add: masked_def)

lemma scan_star_masked:
  assumes A: "automaton_ok ps h ws"
  shows "\<exists>ms. scan h root 0 cs [] = Some (Inr ms) \<and> star_all cs ms = Inr (masked ws cs)"
proof -
  from scan_ok [OF A state_ok_start [OF automaton_trie [OF A]], of 0 cs "[]"] obtain ms where
    ms: "scan h root 0 cs [] = Some (Inr ms)"
      "set ms = (\<Union>j < length cs. ends_at ws (take (Suc j) cs) j)" by auto
  have "0 \<le> fst m \<and> snd m < int (length cs)" if "m \<in> set ms" for m
    using that ms(2) match_in_range by (metis (no_types, lifting) UN_E lessThan_iff)
  from star_all_ok [OF this] obtain r where r: "star_all cs ms = Inr r" "length r = length cs"
    "\<forall>k < length cs. r ! k = (if \<exists>m \<in> set ms. fst m \<le> int k \<and> int k \<le> snd m then star else cs ! k)"
    by blast
  have "r = masked ws cs"
    using r(2,3) by (intro nth_equalityI) (simp_all add: nth_masked covered_iff_match ms(2))
  with ms(1) r(1) show ?thesis by blast
qed

lemma scalar_masked: "\<forall>c \<in> set cs. scalar_value c \<Longrightarrow> \<forall>c \<in> set (masked ws cs). scalar_value c"
  by (auto simp: masked_def star_def scalar_value_def)

lemma filter_automaton:
  assumes A: "automaton_ok ps h ws" and s: "utf8_to_utf32 s = Some cs"
  shows "\<exists>r. ac_filter h s = Some (Inr r) \<and> utf8_to_utf32 r = Some (masked ws cs)"
proof -
  obtain r where "utf32_to_utf8 (masked ws cs) = Some r" "utf8_to_utf32 r = Some (masked ws cs)"
    using utf32_roundtrip [OF scalar_masked [OF utf8_scalar [OF s]]] by blast
  moreover obtain ms where "scan h root 0 cs [] = Some (Inr ms)" "star_all cs ms = Inr (masked ws cs)"
    using scan_star_masked [OF A] by blast
  ultimately show ?thesis by (simp add: ac_filter_def s)
qed

end
