(* ===== verification/AC_Automaton.thy ===== *)
theory AC_Automaton
  imports AC_Filter
begin

text \<open>
  The keyword filter as its user sees it: a keyword list is inserted, the links are built once, and
  sentences are filtered. The properties of the component, each over \<open>make_filter\<close> and \<open>ac_filter\<close>.
\<close>

section \<open>Construction\<close>

definition make_filter :: "string list \<Rightarrow> heap run" where
  "make_filter words =
     (case insert_all ac_new words of
        Inl e \<Rightarrow> Some (Inl e)
      | Inr h \<Rightarrow> (case ac_build h of None \<Rightarrow> None | Some h' \<Rightarrow> Some (Inr h')))"

lemma make_filter_automaton:
  assumes "make_filter words = Some (Inr h)"
  shows "\<exists>ps. automaton_ok ps h (kwords words)
    \<and> set ps = insert [] {p. \<exists>w \<in> kwords words. prefix p w}"
proof -
  from assms obtain h0 where h0: "insert_all ac_new words = Inr h0" "ac_build h0 = Some h"
    by (auto simp: make_filter_def split: sum.splits option.splits)
  from insert_all_ok [OF conjunct1 [OF ac_new_ok] conjunct2 [OF ac_new_ok] h0(1)]
  obtain ps where ps: "trie_ok ps h0" "words_ok ps h0 (kwords words)"
    "set ps = insert [] {p. \<exists>w \<in> kwords words. prefix p w}"
    by auto
  from build_ok [OF ps(1)] h0(2) have same: "same_but_fail h0 h"
    and links: "\<forall>a < length h0. fail_ok ps h a" by auto
  then have "automaton_ok ps h (kwords words)"
    using ps(1,2) same_but_fail_trie [OF same] same_but_fail_words [OF same]
    by (simp add: automaton_ok_def same_but_fail_length [OF same])
  with ps(3) show ?thesis by blast
qed

lemma make_filter_returns:
  assumes "\<forall>w \<in> set words. utf8_to_utf32 w \<noteq> None"
  shows "\<exists>h. make_filter words = Some (Inr h)"
proof -
  obtain h0 where h0: "insert_all ac_new words = Inr h0" using insert_all_total [OF assms] by blast
  from insert_all_ok [OF conjunct1 [OF ac_new_ok] conjunct2 [OF ac_new_ok] h0]
  obtain ps where "trie_ok ps h0" by auto
  from build_ok [OF this] obtain h where "ac_build h0 = Some h" by auto
  with h0 show ?thesis by (simp add: make_filter_def)
qed

lemma insert_all_fails:
  assumes "w \<in> set words" "utf8_to_utf32 w = None"
  shows "insert_all h words = Inl RangeError"
  using assms
proof (induction words arbitrary: h)
  case (Cons v words)
  have "utf8_to_utf32 [] \<noteq> None" using utf8_empty_iff [of "[]"] by simp
  with Cons show ?case by (auto simp: ac_insert_def split: option.splits)
qed simp

lemma kwords_nonempty: "w \<in> kwords words \<Longrightarrow> w \<noteq> []"
  using utf8_empty_iff by (auto simp: kwords_def)

section \<open>Occurrences in the masked text\<close>

lemma occurs_at_nth:
  assumes "w \<noteq> []"
  shows "occurs_at w cs k \<longleftrightarrow> k + length w \<le> length cs \<and> (\<forall>i < length w. cs ! (k + i) = w ! i)"
proof
  assume o: "occurs_at w cs k"
  have b: "k + length w \<le> length cs" by (rule occurs_at_bound [OF o assms])
  have "cs ! (k + i) = w ! i" if "i < length w" for i
  proof -
    have "take (length w) (drop k cs) ! i = w ! i" using o by (simp add: occurs_at_def)
    then show ?thesis using that b by simp
  qed
  with b show "k + length w \<le> length cs \<and> (\<forall>i < length w. cs ! (k + i) = w ! i)" by blast
next
  assume "k + length w \<le> length cs \<and> (\<forall>i < length w. cs ! (k + i) = w ! i)"
  then show "occurs_at w cs k" unfolding occurs_at_def by (intro nth_equalityI) auto
qed

lemma sublist_occurs:
  assumes "sublist w cs" shows "\<exists>k. occurs_at w cs k"
proof -
  obtain ps ss where "cs = ps @ w @ ss" using assms by (auto simp: sublist_def)
  then have "occurs_at w cs (length ps)" by (simp add: occurs_at_def)
  then show ?thesis by blast
qed

lemma occurs_sublist: "occurs_at w cs k \<Longrightarrow> sublist w cs"
  by (metis occurs_at_def sublist_drop sublist_order.order_trans sublist_take)

lemma masked_no_occurrence:
  assumes w: "w \<in> ws" "w \<noteq> []" "star \<notin> set w"
  shows "\<not> occurs_at w (masked ws cs) k"
proof
  assume "occurs_at w (masked ws cs) k"
  then have b: "k + length w \<le> length cs" and at: "\<And>i. i < length w \<Longrightarrow> masked ws cs ! (k + i) = w ! i"
    using occurs_at_nth [OF w(2)] by auto
  have plain: "\<not> covered ws cs (k + i)" if "i < length w" for i
  proof
    assume "covered ws cs (k + i)"
    then have "star = w ! i" using at [OF that] that b nth_masked [of "k + i" cs ws] by simp
    with w(3) nth_mem [OF that] show False by simp
  qed
  then have "cs ! (k + i) = w ! i" if "i < length w" for i
    using at [OF that] that b nth_masked [of "k + i" cs ws] by simp
  then have "occurs_at w cs k" using occurs_at_nth [OF w(2)] b by blast
  then have "covered ws cs (k + 0)"
    unfolding covered_def using w by (intro bexI [of _ w] bexI [of _ k]) auto
  with plain [of 0] w(2) show False by simp
qed

lemma masked_clean:
  assumes "\<And>w. w \<in> ws \<Longrightarrow> \<not> sublist w cs" shows "masked ws cs = cs"
  using assms by (intro nth_equalityI) (auto simp: nth_masked covered_def dest: occurs_sublist)

section \<open>An automaton that was never built\<close>

definition unlinked :: "heap \<Rightarrow> bool" where
  "unlinked h \<longleftrightarrow> (\<forall>n \<in> set h. nfail n = None)"

lemma unlinked_nth: "unlinked h \<Longrightarrow> a < length h \<Longrightarrow> nfail (h ! a) = None"
  by (simp add: unlinked_def)

lemma unlinked_update:
  assumes "unlinked h" "nfail n = None" shows "unlinked (h[a := n])"
  using assms set_update_subset_insert [of h a n] by (auto simp: unlinked_def)

lemma unlinked_insert_loop:
  assumes "trie_ok ps h" "a < length h" "unlinked h" "insert_loop h a w = (h', a')"
  shows "unlinked h'"
  using assms
proof (induction w arbitrary: h a ps)
  case (Cons ch w)
  show ?case
  proof (cases "child h a ch")
    case None
    have "unlinked (add_child h a ch)"
      using unlinked_update [OF Cons.prems(3), of "(h ! a)\<lparr>nnext := AList.update ch (length h) (nnext (h ! a))\<rparr>" a]
        unlinked_nth [OF Cons.prems(3,2)]
      by (auto simp: add_child_def unlinked_def)
    with None Cons.IH [OF add_child_ok [OF Cons.prems(1,2) None], of "length h"] Cons.prems(4)
    show ?thesis by simp
  next
    case (Some b)
    then have "b < length h" using Cons.prems(1,2) by (simp add: trie_child_iff)
    with Some Cons.IH [OF Cons.prems(1) _ Cons.prems(3)] Cons.prems(4) show ?thesis by simp
  qed
qed simp

lemma unlinked_insert_word:
  assumes t: "trie_ok ps h" and w: "words_ok ps h ws" and u: "unlinked h"
  shows "unlinked (insert_word h w32)"
proof -
  obtain h' a where run: "insert_loop h root w32 = (h', a)" by fastforce
  have "unlinked h'" by (rule unlinked_insert_loop [OF t trie_root_less [OF t] u run])
  moreover have "a < length h'" using insert_loop_ok [OF t w trie_root_less [OF t] run] by auto
  ultimately show ?thesis
    by (simp add: insert_word_def run unlinked_update unlinked_nth)
qed

lemma unlinked_insert_all:
  assumes "trie_ok ps h" "words_ok ps h K" "unlinked h" "insert_all h ws = Inr h'"
  shows "unlinked h'"
  using assms
proof (induction ws arbitrary: h ps K)
  case (Cons w ws)
  show ?case
  proof (cases "w = []")
    case True
    with Cons show ?thesis by (simp add: ac_insert_def)
  next
    case False
    with Cons.prems(4) obtain w32 where run: "insert_all (insert_word h w32) ws = Inr h'"
      by (auto simp: ac_insert_def and_then_Inr_iff split: option.splits)
    from insert_word_ok [OF Cons.prems(1,2)] obtain qs where
      "trie_ok qs (insert_word h w32)" "words_ok qs (insert_word h w32) (insert w32 K)" by blast
    from Cons.IH [OF this unlinked_insert_word [OF Cons.prems(1-3)] run] show ?thesis .
  qed
qed simp

lemma scan_unlinked:
  assumes t: "trie_ok ps h" and u: "unlinked h" and "\<exists>ch \<in> set cs. child h root ch \<noteq> None"
  shows "scan h root i cs acc = Some (Inl NullDeref)"
  using assms(3)
proof (induction cs arbitrary: i)
  case (Cons ch cs)
  have stay: "goto_loop h (Some root) ch = Some (Inr root)" by (simp add: goto_loop.simps)
  show ?case
  proof (cases "child h root ch")
    case None
    then have "scan h root (Suc i) cs acc = Some (Inl NullDeref)" using Cons by auto
    with None stay show ?thesis by (simp add: collect_loop.simps)
  next
    case (Some c)
    then have c: "c < length h" "ps ! c = [ch]"
      using trie_child_iff [OF t trie_root_less [OF t]] trie_root [OF t] by auto
    then have "c \<noteq> root" using trie_root [OF t] by auto
    then have "collect_loop h (Some c) i acc = Some (Inl NullDeref)"
      using unlinked_nth [OF u c(1)] by (simp add: collect_loop.simps [of h "Some c"] collect_loop.simps [of h None])
    with Some stay show ?thesis by simp
  qed
qed simp

section \<open>The destructor\<close>

lemma trie_prefix_closed:
  assumes t: "trie_ok ps h" and "s \<in> set ps" "prefix p s"
  shows "p \<in> set ps"
  using assms(2,3)
proof (induction s rule: rev_induct)
  case (snoc x s)
  then show ?case using trie_snoc [OF t] by (cases "p = s @ [x]") auto
qed simp

lemma depth_less:
  assumes t: "trie_ok ps h" and s: "s \<in> set ps"
  shows "length s < length h"
proof -
  have "set (prefixes s) \<subseteq> set ps" using trie_prefix_closed [OF t s] by auto
  then have "card (set (prefixes s)) \<le> card (set ps)" by (intro card_mono) simp_all
  then show ?thesis
    using trie_distinct [OF t] trie_length [OF t] distinct_prefixes [of s]
    by (simp add: distinct_card)
qed

lemma those_map_Some:
  assumes "\<And>x. x \<in> set xs \<Longrightarrow> f x = Some (g x)" shows "those (map f xs) = Some (map g xs)"
  using assms by (induction xs) auto

lemma release_ok:
  assumes t: "trie_ok ps h" and "a < length h" "length h \<le> n + length (ps ! a)"
  shows "\<exists>fs. release n h a = Some fs \<and> distinct fs
    \<and> set fs = {b. b < length h \<and> prefix (ps ! a) (ps ! b)}"
  using assms(2,3)
proof (induction n arbitrary: a)
  case 0
  then show ?case using depth_less [OF t, of "ps ! a"] trie_length [OF t] by simp
next
  case (Suc n)
  let ?es = "nnext (h ! a)"
  define sub where "sub e = {b. b < length h \<and> prefix (ps ! snd e) (ps ! b)}" for e :: "char32 \<times> addr"
  have edge: "snd e < length h" "ps ! snd e = ps ! a @ [fst e]" if "e \<in> set ?es" for e
    using edge_child(2,3) [OF t Suc.prems(1), of "fst e" "snd e"] that by simp_all
  have "\<exists>fs. release n h (snd e) = Some fs \<and> distinct fs \<and> set fs = sub e" if "e \<in> set ?es" for e
    unfolding sub_def using edge [OF that] Suc.prems(2) by (intro Suc.IH) simp_all
  then obtain g where g: "\<And>e. e \<in> set ?es \<Longrightarrow>
      release n h (snd e) = Some (g e) \<and> distinct (g e) \<and> set (g e) = sub e" by metis
  then have run: "release (Suc n) h a = Some (concat (map g ?es) @ [a])"
    using those_map_Some [of ?es "\<lambda>e. release n h (snd e)" g] by simp
  have "sub e \<inter> sub e' = {}" if "e \<in> set ?es" "e' \<in> set ?es" "e \<noteq> e'" for e e'
  proof -
    have "fst e \<noteq> fst e'"
      using that edge trie_inj [OF t, of "snd e" "snd e'"] by (metis prod_eqI)
    then show ?thesis
      using edge that by (auto simp: sub_def prefix_def)
  qed
  moreover have "distinct ?es" using children_distinct [OF t Suc.prems(1)] by (simp add: distinct_map)
  ultimately have dist: "distinct (concat (map g ?es))"
    using g by (intro distinct_concat_map) simp_all
  have down: "b = a \<or> (\<exists>e \<in> set ?es. b \<in> sub e)" if "b < length h" "prefix (ps ! a) (ps ! b)" for b
  proof -
    from that(2) obtain r where r: "ps ! b = ps ! a @ r" by (auto simp: prefix_def)
    show ?thesis
    proof (cases r)
      case Nil
      then show ?thesis using r that(1) Suc.prems(1) trie_inj [OF t] by simp
    next
      case (Cons ch r')
      have "ps ! b \<in> set ps" using that(1) by (simp add: trie_length [OF t])
      then have "ps ! a @ [ch] \<in> set ps"
        by (rule trie_prefix_closed [OF t]) (simp add: r Cons)
      then obtain c where c: "child h a ch = Some c"
        using trie_child_None_iff [OF t Suc.prems(1)] by fastforce
      then have e: "(ch, c) \<in> set ?es" by (rule map_of_SomeD)
      then have "b \<in> sub (ch, c)"
        using edge [OF e] that(1) by (simp add: sub_def r Cons)
      with e show ?thesis by blast
    qed
  qed
  have up: "prefix (ps ! a) (ps ! b)" "b \<noteq> a" if "e \<in> set ?es" "b \<in> sub e" for e b
    using that edge [OF that(1)] by (auto simp: sub_def dest: prefix_length_le append_prefixD)
  have less: "b < length h" if "b \<in> sub e" for b e using that by (simp add: sub_def)
  have "set (concat (map g ?es)) = (\<Union>e \<in> set ?es. sub e)" using g by simp
  also have "\<dots> = {b. b < length h \<and> prefix (ps ! a) (ps ! b)} - {a}"
  proof (intro set_eqI iffI)
    fix b
    assume "b \<in> (\<Union>e \<in> set ?es. sub e)"
    then obtain e where e: "e \<in> set ?es" "b \<in> sub e" by blast
    then show "b \<in> {b. b < length h \<and> prefix (ps ! a) (ps ! b)} - {a}"
      using up [OF e] less [OF e(2)] by simp
  next
    fix b
    assume "b \<in> {b. b < length h \<and> prefix (ps ! a) (ps ! b)} - {a}"
    with down [of b] show "b \<in> (\<Union>e \<in> set ?es. sub e)" by simp
  qed
  finally have "set (concat (map g ?es) @ [a]) = {b. b < length h \<and> prefix (ps ! a) (ps ! b)}"
    and "a \<notin> set (concat (map g ?es))"
    using Suc.prems(1) by auto
  with run dist show ?case by simp
qed

section \<open>The test program's fourth case\<close>

text \<open>Keywords abc, abcd, bc, bcd and c on the sentence abcde give \<^verbatim>\<open>****e\<close>.\<close>

lemma test4_matches:
  "map_option (\<lambda>x. case x of Inl e \<Rightarrow> None | Inr h \<Rightarrow> scan h root 0 [97, 98, 99, 100, 101] [])
     (make_filter [''abc'', ''abcd'', ''bc'', ''bcd'', ''c''])
   = Some (Some (Inr [(0, 2), (1, 2), (2, 2), (0, 3), (1, 3)]))"
  by code_simp

lemma test4_stars:
  "star_all [97, 98, 99, 100, 101] [(0, 2), (1, 2), (2, 2), (0, 3), (1, 3)]
   = Inr [star, star, star, star, 101]"
  by code_simp

section \<open>Properties\<close>



text \<open>
  C6: building a filter terminates for every keyword list, and succeeds exactly when every keyword
  is valid UTF-8; otherwise the conversion's exception leaves the constructor.
\<close>

theorem make_filter_total:
  "make_filter words \<noteq> None
   \<and> ((\<exists>h. make_filter words = Some (Inr h)) \<longleftrightarrow> None \<notin> utf8_to_utf32 ` set words)
   \<and> (make_filter words = Some (Inl RangeError) \<longleftrightarrow> None \<in> utf8_to_utf32 ` set words)"
proof (cases "None \<in> utf8_to_utf32 ` set words")
  case True
  then obtain w where "w \<in> set words" "utf8_to_utf32 w = None" by auto
  then have "make_filter words = Some (Inl RangeError)"
    using insert_all_fails by (simp add: make_filter_def)
  with True show ?thesis by simp
next
  case False
  then have "\<forall>w \<in> set words. utf8_to_utf32 w \<noteq> None" by (metis image_eqI)
  from make_filter_returns [OF this] obtain h where "make_filter words = Some (Inr h)" by blast
  with False show ?thesis by simp
qed

text \<open>
  C7: after \<^verbatim>\<open>build\<close> the nodes stand for exactly the prefixes of the keywords, one node each, and
  the failure link of every node but the root points to the node of its longest proper suffix.
\<close>

theorem build_links:
  assumes "make_filter words = Some (Inr h)"
  shows "\<exists>ps. distinct ps \<and> length ps = length h
    \<and> set ps = insert [] {p. \<exists>w \<in> kwords words. prefix p w} \<and> ps ! root = []
    \<and> (\<forall>a < length h. nfail (h ! a) = None \<longleftrightarrow> a = root)
    \<and> (\<forall>a < length h. \<forall>f. nfail (h ! a) = Some f \<longrightarrow>
        f < length h \<and> strict_suffix (ps ! f) (ps ! a)
        \<and> (\<forall>s \<in> set ps. strict_suffix s (ps ! a) \<longrightarrow> length s \<le> length (ps ! f)))"
proof -
  from make_filter_automaton [OF assms] obtain ps where A: "automaton_ok ps h (kwords words)"
    and ps: "set ps = insert [] {p. \<exists>w \<in> kwords words. prefix p w}" by auto
  note t = automaton_trie [OF A]
  have root: "nfail (h ! a) = None \<longleftrightarrow> a = root" if "a < length h" for a
    using automaton_link [OF A that] fail_val_None_root [OF t that] trie_root [OF t]
    by (cases "nfail (h ! a)") (auto simp: fail_val_def strict_suffix_def)
  have link: "f < length h \<and> strict_suffix (ps ! f) (ps ! a)
      \<and> (\<forall>s \<in> set ps. strict_suffix s (ps ! a) \<longrightarrow> length s \<le> length (ps ! f))"
    if "a < length h" "nfail (h ! a) = Some f" for a f
    using automaton_link [OF A that(1)] that(2) suffix_length_le
    by (auto simp: fail_val_def trie_length [OF t])
  show ?thesis
    using ps root link trie_distinct [OF t] trie_length [OF t] trie_root [OF t] by (intro exI [of _ ps]) simp
qed

theorem build_links_witness:
  "\<exists>h ps. make_filter [''ab'', ''b''] = Some (Inr h)
     \<and> set ps = insert [] {p. \<exists>w \<in> kwords [''ab'', ''b'']. prefix p w}
     \<and> (\<forall>a < length h. nfail (h ! a) = None \<longleftrightarrow> a = root)"
proof -
  have "\<forall>w \<in> set [''ab'', ''b'']. utf8_to_utf32 w \<noteq> None" by code_simp
  then obtain h where h: "make_filter [''ab'', ''b''] = Some (Inr h)"
    using make_filter_returns by blast
  from build_links [OF h] show ?thesis using h by auto
qed



text \<open>
  A sentence in which no keyword occurs is returned byte for byte.
\<close>

lemma filter_clean:
  assumes "make_filter words = Some (Inr h)" and "utf8_to_utf32 s = Some cs"
    and "\<forall>w \<in> kwords words. \<not> sublist w cs"
  shows "ac_filter h s = Some (Inr s)"
proof -
  from make_filter_automaton [OF assms(1)] obtain ps where A: "automaton_ok ps h (kwords words)" by auto
  have "masked (kwords words) cs = cs" using assms(3) by (intro masked_clean) blast
  with filter_automaton [OF A assms(2)] obtain r where r: "ac_filter h s = Some (Inr r)"
    "utf8_to_utf32 r = Some cs" by auto
  then show ?thesis using utf8_roundtrip [OF r(2)] utf8_roundtrip [OF assms(2)] by simp
qed

text \<open>Filtering before \<^verbatim>\<open>build\<close> is an error the class does not guard against.\<close>

lemma filter_before_build_faults:
  assumes "insert_all ac_new words = Inr h" and "utf8_to_utf32 s = Some cs"
    and "w \<in> kwords words" and "hd w \<in> set cs"
  shows "ac_filter h s = Some (Inl NullDeref)"
proof -
  from insert_all_ok [OF conjunct1 [OF ac_new_ok] conjunct2 [OF ac_new_ok] assms(1)]
  obtain ps where t: "trie_ok ps h" and ps: "set ps = {[]} \<union> {p. \<exists>w \<in> kwords words. prefix p w}" by auto
  have u: "unlinked h"
    by (rule unlinked_insert_all [OF conjunct1 [OF ac_new_ok] conjunct2 [OF ac_new_ok] _ assms(1)])
      (simp add: unlinked_def ac_new_def)
  have "prefix [hd w] w" using kwords_nonempty [OF assms(3)] by (cases w) auto
  then have "[hd w] \<in> set ps" using assms(3) ps by auto
  then have "child h root (hd w) \<noteq> None"
    using trie_child_None_iff [OF t trie_root_less [OF t]] trie_root [OF t] by simp
  with scan_unlinked [OF t u] assms(4) have "scan h root 0 cs [] = Some (Inl NullDeref)" by blast
  with assms(2) show ?thesis by (simp add: ac_filter_def)
qed

text \<open>
  C9: the destructor of a filter deletes every node exactly once. The recursion is as deep as the
  longest keyword, so the number of nodes bounds it.
\<close>

theorem release_once:
  assumes "make_filter words = Some (Inr h)"
  shows "\<exists>freed. release (length h) h root = Some freed \<and> distinct freed \<and> set freed = {..<length h}"
proof -
  from make_filter_automaton [OF assms] obtain ps where "automaton_ok ps h (kwords words)" by auto
  note t = automaton_trie [OF this]
  from release_ok [OF t trie_root_less [OF t], of "length h"] show ?thesis
    by (auto simp: trie_root [OF t])
qed

theorem release_once_witness:
  "\<exists>h freed. make_filter [''abc'', ''abd''] = Some (Inr h)
     \<and> release (length h) h root = Some freed \<and> set freed = {..<length h}"
proof -
  have "\<forall>w \<in> set [''abc'', ''abd'']. utf8_to_utf32 w \<noteq> None" by code_simp
  then obtain h where h: "make_filter [''abc'', ''abd''] = Some (Inr h)"
    using make_filter_returns by blast
  from release_once [OF h] h show ?thesis by blast
qed

end
