(* ===== verification/Codec.thy ===== *)
theory Codec
  imports Chat_Prelude "HOL-Library.Word"
begin

unbundle bit_operations_syntax

text \<open>
  The length-prefixed frame codec of \<^verbatim>\<open>codec.h\<close> and \<^verbatim>\<open>codec.cc\<close>. A muduo \<^verbatim>\<open>Buffer\<close> is its readable
  bytes. Protocol Buffers and zlib are not part of the repository: they are the argument \<open>env\<close>, a
  record of the calls the codec makes, and the locale \<open>protobuf_env\<close> names what the codec relies on.
  The debug build is modelled: \<^verbatim>\<open>assert\<close> and \<^verbatim>\<open>GOOGLE_DCHECK\<close> are active.
\<close>

type_synonym byte = "8 word"
type_synonym int32 = "32 word"

section \<open>The library calls\<close>

record ('m, 'd) codec_env =
  pb_type_name :: "'m \<Rightarrow> byte list"
  pb_initialized :: "'m \<Rightarrow> bool"
  pb_byte_size :: "'m \<Rightarrow> int32"
  pb_serialize :: "'m \<Rightarrow> byte list"
  pb_find :: "byte list \<Rightarrow> 'd option"
  pb_prototype :: "'d \<Rightarrow> 'm option"
  pb_new :: "'m \<Rightarrow> 'm"
  pb_parse_from :: "'m \<Rightarrow> byte list \<Rightarrow> bool \<times> 'm"
  z_adler32 :: "int32 \<Rightarrow> byte list \<Rightarrow> int32"

section \<open>Error codes\<close>

datatype ErrorCode =
  kNoError | kInvalidLength | kCheckSumError | kInvalidNameLen | kUnknownMessageType | kParseError

fun errorCodeToString :: "ErrorCode \<Rightarrow> string" where
  "errorCodeToString kNoError = ''NoError''"
| "errorCodeToString kInvalidLength = ''InvalidLength''"
| "errorCodeToString kCheckSumError = ''CheckSumError''"
| "errorCodeToString kInvalidNameLen = ''InvalidNameLen''"
| "errorCodeToString kUnknownMessageType = ''UnknownMessageType''"
| "errorCodeToString kParseError = ''ParseError''"

lemma errorCodeToString_inj: "errorCodeToString a = errorCodeToString b \<longleftrightarrow> a = b"
  by (cases a; cases b) simp_all

section \<open>Big-endian integers\<close>

text \<open>\<^verbatim>\<open>Buffer::appendInt32\<close>, and the bytes of an \<^verbatim>\<open>int32_t\<close> after \<^verbatim>\<open>hostToNetwork32\<close>.\<close>

definition be32 :: "int32 \<Rightarrow> byte list" where
  "be32 w = [ucast (drop_bit 24 w), ucast (drop_bit 16 w), ucast (drop_bit 8 w), ucast w]"

fun asInt32 :: "byte list \<Rightarrow> int32 outcome" where
  "asInt32 (b0 # b1 # b2 # b3 # _) =
     Inr (push_bit 24 (ucast b0) OR push_bit 16 (ucast b1) OR push_bit 8 (ucast b2) OR ucast b3)"
| "asInt32 _ = Inl OutOfRange"

lemma length_be32 [simp]: "length (be32 w) = 4"
  by (simp add: be32_def)

lemma asInt32_be32 [simp]: "asInt32 (be32 w @ r) = Inr w"
proof -
  have "(push_bit 24 (ucast (ucast (drop_bit 24 w) :: byte))
      OR push_bit 16 (ucast (ucast (drop_bit 16 w) :: byte))
      OR push_bit 8 (ucast (ucast (drop_bit 8 w) :: byte))
      OR ucast (ucast w :: byte)) = (w :: int32)"
  proof (rule bit_word_eqI)
    fix n
    assume "n < LENGTH(32)"
    then consider "n < 8" | "8 \<le> n" "n < 16" | "16 \<le> n" "n < 24" | "24 \<le> n" "n < 32"
      by fastforce
    then show "bit (push_bit 24 (ucast (ucast (drop_bit 24 w) :: byte))
      OR push_bit 16 (ucast (ucast (drop_bit 16 w) :: byte))
      OR push_bit 8 (ucast (ucast (drop_bit 8 w) :: byte))
      OR ucast (ucast w :: byte) :: int32) n = bit w n"
      by cases (auto simp: bit_simps)
  qed
  then show ?thesis by (simp add: be32_def)
qed

lemma asInt32_total: "4 \<le> length bs \<Longrightarrow> \<exists>w. asInt32 bs = Inr w"
  by (induction bs rule: asInt32.induct) auto

lemma asInt32_append: "4 \<le> length bs \<Longrightarrow> asInt32 (bs @ r) = asInt32 bs"
  by (induction bs rule: asInt32.induct) auto

section \<open>Reading memory\<close>

text \<open>Reads through a pointer into the readable bytes; leaving them is a fault.\<close>

definition mem_bytes :: "byte list \<Rightarrow> int \<Rightarrow> int \<Rightarrow> byte list outcome" where
  "mem_bytes buf off n =
     (if 0 \<le> off \<and> 0 \<le> n \<and> off + n \<le> int (length buf)
      then Inr (take (nat n) (drop (nat off) buf)) else Inl OutOfRange)"

definition mem_int32 :: "byte list \<Rightarrow> int \<Rightarrow> int32 outcome" where
  "mem_int32 buf off = and_then (mem_bytes buf off 4) asInt32"

lemma mem_bytes_ok:
  "0 \<le> off \<Longrightarrow> 0 \<le> n \<Longrightarrow> off + n \<le> int (length buf) \<Longrightarrow>
     mem_bytes buf off n = Inr (take (nat n) (drop (nat off) buf))"
  by (simp add: mem_bytes_def)

lemma mem_int32_ok:
  assumes "0 \<le> off" "off + 4 \<le> int (length buf)"
  shows "mem_int32 buf off = asInt32 (drop (nat off) buf)"
proof -
  let ?d = "drop (nat off) buf"
  have "4 \<le> length ?d" using assms by simp
  then have "asInt32 (take 4 ?d @ drop 4 ?d) = asInt32 (take 4 ?d)"
    by (intro asInt32_append) simp
  then have "asInt32 (take 4 ?d) = asInt32 ?d" by (simp only: append_take_drop_id)
  then show ?thesis using assms by (simp add: mem_int32_def mem_bytes_ok)
qed

lemma mem_int32_total:
  assumes "0 \<le> off" "off + 4 \<le> int (length buf)"
  shows "\<exists>w. mem_int32 buf off = Inr w"
  using assms by (simp add: mem_int32_ok asInt32_total)

section \<open>Encoding\<close>

definition fillEmptyBuffer :: "('m, 'd) codec_env \<Rightarrow> byte list \<Rightarrow> 'm \<Rightarrow> byte list outcome" where
  "fillEmptyBuffer env buf message =
     (if length buf \<noteq> 0 then Inl AssertFailed
      else
        let typeName = pb_type_name env message;
            nameLen = (of_nat (length typeName + 1) :: int32);
            buf = buf @ be32 nameLen;
            buf = buf @ typeName @ [0]
        in if \<not> pb_initialized env message then Inl LibraryAbort
        else
          let byte_size = pb_byte_size env message;
              dat = pb_serialize env message
          in if int (length dat) \<noteq> sint byte_size then Inl LibraryAbort
          else
            let buf = buf @ dat;
                checkSum = z_adler32 env 1 buf;
                buf = buf @ be32 checkSum
            in if length buf \<noteq> 4 + unat nameLen + unat byte_size + 4 then Inl AssertFailed
               else Inr (be32 (of_nat (length buf)) @ buf))"

section \<open>Decoding\<close>

definition createMessage :: "('m, 'd) codec_env \<Rightarrow> byte list \<Rightarrow> 'm option" where
  "createMessage env typeName =
     (case pb_find env typeName of
        None \<Rightarrow> None
      | Some descriptor \<Rightarrow> map_option (pb_new env) (pb_prototype env descriptor))"

definition kHeaderLen :: int where "kHeaderLen = 4"
definition kMinMessageLen :: int where "kMinMessageLen = 2 * kHeaderLen + 2"
definition kMaxMessageLen :: int where "kMaxMessageLen = 64 * 1024 * 1024"

lemmas codec_consts = kHeaderLen_def kMinMessageLen_def kMaxMessageLen_def

definition parse_message ::
  "('m, 'd) codec_env \<Rightarrow> byte list \<Rightarrow> int32 \<Rightarrow> (ErrorCode \<times> 'm option) outcome" where
  "parse_message env buf len32 =
     (let len = sint len32 in
      and_then (mem_int32 buf (len - kHeaderLen)) (\<lambda>expectedCheckSum.
      and_then (mem_bytes buf 0 (len - kHeaderLen)) (\<lambda>body.
      if z_adler32 env 1 body = expectedCheckSum then
        and_then (mem_int32 buf 0) (\<lambda>nameLen32.
          let nameLen = sint nameLen32 in
          if 2 \<le> nameLen \<and> nameLen \<le> len - 2 * kHeaderLen then
            and_then (mem_bytes buf kHeaderLen (nameLen - 1)) (\<lambda>typeName.
              case createMessage env typeName of
                None \<Rightarrow> Inr (kUnknownMessageType, None)
              | Some message \<Rightarrow>
                  and_then (mem_bytes buf (kHeaderLen + nameLen) (len - nameLen - 2 * kHeaderLen)) (\<lambda>dat.
                    case pb_parse_from env message dat of
                      (True, m) \<Rightarrow> Inr (kNoError, Some m)
                    | (False, m) \<Rightarrow> Inr (kParseError, Some m)))
          else Inr (kInvalidNameLen, None))
      else Inr (kCheckSumError, None))))"

text \<open>What \<^verbatim>\<open>onMessage\<close> calls, in order: the message callback or the error callback.\<close>

datatype 'm codec_event = Deliver 'm | ErrorCb ErrorCode

function onMessage ::
  "('m, 'd) codec_env \<Rightarrow> byte list \<Rightarrow> ('m codec_event list \<times> byte list) outcome" where
  "onMessage env buf =
     (if kMinMessageLen + kHeaderLen \<le> int (length buf) then
        and_then (asInt32 buf) (\<lambda>len32.
          let len = sint len32 in
          if kMaxMessageLen < len \<or> len < kMinMessageLen then Inr ([ErrorCb kInvalidLength], buf)
          else if len + kHeaderLen \<le> int (length buf) then
            and_then (parse_message env (drop 4 buf) len32) (\<lambda>p.
              case p of
                (kNoError, Some message) \<Rightarrow>
                  and_then (onMessage env (drop (nat (kHeaderLen + len)) buf))
                    (\<lambda>r. Inr (Deliver message # fst r, snd r))
              | (errorCode, _) \<Rightarrow> Inr ([ErrorCb errorCode], buf))
          else Inr ([], buf))
      else Inr ([], buf))"
  by pat_completeness auto
termination
  by (relation "measure (\<lambda>(env, buf). length buf)") (auto simp: codec_consts)

declare onMessage.simps [simp del]

text \<open>The connection's side of \<^verbatim>\<open>defaultErrorCallback\<close>: shut down if there is a live connection.\<close>

datatype conn_state = Connected | Disconnecting | Disconnected

definition defaultErrorCallback :: "conn_state option \<Rightarrow> ErrorCode \<Rightarrow> conn_state option" where
  "defaultErrorCallback conn errorCode =
     (case conn of Some Connected \<Rightarrow> Some Disconnecting | _ \<Rightarrow> conn)"

section \<open>The stream\<close>

text \<open>
  The bytes of a connection arrive in chunks; muduo appends each to the input buffer and calls
  \<^verbatim>\<open>onMessage\<close>.
\<close>

fun feed :: "('m, 'd) codec_env \<Rightarrow> byte list \<Rightarrow> byte list list \<Rightarrow>
  ('m codec_event list \<times> byte list) outcome" where
  "feed env buf [] = Inr ([], buf)"
| "feed env buf (chunk # chunks) =
     and_then (onMessage env (buf @ chunk)) (\<lambda>r.
       and_then (feed env (snd r) chunks) (\<lambda>r'. Inr (fst r @ fst r', snd r')))"

end
