(* ===== verification/Codec_Stream.thy ===== *)
theory Codec_Stream
  imports Codec
begin

text \<open>
  The properties of the codec: memory safety of the decoder, the behaviour of a stream cut into
  arbitrary chunks, errors, and, over the laws of the library calls (locale \<open>protobuf_env\<close>), the
  round trip through \<^verbatim>\<open>fillEmptyBuffer\<close> and \<^verbatim>\<open>onMessage\<close>.
\<close>

section \<open>One frame\<close>

text \<open>The outcome of one turn of the loop of \<^verbatim>\<open>onMessage\<close>.\<close>

datatype 'm turn = Wait | Bad ErrorCode | Frame 'm nat

definition next_turn :: "('m, 'd) codec_env \<Rightarrow> byte list \<Rightarrow> 'm turn" where
  "next_turn env buf =
     (if int (length buf) < kMinMessageLen + kHeaderLen then Wait
      else case asInt32 buf of
        Inl _ \<Rightarrow> Wait
      | Inr len32 \<Rightarrow>
          if kMaxMessageLen < sint len32 \<or> sint len32 < kMinMessageLen then Bad kInvalidLength
          else if int (length buf) < sint len32 + kHeaderLen then Wait
          else case parse_message env (drop 4 buf) len32 of
            Inl _ \<Rightarrow> Wait
          | Inr (kNoError, Some m) \<Rightarrow> Frame m (nat (kHeaderLen + sint len32))
          | Inr (e, _) \<Rightarrow> Bad e)"

lemma parse_total:
  assumes "kMinMessageLen \<le> sint len" "sint len \<le> int (length buf)"
  shows "\<exists>e m. parse_message env buf len = Inr (e, m)"
proof -
  obtain w where w: "mem_int32 buf (sint len - kHeaderLen) = Inr w"
    using mem_int32_total [of "sint len - kHeaderLen" buf] assms by (auto simp: codec_consts)
  obtain v where v: "mem_int32 buf 0 = Inr v"
    using mem_int32_total [of 0 buf] assms by (auto simp: codec_consts)
  have body: "\<exists>b. mem_bytes buf 0 (sint len - kHeaderLen) = Inr b"
    using assms by (simp add: mem_bytes_ok codec_consts)
  have name: "\<exists>b. mem_bytes buf kHeaderLen (sint v - 1) = Inr b"
    "\<exists>b. mem_bytes buf (kHeaderLen + sint v) (sint len - sint v - 2 * kHeaderLen) = Inr b"
    if "2 \<le> sint v" "sint v \<le> sint len - 2 * kHeaderLen"
    using assms that by (simp_all add: mem_bytes_ok codec_consts)
  show ?thesis
    using w v body name
    by (fastforce simp: parse_message_def Let_def split: option.split prod.split bool.split)
qed

lemma mem_bytes_take:
  assumes "0 \<le> k" "k \<le> int (length buf)" "off + n \<le> k"
  shows "mem_bytes (take (nat k) buf) off n = mem_bytes buf off n"
  using assms by (auto simp: mem_bytes_def drop_take min_def)

lemma parse_take:
  assumes "kMinMessageLen \<le> sint len" "sint len \<le> int (length buf)"
  shows "parse_message env (take (nat (sint len)) buf) len = parse_message env buf len"
proof -
  have rd: "mem_bytes (take (nat (sint len)) buf) off n = mem_bytes buf off n"
    if "off + n \<le> sint len" for off n
    using that assms by (intro mem_bytes_take) (simp_all add: codec_consts)
  have rd32: "mem_int32 (take (nat (sint len)) buf) off = mem_int32 buf off"
    if "off + 4 \<le> sint len" for off
    using that by (simp add: mem_int32_def rd)
  show ?thesis
    using assms unfolding parse_message_def Let_def
    by (simp add: rd rd32 codec_consts cong: and_then_cong if_cong option.case_cong)
qed

lemma parse_append:
  assumes "kMinMessageLen \<le> sint len" "sint len \<le> int (length buf)"
  shows "parse_message env (buf @ r) len = parse_message env buf len"
  using parse_take [of len "buf @ r" env] parse_take [of len buf env] assms by simp

lemma onMessage_turn:
  "onMessage env buf =
     (case next_turn env buf of
        Wait \<Rightarrow> Inr ([], buf)
      | Bad e \<Rightarrow> Inr ([ErrorCb e], buf)
      | Frame m n \<Rightarrow> and_then (onMessage env (drop n buf)) (\<lambda>r. Inr (Deliver m # fst r, snd r)))"
proof (cases "int (length buf) < kMinMessageLen + kHeaderLen")
  case True
  then show ?thesis by (simp add: onMessage.simps [of env buf] next_turn_def)
next
  case False
  then obtain len where len: "asInt32 buf = Inr len"
    using asInt32_total [of buf] by (auto simp: codec_consts)
  show ?thesis
  proof (cases "kMinMessageLen \<le> sint len \<and> sint len \<le> kMaxMessageLen
      \<and> sint len + kHeaderLen \<le> int (length buf)")
    case True
    then obtain e m where "parse_message env (drop 4 buf) len = Inr (e, m)"
      using parse_total [of len "drop 4 buf" env] by (auto simp: codec_consts)
    with True False len show ?thesis
      by (cases e; cases m) (simp_all add: onMessage.simps [of env buf] next_turn_def)
  next
    case bad: False
    with False len show ?thesis
      by (auto simp: onMessage.simps [of env buf] next_turn_def)
  qed
qed

lemma next_turn_Frame:
  assumes "next_turn env buf = Frame m n"
  shows "14 \<le> n \<and> n \<le> length buf"
  using assms
  by (auto simp: next_turn_def codec_consts split: if_splits sum.splits prod.splits option.splits ErrorCode.splits)

lemma next_turn_append:
  assumes "next_turn env buf \<noteq> Wait"
  shows "next_turn env (buf @ r) = next_turn env buf"
proof -
  have long: "kMinMessageLen + kHeaderLen \<le> int (length buf)"
    using assms by (auto simp: next_turn_def split: if_splits)
  then obtain len where len: "asInt32 buf = Inr len"
    using asInt32_total [of buf] by (auto simp: codec_consts)
  then have len': "asInt32 (buf @ r) = Inr len"
    using long by (simp add: asInt32_append codec_consts)
  show ?thesis
  proof (cases "kMaxMessageLen < sint len \<or> sint len < kMinMessageLen")
    case True
    then show ?thesis using long len len' by (simp add: next_turn_def)
  next
    case False
    then have fits: "sint len + kHeaderLen \<le> int (length buf)"
      using assms long len by (auto simp: next_turn_def split: if_splits)
    have "parse_message env (drop 4 buf @ r) len = parse_message env (drop 4 buf) len"
      using False fits by (intro parse_append) (auto simp: codec_consts)
    moreover have "drop 4 (buf @ r) = drop 4 buf @ r" using long by (simp add: codec_consts)
    ultimately show ?thesis using False fits long len len' by (simp add: next_turn_def)
  qed
qed

text \<open>Computation by turns: induction for facts about \<^const>\<open>onMessage\<close>.\<close>

lemma turn_induct [case_names step]:
  assumes "\<And>buf. (\<And>m n. next_turn env buf = Frame m n \<Longrightarrow> P (drop n buf)) \<Longrightarrow> P buf"
  shows "P buf"
proof (induction "length buf" arbitrary: buf rule: less_induct)
  case less
  show ?case
  proof (rule assms)
    fix m n
    assume "next_turn env buf = Frame m n"
    then show "P (drop n buf)" using next_turn_Frame by (intro less) fastforce
  qed
qed

section \<open>Safety\<close>

lemma onMessage_total: "\<exists>evs rest. onMessage env buf = Inr (evs, rest)"
proof (induction buf rule: turn_induct [of env])
  case (step buf)
  show ?case
  proof (cases "next_turn env buf")
    case (Frame m n)
    with step [OF Frame] show ?thesis by (auto simp: onMessage_turn [of env buf])
  qed (auto simp: onMessage_turn [of env buf])
qed

definition error_free :: "'m codec_event list \<Rightarrow> bool" where
  "error_free evs \<longleftrightarrow> (\<forall>e. ErrorCb e \<notin> set evs)"

lemma error_free_simps [simp]:
  "error_free []" "error_free (Deliver m # evs) = error_free evs" "\<not> error_free (ErrorCb e # evs)"
  "error_free (evs @ evs') \<longleftrightarrow> error_free evs \<and> error_free evs'"
  by (auto simp: error_free_def)

lemma onMessage_extend:
  "onMessage env buf = Inr (evs, rest) \<Longrightarrow> error_free evs \<Longrightarrow>
     onMessage env (buf @ ext)
       = and_then (onMessage env (rest @ ext)) (\<lambda>r. Inr (evs @ fst r, snd r))"
proof (induction buf arbitrary: evs rule: turn_induct [of env])
  case (step buf)
  show ?case
  proof (cases "next_turn env buf")
    case Wait
    with step.prems show ?thesis
      by (cases "onMessage env (buf @ ext)") (auto simp: onMessage_turn [of env buf])
  next
    case (Bad e)
    with step.prems show ?thesis by (auto simp: onMessage_turn [of env buf])
  next
    case (Frame m n)
    with step.prems obtain evs' where evs': "onMessage env (drop n buf) = Inr (evs', rest)"
      "evs = Deliver m # evs'" by (auto simp: onMessage_turn [of env buf] and_then_Inr_iff)
    have "next_turn env (buf @ ext) = Frame m n" using next_turn_append [of env buf ext] Frame by simp
    moreover have "drop n (buf @ ext) = drop n buf @ ext" using next_turn_Frame [OF Frame] by simp
    ultimately show ?thesis
      using step.IH [OF Frame evs'(1)] step.prems(2) evs'(2)
      by (simp add: onMessage_turn [of env "buf @ ext"] and_then_assoc)
  qed
qed

lemma onMessage_extend_error:
  "onMessage env buf = Inr (evs, rest) \<Longrightarrow> \<not> error_free evs \<Longrightarrow>
     onMessage env (buf @ ext) = Inr (evs, rest @ ext)"
proof (induction buf arbitrary: evs rule: turn_induct [of env])
  case (step buf)
  show ?case
  proof (cases "next_turn env buf")
    case Wait
    with step.prems show ?thesis by (auto simp: onMessage_turn [of env buf])
  next
    case (Bad e)
    then have "next_turn env (buf @ ext) = Bad e" using next_turn_append [of env buf ext] by simp
    then have "onMessage env (buf @ ext) = Inr ([ErrorCb e], buf @ ext)"
      by (simp add: onMessage_turn [of env "buf @ ext"])
    with Bad step.prems show ?thesis by (auto simp: onMessage_turn [of env buf])
  next
    case (Frame m n)
    with step.prems obtain evs' where evs': "onMessage env (drop n buf) = Inr (evs', rest)"
      "evs = Deliver m # evs'" by (auto simp: onMessage_turn [of env buf] and_then_Inr_iff)
    have "next_turn env (buf @ ext) = Frame m n" using next_turn_append [of env buf ext] Frame by simp
    moreover have "drop n (buf @ ext) = drop n buf @ ext" using next_turn_Frame [OF Frame] by simp
    ultimately show ?thesis
      using step.IH [OF Frame evs'(1)] step.prems(2) evs'(2)
      by (simp add: onMessage_turn [of env "buf @ ext"])
  qed
qed

lemma onMessage_stuck:
  "onMessage env buf = Inr (evs, rest) \<Longrightarrow> ErrorCb e \<in> set evs \<Longrightarrow>
     onMessage env (rest @ ext) = Inr ([ErrorCb e], rest @ ext)"
proof (induction buf arbitrary: evs rule: turn_induct [of env])
  case (step buf)
  show ?case
  proof (cases "next_turn env buf")
    case Wait
    with step.prems show ?thesis by (auto simp: onMessage_turn [of env buf])
  next
    case (Bad e')
    then have "next_turn env (buf @ ext) = Bad e'" using next_turn_append [of env buf ext] by simp
    then have "onMessage env (buf @ ext) = Inr ([ErrorCb e'], buf @ ext)"
      by (simp add: onMessage_turn [of env "buf @ ext"])
    with Bad step.prems show ?thesis by (auto simp: onMessage_turn [of env buf])
  next
    case (Frame m n)
    with step.prems obtain evs' where "onMessage env (drop n buf) = Inr (evs', rest)"
      "evs = Deliver m # evs'" by (auto simp: onMessage_turn [of env buf] and_then_Inr_iff)
    with step.IH [OF Frame] step.prems(2) show ?thesis by auto
  qed
qed

lemma onMessage_shape:
  "onMessage env buf = Inr (evs, rest) \<Longrightarrow>
     suffix rest buf \<and> (\<forall>i < length evs - 1. \<exists>m. evs ! i = Deliver m)
     \<and> 14 * length evs \<le> length buf - length rest + 14"
proof (induction buf arbitrary: evs rule: turn_induct [of env])
  case (step buf)
  show ?case
  proof (cases "next_turn env buf")
    case (Frame m n)
    note n = next_turn_Frame [OF Frame]
    from Frame step.prems obtain evs' where evs': "onMessage env (drop n buf) = Inr (evs', rest)"
      "evs = Deliver m # evs'" by (auto simp: onMessage_turn [of env buf] and_then_Inr_iff)
    note IH = step.IH [OF Frame evs'(1)]
    have "suffix rest buf"
      using IH suffix_drop suffix_order.trans by blast
    moreover have "length rest \<le> length (drop n buf)" using IH suffix_length_le by blast
    moreover have "\<exists>m. evs ! i = Deliver m" if "i < length evs - 1" for i
      using IH that evs'(2) by (cases i) auto
    ultimately show ?thesis using IH n evs'(2) by auto
  qed (use step.prems in \<open>auto simp: onMessage_turn [of env buf]\<close>)
qed

section \<open>Chunks\<close>

text \<open>
  However the bytes are cut, feeding the chunks one by one calls the same callbacks in the same
  order, and leaves the same bytes, as long as no error is reported.
\<close>

lemma feed_concat:
  "onMessage env (buf @ concat chunks) = Inr (evs, rest) \<Longrightarrow> error_free evs \<Longrightarrow>
     onMessage env buf = Inr ([], buf) \<Longrightarrow> feed env buf chunks = Inr (evs, rest)"
proof (induction chunks arbitrary: buf evs)
  case Nil
  then show ?case by simp
next
  case (Cons chunk chunks)
  let ?b = "buf @ chunk" and ?cs = "concat chunks"
  obtain evs1 buf1 where one: "onMessage env ?b = Inr (evs1, buf1)"
    using onMessage_total by blast
  have all: "onMessage env (?b @ ?cs) = Inr (evs, rest)" using Cons.prems(1) by simp
  have ok1: "error_free evs1"
    using onMessage_extend_error [OF one, of ?cs] all Cons.prems(2) by auto
  from onMessage_extend [OF one ok1, of ?cs] all obtain evs2 where
    two: "onMessage env (buf1 @ ?cs) = Inr (evs2, rest)" "evs = evs1 @ evs2"
    by (auto simp: and_then_Inr_iff)
  have "onMessage env buf1 = Inr ([], buf1)"
  proof -
    obtain e r where er: "onMessage env buf1 = Inr (e, r)" using onMessage_total by blast
    then show ?thesis using onMessage_extend [OF one ok1, of "[]"] one by simp
  qed
  with Cons.IH [OF two(1)] Cons.prems(2) two(2) have "feed env buf1 chunks = Inr (evs2, rest)" by simp
  with one two(2) show ?case by simp
qed

section \<open>Sizes as 32-bit integers\<close>

lemma unat_of_sint:
  assumes "sint (w :: int32) = int n" "n < 2 ^ 31"
  shows "unat w = n"
proof -
  have "uint w = take_bit 32 (int n)" using uint_sint [of w] assms(1) by simp
  also have "\<dots> = int n" using assms(2) by (simp add: take_bit_int_eq_self)
  finally show ?thesis by (simp add: unat_eq_nat_uint)
qed

lemma sint_of_nat_small:
  assumes "n < 2 ^ 31"
  shows "sint (of_nat n :: int32) = int n"
proof -
  have "sint (of_nat n :: int32) = signed_take_bit 31 (int n)"
    by (simp add: signed_of_nat)
  then show ?thesis using assms by (simp add: signed_take_bit_int_eq_self)
qed

section \<open>What the codec relies on\<close>

definition frame_body :: "('m, 'd) codec_env \<Rightarrow> 'm \<Rightarrow> byte list" where
  "frame_body env m =
     be32 (of_nat (length (pb_type_name env m) + 1)) @ pb_type_name env m @ [0] @ pb_serialize env m"

definition frame_len :: "('m, 'd) codec_env \<Rightarrow> 'm \<Rightarrow> nat" where
  "frame_len env m = length (pb_type_name env m) + length (pb_serialize env m) + 9"

definition frame_bytes :: "('m, 'd) codec_env \<Rightarrow> 'm \<Rightarrow> byte list" where
  "frame_bytes env m =
     be32 (of_nat (frame_len env m)) @ frame_body env m @ be32 (z_adler32 env 1 (frame_body env m))"

text \<open>
  Of Protocol Buffers: messages are initialized, \<^verbatim>\<open>ByteSizeLong\<close> is the serialized size, type names
  are not empty, and a message of a generated type is found by its type name and parsed back from
  its serialization into a fresh object, if its string fields hold UTF-8 text, as they must; the
  parser accepts no other (\<open>valid\<close>). Nothing is assumed of \<^verbatim>\<open>adler32\<close>.
\<close>

locale protobuf_env =
  fixes env :: "('m, 'd) codec_env" and valid :: "'m \<Rightarrow> bool"
  assumes initialized: "pb_initialized env m"
    and size: "length (pb_serialize env m) < 2 ^ 31 \<Longrightarrow>
      sint (pb_byte_size env m) = int (length (pb_serialize env m))"
    and name: "pb_type_name env m \<noteq> []"
    and find: "valid m \<Longrightarrow> \<exists>d p. pb_find env (pb_type_name env m) = Some d \<and> pb_prototype env d = Some p
      \<and> pb_parse_from env (pb_new env p) (pb_serialize env m) = (True, m)"
    and parsed: "pb_parse_from env p bs = (True, m) \<Longrightarrow> valid m"
begin

lemma create_parse:
  "valid m \<Longrightarrow> \<exists>p. createMessage env (pb_type_name env m) = Some p
     \<and> pb_parse_from env p (pb_serialize env m) = (True, m)"
  using find [of m] by (auto simp: createMessage_def)

lemma name_pos: "1 \<le> length (pb_type_name env m)"
  using name [of m] by (simp add: Suc_leI)

lemma length_frame_body: "length (frame_body env m) = frame_len env m - 4"
  by (simp add: frame_body_def frame_len_def)

lemma encode_frame:
  assumes "frame_len env m < 2 ^ 31"
  shows "fillEmptyBuffer env [] m = Inr (frame_bytes env m)"
proof -
  have small: "length (pb_serialize env m) < 2 ^ 31" "length (pb_type_name env m) + 1 < 2 ^ 31"
    using assms by (simp_all add: frame_len_def)
  have bs: "sint (pb_byte_size env m) = int (length (pb_serialize env m))" by (rule size [OF small(1)])
  then have "unat (pb_byte_size env m) = length (pb_serialize env m)"
    using small(1) by (rule unat_of_sint)
  moreover have "unat (of_nat (length (pb_type_name env m) + 1) :: int32) = length (pb_type_name env m) + 1"
    using small(2) by (simp only: unat_of_nat) simp
  ultimately show ?thesis
    using initialized [of m] bs
    by (simp add: fillEmptyBuffer_def Let_def frame_bytes_def frame_body_def frame_len_def ac_simps)
qed

lemma parse_frame:
  assumes "frame_len env m < 2 ^ 31" and "valid m"
  shows "parse_message env (frame_body env m @ be32 (z_adler32 env 1 (frame_body env m)) @ r)
      (of_nat (frame_len env m)) = Inr (kNoError, Some m)"
proof -
  let ?name = "pb_type_name env m" and ?dat = "pb_serialize env m" and ?body = "frame_body env m"
  let ?nl = "of_nat (length ?name + 1) :: int32"
  let ?buf = "?body @ be32 (z_adler32 env 1 ?body) @ r"
  have len: "sint (of_nat (frame_len env m) :: int32) = int (frame_len env m)"
    using assms(1) by (rule sint_of_nat_small)
  have nl: "sint ?nl = int (length ?name) + 1"
    using sint_of_nat_small [of "length ?name + 1"] assms(1) by (simp add: frame_len_def)
  have lb: "length ?body = length ?name + length ?dat + 5" by (simp add: frame_body_def)
  have chk: "mem_int32 ?buf (int (frame_len env m) - 4) = Inr (z_adler32 env 1 ?body)"
    using lb by (simp add: mem_int32_ok frame_len_def)
  have body: "mem_bytes ?buf 0 (int (frame_len env m) - 4) = Inr ?body"
    using lb by (simp add: mem_bytes_ok frame_len_def nat_add_distrib)
  have nameLen: "mem_int32 ?buf 0 = Inr ?nl"
    using lb by (simp add: mem_int32_ok) (simp add: frame_body_def)
  have typeName: "mem_bytes ?buf 4 (int (length ?name)) = Inr ?name"
    using lb by (simp add: mem_bytes_ok) (simp add: frame_body_def)
  have dat: "mem_bytes ?buf (5 + int (length ?name)) (int (length ?dat)) = Inr ?dat"
    using lb by (simp add: mem_bytes_ok nat_add_distrib) (simp add: frame_body_def)
  obtain p where p: "createMessage env ?name = Some p" "pb_parse_from env p ?dat = (True, m)"
    using create_parse [OF assms(2)] by blast
  have "2 \<le> sint ?nl" "sint ?nl \<le> int (frame_len env m) - 8"
    unfolding nl using name_pos [of m] by (simp_all add: frame_len_def)
  moreover have "int (frame_len env m) - sint ?nl - 8 = int (length ?dat)"
    "4 + sint ?nl = 5 + int (length ?name)"
    unfolding nl by (simp_all add: frame_len_def)
  ultimately show ?thesis
    using chk body nameLen typeName dat p nl
    by (simp add: parse_message_def Let_def len codec_consts del: of_nat_add of_nat_Suc)
qed

lemma frame_turn:
  assumes "int (frame_len env m) \<le> kMaxMessageLen" and "valid m"
  shows "next_turn env (frame_bytes env m @ r) = Frame m (length (frame_bytes env m))"
proof -
  have small: "frame_len env m < 2 ^ 31" using assms(1) by (simp add: codec_consts)
  have len: "sint (of_nat (frame_len env m) :: int32) = int (frame_len env m)"
    using small by (rule sint_of_nat_small)
  have low: "kMinMessageLen \<le> int (frame_len env m)"
    using name_pos [of m] by (simp add: frame_len_def codec_consts)
  have total: "length (frame_bytes env m) = frame_len env m + 4"
    by (simp add: frame_bytes_def length_frame_body frame_len_def)
  have rest: "drop 4 (frame_bytes env m @ r)
      = frame_body env m @ be32 (z_adler32 env 1 (frame_body env m)) @ r"
    by (simp add: frame_bytes_def)
  have hd: "asInt32 (frame_bytes env m @ r) = Inr (of_nat (frame_len env m))"
    by (simp add: frame_bytes_def)
  show ?thesis
    using assms(1) low total parse_frame [OF small assms(2), of r] rest hd len
    by (simp add: next_turn_def codec_consts nat_add_distrib)
qed

lemma decode_frame:
  assumes "int (frame_len env m) \<le> kMaxMessageLen" and "valid m"
  shows "onMessage env (frame_bytes env m @ r)
    = and_then (onMessage env r) (\<lambda>p. Inr (Deliver m # fst p, snd p))"
  by (simp add: onMessage_turn [of env "frame_bytes env m @ r"] frame_turn [OF assms])

lemma decode_frames:
  "(\<forall>m \<in> set ms. int (frame_len env m) \<le> kMaxMessageLen \<and> valid m) \<Longrightarrow>
     onMessage env (concat (map (frame_bytes env) ms)) = Inr (map Deliver ms, [])"
proof (induction ms)
  case Nil
  show ?case by (simp add: onMessage_turn [of env "[]"] next_turn_def codec_consts)
next
  case (Cons m ms)
  then show ?case by (simp add: decode_frame)
qed

text \<open>What the decoder delivers, the parser has accepted.\<close>

lemma parse_message_valid:
  assumes "parse_message env buf len = Inr (kNoError, Some m)" shows "valid m"
proof -
  have "valid m" if "(case pb_parse_from env p dat of (True, m) \<Rightarrow> Inr (kNoError, Some m)
      | (False, m) \<Rightarrow> Inr (kParseError, Some m)) = (Inr (kNoError, Some m) :: _ outcome)" for p dat
    using that parsed [of p dat] by (auto split: prod.splits bool.splits)
  then show ?thesis using assms
    by (auto simp: parse_message_def Let_def and_then_Inr_iff split: if_splits option.splits)
qed

lemma turn_valid: "next_turn env buf = Frame m n \<Longrightarrow> valid m"
  unfolding next_turn_def
  by (auto intro: parse_message_valid
      split: if_splits sum.splits option.splits prod.splits ErrorCode.splits)

lemma delivered_valid: "onMessage env buf = Inr (evs, rest) \<Longrightarrow> Deliver m \<in> set evs \<Longrightarrow> valid m"
proof (induction buf arbitrary: evs rule: turn_induct [where env = env])
  case (step buf)
  then show ?case
    by (cases "next_turn env buf")
      (auto simp: onMessage_turn [of env buf] and_then_Inr_iff dest: turn_valid)
qed

lemma oversized_turn:
  assumes "kMaxMessageLen < int (frame_len env m)" "frame_len env m < 2 ^ 31"
  shows "next_turn env (frame_bytes env m @ r) = Bad kInvalidLength"
proof -
  have "sint (of_nat (frame_len env m) :: int32) = int (frame_len env m)"
    using assms(2) by (rule sint_of_nat_small)
  then show ?thesis
    using assms(1) by (simp add: next_turn_def frame_bytes_def codec_consts frame_len_def frame_body_def)
qed

end

end
