(* ===== verification/Chat_Messages.thy ===== *)
theory Chat_Messages
  imports Codec_Stream
begin

text \<open>
  The messages of \<^verbatim>\<open>chat.proto\<close> as records, one constructor of \<open>chat_msg\<close> per message type, and a
  concrete instance of the codec's library calls for them: the proto3 wire format of exactly these
  messages and the Adler-32 checksum. The generated code and the libraries stay parameters of the
  codec; the instance shows that the laws of \<open>protobuf_env\<close> can hold together for the whole
  protocol of the program, and serves the witnesses. The two enumerations of the protocol are open;
  the values the schema does not name are one constructor, since the code never tells them apart.
\<close>

section \<open>The schema\<close>

datatype TargetType = USER | GROUP | TargetType_unnamed

datatype GroupOperation = CREATE | JOIN | LEAVE | QUERY | GroupOperation_unnamed

record text_message =
  tm_sender :: string
  tm_content :: string
  tm_target :: string
  tm_target_type :: TargetType

record status_response =
  st_success :: bool
  st_error_message :: string

record credentials =
  cr_username :: string
  cr_password :: string

record login_response =
  lr_username :: string
  lr_success :: bool
  lr_error_message :: string

record search_request =
  sq_keyword :: string
  sq_online_only :: bool

record group_request =
  gq_operation :: GroupOperation
  gq_group_name :: string
  gq_username :: string

record group_response =
  gr_operation :: GroupOperation
  gr_success :: bool
  gr_error_message :: string
  gr_joined_groups :: "string list"

datatype chat_msg =
  TextMessage text_message
| TextMessageResponse status_response
| LoginRequest credentials
| LoginResponse login_response
| LogoutRequest string
| LogoutResponse status_response
| RegisterRequest credentials
| RegisterResponse status_response
| SearchRequest search_request
| SearchResponse "string list"
| GroupRequest group_request
| GroupResponse group_response

datatype chat_type =
  TTextMessage | TTextMessageResponse | TLoginRequest | TLoginResponse | TLogoutRequest
| TLogoutResponse | TRegisterRequest | TRegisterResponse | TSearchRequest | TSearchResponse
| TGroupRequest | TGroupResponse

text \<open>\<^verbatim>\<open>message->GetDescriptor()\<close>.\<close>

fun descriptor_of :: "chat_msg \<Rightarrow> chat_type" where
  "descriptor_of (TextMessage _) = TTextMessage"
| "descriptor_of (TextMessageResponse _) = TTextMessageResponse"
| "descriptor_of (LoginRequest _) = TLoginRequest"
| "descriptor_of (LoginResponse _) = TLoginResponse"
| "descriptor_of (LogoutRequest _) = TLogoutRequest"
| "descriptor_of (LogoutResponse _) = TLogoutResponse"
| "descriptor_of (RegisterRequest _) = TRegisterRequest"
| "descriptor_of (RegisterResponse _) = TRegisterResponse"
| "descriptor_of (SearchRequest _) = TSearchRequest"
| "descriptor_of (SearchResponse _) = TSearchResponse"
| "descriptor_of (GroupRequest _) = TGroupRequest"
| "descriptor_of (GroupResponse _) = TGroupResponse"

fun full_name :: "chat_type \<Rightarrow> string" where
  "full_name TTextMessage = ''chat.TextMessage''"
| "full_name TTextMessageResponse = ''chat.TextMessageResponse''"
| "full_name TLoginRequest = ''chat.LoginRequest''"
| "full_name TLoginResponse = ''chat.LoginResponse''"
| "full_name TLogoutRequest = ''chat.LogoutRequest''"
| "full_name TLogoutResponse = ''chat.LogoutResponse''"
| "full_name TRegisterRequest = ''chat.RegisterRequest''"
| "full_name TRegisterResponse = ''chat.RegisterResponse''"
| "full_name TSearchRequest = ''chat.SearchRequest''"
| "full_name TSearchResponse = ''chat.SearchResponse''"
| "full_name TGroupRequest = ''chat.GroupRequest''"
| "full_name TGroupResponse = ''chat.GroupResponse''"

section \<open>Wire fields\<close>

definition str_bytes :: "string \<Rightarrow> byte list" where
  "str_bytes s = map (\<lambda>c. of_nat (of_char c)) s"

definition bytes_str :: "byte list \<Rightarrow> string" where
  "bytes_str bs = map (\<lambda>b. char_of (unat b)) bs"

lemma bytes_str_str_bytes [simp]: "bytes_str (str_bytes s) = s"
proof -
  have "char_of (unat (of_nat (of_char c) :: byte)) = c" for c
  proof -
    have "(of_char c :: nat) < 256" by (cases c) (simp add: of_char_def horner_sum_simps)
    then show ?thesis by (simp add: unat_of_nat)
  qed
  then show ?thesis by (simp add: bytes_str_def str_bytes_def comp_def map_idI)
qed

lemma str_bytes_inj [simp]: "str_bytes s = str_bytes t \<longleftrightarrow> s = t"
  by (metis bytes_str_str_bytes)

fun varint :: "nat \<Rightarrow> byte list" where
  "varint n = (if n < 128 then [of_nat n] else of_nat (n mod 128 + 128) # varint (n div 128))"

declare varint.simps [simp del]

fun read_varint :: "byte list \<Rightarrow> (nat \<times> byte list) option" where
  "read_varint [] = None"
| "read_varint (b # bs) =
     (if unat b < 128 then Some (unat b, bs)
      else case read_varint bs of None \<Rightarrow> None | Some (n, r) \<Rightarrow> Some (unat b - 128 + 128 * n, r))"

lemma read_varint_varint [simp]: "read_varint (varint n @ r) = Some (n, r)"
proof (induction n rule: varint.induct)
  case (1 n)
  have u: "unat (of_nat (n mod 128 + 128) :: byte) = n mod 128 + 128"
    by (simp only: unat_of_nat) simp
  have v: "unat (of_nat n :: byte) = n" if "n < 128" using that by (simp add: unat_of_nat)
  show ?case
    using 1 by (cases "n < 128") (simp_all add: varint.simps [of n] u v del: of_nat_add)
qed

lemma read_varint_shorter: "read_varint bs = Some (n, r) \<Longrightarrow> length r < length bs"
  by (induction bs arbitrary: n r) (fastforce split: if_splits option.splits)+

datatype field_value = VInt nat | VBytes "byte list"

fun write_field :: "nat \<times> field_value \<Rightarrow> byte list" where
  "write_field (k, VInt n) = varint (k * 8) @ varint n"
| "write_field (k, VBytes b) = varint (k * 8 + 2) @ varint (length b) @ b"

definition read_field :: "byte list \<Rightarrow> ((nat \<times> field_value) \<times> byte list) option" where
  "read_field bs =
     (case read_varint bs of
        None \<Rightarrow> None
      | Some (tag, r) \<Rightarrow>
          (case read_varint r of
             None \<Rightarrow> None
           | Some (n, r') \<Rightarrow>
               if tag mod 8 = 0 then Some ((tag div 8, VInt n), r')
               else if tag mod 8 = 2 \<and> n \<le> length r'
               then Some ((tag div 8, VBytes (take n r')), drop n r')
               else None))"

lemma read_write_field [simp]: "read_field (write_field f @ r) = Some (f, r)"
proof (cases f rule: write_field.cases)
  case (1 k n)
  then show ?thesis by (simp add: read_field_def)
next
  case (2 k b)
  have "(k * 8 + 2) mod 8 = 2" "(k * 8 + 2) div 8 = k" by presburger+
  with 2 show ?thesis by (simp add: read_field_def)
qed

lemma read_field_shorter: "read_field bs = Some (f, r) \<Longrightarrow> length r < length bs"
  by (fastforce simp: read_field_def dest!: read_varint_shorter split: option.splits if_splits)

function read_fields :: "byte list \<Rightarrow> (nat \<times> field_value) list option" where
  "read_fields bs =
     (if bs = [] then Some []
      else case read_field bs of
        None \<Rightarrow> None
      | Some (f, r) \<Rightarrow> map_option (\<lambda>fs. f # fs) (read_fields r))"
  by pat_completeness auto
termination
  by (relation "measure length") (auto dest: read_field_shorter)

declare read_fields.simps [simp del]

lemma varint_nonempty: "varint n \<noteq> []"
  by (simp add: varint.simps [of n])

lemma write_field_nonempty: "write_field f \<noteq> []"
  by (cases f rule: write_field.cases) (simp_all add: varint_nonempty)

lemma read_write_fields: "read_fields (concat (map write_field fs)) = Some fs"
proof (induction fs)
  case Nil
  show ?case by (simp add: read_fields.simps [of "[]"])
next
  case (Cons f fs)
  then show ?case
    by (simp add: read_fields.simps [of "write_field f @ _"] write_field_nonempty)
qed

section \<open>Messages as fields\<close>

fun target_code :: "TargetType \<Rightarrow> nat" where
  "target_code USER = 0" | "target_code GROUP = 1" | "target_code TargetType_unnamed = 2"

fun operation_code :: "GroupOperation \<Rightarrow> nat" where
  "operation_code CREATE = 0" | "operation_code JOIN = 1" | "operation_code LEAVE = 2"
| "operation_code QUERY = 3" | "operation_code GroupOperation_unnamed = 4"

definition target_of :: "nat \<Rightarrow> TargetType" where
  "target_of n = (if n = 0 then USER else if n = 1 then GROUP else TargetType_unnamed)"

definition operation_of :: "nat \<Rightarrow> GroupOperation" where
  "operation_of n = (if n = 0 then CREATE else if n = 1 then JOIN else if n = 2 then LEAVE
     else if n = 3 then QUERY else GroupOperation_unnamed)"

lemma codes [simp]: "target_of (target_code t) = t" "operation_of (operation_code g) = g"
  by (cases t; simp add: target_of_def) (cases g; simp add: operation_of_def)

definition put_str :: "nat \<Rightarrow> string \<Rightarrow> (nat \<times> field_value) list" where
  "put_str k s = (if s = [] then [] else [(k, VBytes (str_bytes s))])"

definition put_int :: "nat \<Rightarrow> nat \<Rightarrow> (nat \<times> field_value) list" where
  "put_int k n = (if n = 0 then [] else [(k, VInt n)])"

abbreviation put_bool :: "nat \<Rightarrow> bool \<Rightarrow> (nat \<times> field_value) list" where
  "put_bool k b \<equiv> put_int k (of_bool b)"

definition put_strs :: "nat \<Rightarrow> string list \<Rightarrow> (nat \<times> field_value) list" where
  "put_strs k ss = map (\<lambda>s. (k, VBytes (str_bytes s))) ss"

definition get_strs :: "nat \<Rightarrow> (nat \<times> field_value) list \<Rightarrow> string list" where
  "get_strs k fs = concat (map (\<lambda>f. case f of (k', VBytes b) \<Rightarrow> if k' = k then [bytes_str b] else []
     | _ \<Rightarrow> []) fs)"

definition get_str :: "nat \<Rightarrow> (nat \<times> field_value) list \<Rightarrow> string" where
  "get_str k fs = (case rev (get_strs k fs) of [] \<Rightarrow> [] | s # _ \<Rightarrow> s)"

definition get_ints :: "nat \<Rightarrow> (nat \<times> field_value) list \<Rightarrow> nat list" where
  "get_ints k fs = concat (map (\<lambda>f. case f of (k', VInt n) \<Rightarrow> if k' = k then [n] else []
     | _ \<Rightarrow> []) fs)"

definition get_int :: "nat \<Rightarrow> (nat \<times> field_value) list \<Rightarrow> nat" where
  "get_int k fs = (case rev (get_ints k fs) of [] \<Rightarrow> 0 | n # _ \<Rightarrow> n)"

abbreviation get_bool :: "nat \<Rightarrow> (nat \<times> field_value) list \<Rightarrow> bool" where
  "get_bool k fs \<equiv> get_int k fs = 1"

fun fields_of :: "chat_msg \<Rightarrow> (nat \<times> field_value) list" where
  "fields_of (TextMessage m) = put_str 1 (tm_sender m) @ put_str 2 (tm_content m)
     @ put_str 3 (tm_target m) @ put_int 4 (target_code (tm_target_type m))"
| "fields_of (TextMessageResponse m) = put_bool 1 (st_success m) @ put_str 2 (st_error_message m)"
| "fields_of (LoginRequest m) = put_str 1 (cr_username m) @ put_str 2 (cr_password m)"
| "fields_of (LoginResponse m) = put_str 1 (lr_username m) @ put_bool 2 (lr_success m)
     @ put_str 3 (lr_error_message m)"
| "fields_of (LogoutRequest u) = put_str 1 u"
| "fields_of (LogoutResponse m) = put_bool 1 (st_success m) @ put_str 2 (st_error_message m)"
| "fields_of (RegisterRequest m) = put_str 1 (cr_username m) @ put_str 2 (cr_password m)"
| "fields_of (RegisterResponse m) = put_bool 1 (st_success m) @ put_str 2 (st_error_message m)"
| "fields_of (SearchRequest m) = put_str 1 (sq_keyword m) @ put_bool 2 (sq_online_only m)"
| "fields_of (SearchResponse us) = put_strs 1 us"
| "fields_of (GroupRequest m) = put_int 1 (operation_code (gq_operation m))
     @ put_str 2 (gq_group_name m) @ put_str 3 (gq_username m)"
| "fields_of (GroupResponse m) = put_int 1 (operation_code (gr_operation m))
     @ put_bool 2 (gr_success m) @ put_str 3 (gr_error_message m) @ put_strs 4 (gr_joined_groups m)"

definition status_of :: "(nat \<times> field_value) list \<Rightarrow> status_response" where
  "status_of fs = \<lparr>st_success = get_bool 1 fs, st_error_message = get_str 2 fs\<rparr>"

definition credentials_of :: "(nat \<times> field_value) list \<Rightarrow> credentials" where
  "credentials_of fs = \<lparr>cr_username = get_str 1 fs, cr_password = get_str 2 fs\<rparr>"

fun of_fields :: "chat_type \<Rightarrow> (nat \<times> field_value) list \<Rightarrow> chat_msg" where
  "of_fields TTextMessage fs = TextMessage \<lparr>tm_sender = get_str 1 fs, tm_content = get_str 2 fs,
     tm_target = get_str 3 fs, tm_target_type = target_of (get_int 4 fs)\<rparr>"
| "of_fields TTextMessageResponse fs = TextMessageResponse (status_of fs)"
| "of_fields TLoginRequest fs = LoginRequest (credentials_of fs)"
| "of_fields TLoginResponse fs = LoginResponse \<lparr>lr_username = get_str 1 fs,
     lr_success = get_bool 2 fs, lr_error_message = get_str 3 fs\<rparr>"
| "of_fields TLogoutRequest fs = LogoutRequest (get_str 1 fs)"
| "of_fields TLogoutResponse fs = LogoutResponse (status_of fs)"
| "of_fields TRegisterRequest fs = RegisterRequest (credentials_of fs)"
| "of_fields TRegisterResponse fs = RegisterResponse (status_of fs)"
| "of_fields TSearchRequest fs = SearchRequest \<lparr>sq_keyword = get_str 1 fs,
     sq_online_only = get_bool 2 fs\<rparr>"
| "of_fields TSearchResponse fs = SearchResponse (get_strs 1 fs)"
| "of_fields TGroupRequest fs = GroupRequest \<lparr>gq_operation = operation_of (get_int 1 fs),
     gq_group_name = get_str 2 fs, gq_username = get_str 3 fs\<rparr>"
| "of_fields TGroupResponse fs = GroupResponse \<lparr>gr_operation = operation_of (get_int 1 fs),
     gr_success = get_bool 2 fs, gr_error_message = get_str 3 fs, gr_joined_groups = get_strs 4 fs\<rparr>"

lemma get_strs_simps [simp]:
  "get_strs k [] = []"
  "get_strs k (fs @ gs) = get_strs k fs @ get_strs k gs"
  "get_strs k (put_str k' s) = (if k = k' \<and> s \<noteq> [] then [s] else [])"
  "get_strs k (put_int k' n) = []"
  "get_strs k (put_strs k' ss) = (if k = k' then ss else [])"
  by (auto simp: get_strs_def put_str_def put_int_def put_strs_def comp_def)

lemma get_ints_simps [simp]:
  "get_ints k [] = []"
  "get_ints k (fs @ gs) = get_ints k fs @ get_ints k gs"
  "get_ints k (put_str k' s) = []"
  "get_ints k (put_int k' n) = (if k = k' \<and> n \<noteq> 0 then [n] else [])"
  "get_ints k (put_strs k' ss) = []"
  by (auto simp: get_ints_def put_str_def put_int_def put_strs_def comp_def)

lemma code_zero [simp]:
  "target_code t = 0 \<longleftrightarrow> t = USER" "operation_code g = 0 \<longleftrightarrow> g = CREATE"
  by (cases t; simp) (cases g; simp)

lemma zero_codes [simp]: "target_of 0 = USER" "operation_of 0 = CREATE"
  by (simp_all add: target_of_def operation_of_def)

lemma of_fields_fields_of: "of_fields (descriptor_of m) (fields_of m) = m"
  by (cases m) (simp_all add: get_str_def get_int_def status_of_def credentials_of_def)

section \<open>The library calls, for these messages\<close>

definition all_types :: "chat_type list" where
  "all_types = [TTextMessage, TTextMessageResponse, TLoginRequest, TLoginResponse, TLogoutRequest,
     TLogoutResponse, TRegisterRequest, TRegisterResponse, TSearchRequest, TSearchResponse,
     TGroupRequest, TGroupResponse]"

fun adler_sums :: "int \<Rightarrow> int \<Rightarrow> byte list \<Rightarrow> int \<times> int" where
  "adler_sums a b [] = (a, b)"
| "adler_sums a b (x # xs) =
     adler_sums ((a + uint x) mod 65521) ((b + a + uint x) mod 65521) xs"

definition adler32 :: "int32 \<Rightarrow> byte list \<Rightarrow> int32" where
  "adler32 start bs =
     (let (a, b) = adler_sums (uint start mod 65536) (uint start div 65536) bs
      in word_of_int (b * 65536 + a))"

definition write_message :: "chat_msg \<Rightarrow> byte list" where
  "write_message m = concat (map write_field (fields_of m))"

definition read_message :: "chat_type \<Rightarrow> byte list \<Rightarrow> chat_msg option" where
  "read_message t bs = map_option (of_fields t) (read_fields bs)"

definition chat_env :: "(chat_msg, chat_type) codec_env" where
  "chat_env = \<lparr>
     pb_type_name = (\<lambda>m. str_bytes (full_name (descriptor_of m))),
     pb_initialized = (\<lambda>_. True),
     pb_byte_size = (\<lambda>m. of_nat (length (write_message m))),
     pb_serialize = write_message,
     pb_find = (\<lambda>n. find (\<lambda>t. str_bytes (full_name t) = n) all_types),
     pb_prototype = (\<lambda>t. Some (of_fields t [])),
     pb_new = (\<lambda>m. m),
     pb_parse_from = (\<lambda>m bs. case read_message (descriptor_of m) bs of
        None \<Rightarrow> (False, m) | Some m' \<Rightarrow> (True, m')),
     z_adler32 = adler32\<rparr>"

lemma read_write_message: "read_message (descriptor_of m) (write_message m) = Some m"
  by (simp add: read_message_def write_message_def read_write_fields of_fields_fields_of)

lemma descriptor_of_fields [simp]: "descriptor_of (of_fields t fs) = t"
  by (cases t) simp_all

lemma find_type: "find (\<lambda>t'. full_name t' = full_name t) all_types = Some t"
  by (cases t) (simp_all add: all_types_def)

interpretation chat: protobuf_env chat_env "\<lambda>_. True"
proof
  fix m :: chat_msg
  show "pb_initialized chat_env m" by (simp add: chat_env_def)
  show "pb_type_name chat_env m \<noteq> []"
    by (cases "descriptor_of m") (simp_all add: chat_env_def str_bytes_def)
  show "sint (pb_byte_size chat_env m) = int (length (pb_serialize chat_env m))"
    if "length (pb_serialize chat_env m) < 2 ^ 31"
    using that sint_of_nat_small [of "length (write_message m)"] by (simp add: chat_env_def)
  show "\<exists>d p. pb_find chat_env (pb_type_name chat_env m) = Some d \<and> pb_prototype chat_env d = Some p
      \<and> pb_parse_from chat_env (pb_new chat_env p) (pb_serialize chat_env m) = (True, m)"
    by (simp add: chat_env_def find_type read_write_message)
qed simp

lemma length_varint: "length (varint n) \<le> Suc n"
proof (induction n rule: varint.induct)
  case (1 n)
  show ?case
  proof (cases "n < 128")
    case False
    then have "Suc (n div 128) \<le> n" by (simp add: div_less_dividend Suc_leI)
    with 1 False show ?thesis by (simp add: varint.simps [of n])
  qed (simp add: varint.simps [of n])
qed

end
