(* ===== verification/Codec_Properties.thy ===== *)
theory Codec_Properties
  imports Chat_Messages
begin

text \<open>
  The properties of the codec over \<open>fillEmptyBuffer\<close>, \<open>onMessage\<close> and \<open>feed\<close>. Those that need the
  library calls to behave assume the locale predicate \<open>protobuf_env\<close>; their witnesses use its
  interpretation on the program's messages, \<open>chat_env\<close>.
\<close>

lemma encode_length: "fillEmptyBuffer env [] m = Inr f \<Longrightarrow> length f = frame_len env m + 4"
  by (auto simp: fillEmptyBuffer_def Let_def frame_len_def split: if_splits)

lemma encode_is_frame:
  assumes "protobuf_env env valid" "fillEmptyBuffer env [] m = Inr f" "length f < 2 ^ 31"
  shows "f = frame_bytes env m"
  using protobuf_env.encode_frame [OF assms(1), of m] encode_length [OF assms(2)] assms(2,3) by simp

lemma encode_all_frames:
  assumes "protobuf_env env valid"
  shows "list_all2 (\<lambda>m f. fillEmptyBuffer env [] m = Inr f \<and> int (length f) \<le> kMaxMessageLen + kHeaderLen) ms fs
    \<Longrightarrow> fs = map (frame_bytes env) ms \<and> (\<forall>m \<in> set ms. int (frame_len env m) \<le> kMaxMessageLen)"
proof (induction ms fs rule: list_all2_induct)
  case (Cons m ms f fs)
  then have "f = frame_bytes env m" by (intro encode_is_frame [OF assms]) (simp_all add: codec_consts)
  moreover have "int (frame_len env m) \<le> kMaxMessageLen"
    using Cons encode_length [of env m f] by (simp add: codec_consts)
  ultimately show ?case using Cons by simp
qed simp

section \<open>Properties\<close>

text \<open>
  C10: the decoder is memory safe and total: whatever bytes a peer sends, \<^verbatim>\<open>onMessage\<close> returns, reads
  nothing outside the readable bytes, consumes a prefix of the buffer, and reports at most one error,
  as its last callback.
\<close>

theorem onMessage_safe:
  "\<exists>evs rest. onMessage env buf = Inr (evs, rest) \<and> suffix rest buf
     \<and> (\<exists>ms. evs = map Deliver ms \<or> (\<exists>e. evs = map Deliver ms @ [ErrorCb e]))"
proof -
  obtain evs rest where r: "onMessage env buf = Inr (evs, rest)" using onMessage_total by blast
  note shape = onMessage_shape [OF r]
  have "\<exists>ms. evs = map Deliver ms \<or> (\<exists>e. evs = map Deliver ms @ [ErrorCb e])"
  proof (cases evs rule: rev_cases)
    case (snoc xs x)
    have "\<exists>m. xs ! i = Deliver m" if "i < length xs" for i
      using shape snoc that by (auto simp: nth_append)
    then have "\<forall>y \<in> set xs. \<exists>m. y = Deliver m" by (auto simp: in_set_conv_nth)
    then obtain ms where ms: "xs = map Deliver ms" by (metis ex_map_conv)
    then show ?thesis
    proof (cases x)
      case (Deliver m)
      then show ?thesis using snoc ms by (intro exI [of _ "ms @ [m]"]) simp
    next
      case (ErrorCb e)
      then show ?thesis using snoc ms by blast
    qed
  qed simp
  with r shape show ?thesis by blast
qed

lemma frames_decoded:
  assumes "protobuf_env env valid"
    and "list_all2 (\<lambda>m f. fillEmptyBuffer env [] m = Inr f
           \<and> int (length f) \<le> kMaxMessageLen + kHeaderLen) ms fs"
    and "concat chunks = concat fs"
    and "\<forall>m \<in> set ms. valid m"
  shows "feed env [] chunks = Inr (map Deliver ms, [])"
proof -
  from encode_all_frames [OF assms(1,2)] have "onMessage env ([] @ concat chunks) = Inr (map Deliver ms, [])"
    using protobuf_env.decode_frames [OF assms(1), of ms] assms(3,4) by simp
  moreover have "error_free (map Deliver ms)" by (auto simp: error_free_def)
  moreover have "onMessage env [] = Inr ([], [])"
    by (simp add: onMessage.simps [of env "[]"] codec_consts)
  ultimately show ?thesis by (rule feed_concat)
qed

text \<open>
  C11: the frames a sender writes are delivered by the receiver as exactly the messages sent, in
  order, however the byte stream is cut into chunks, and nothing is left in the buffer. The strings
  in the messages are UTF-8 text, as Protocol Buffers require.
\<close>

theorem stream_roundtrip:
  assumes "protobuf_env env valid"
    and "list_all2 (\<lambda>m f. fillEmptyBuffer env [] m = Inr f
           \<and> int (length f) \<le> kMaxMessageLen + kHeaderLen) ms fs"
    and "concat chunks = concat fs"
    and "\<forall>m \<in> set ms. valid m"
  shows "feed env [] chunks = Inr (map Deliver ms, [])"
  using assms by (rule frames_decoded)

lemma chat_frame_small:
  assumes "frame_len chat_env m \<le> 1000"
  shows "fillEmptyBuffer chat_env [] m = Inr (frame_bytes chat_env m)
    \<and> int (length (frame_bytes chat_env m)) \<le> kMaxMessageLen + kHeaderLen"
proof -
  have e: "fillEmptyBuffer chat_env [] m = Inr (frame_bytes chat_env m)"
    using assms by (intro chat.encode_frame) simp
  from encode_length [OF this] assms have "length (frame_bytes chat_env m) \<le> 1004" by simp
  then show ?thesis using e by (simp add: codec_consts)
qed

theorem stream_roundtrip_witness:
  "feed chat_env [] [take 7 (frame_bytes chat_env (LogoutRequest ''al'')),
      drop 7 (frame_bytes chat_env (LogoutRequest ''al'')) @ frame_bytes chat_env (LogoutRequest ''bo'')]
    = Inr (map Deliver [LogoutRequest ''al'', LogoutRequest ''bo''], [])"
proof -
  have small: "frame_len chat_env (LogoutRequest ''al'') \<le> 1000"
    "frame_len chat_env (LogoutRequest ''bo'') \<le> 1000"
    by (simp_all add: frame_len_def chat_env_def write_message_def str_bytes_def put_str_def varint.simps)
  have l: "list_all2 (\<lambda>m f. fillEmptyBuffer chat_env [] m = Inr f
       \<and> int (length f) \<le> kMaxMessageLen + kHeaderLen)
     [LogoutRequest ''al'', LogoutRequest ''bo'']
     [frame_bytes chat_env (LogoutRequest ''al''), frame_bytes chat_env (LogoutRequest ''bo'')]"
    using chat_frame_small [OF small(1)] chat_frame_small [OF small(2)] by simp
  have c: "concat [take 7 (frame_bytes chat_env (LogoutRequest ''al'')),
      drop 7 (frame_bytes chat_env (LogoutRequest ''al'')) @ frame_bytes chat_env (LogoutRequest ''bo'')]
    = concat [frame_bytes chat_env (LogoutRequest ''al''), frame_bytes chat_env (LogoutRequest ''bo'')]"
    by (simp only: concat.simps append_assoc append_Nil2) (simp only: append_assoc [symmetric] append_take_drop_id)
  show ?thesis by (rule stream_roundtrip [OF chat.protobuf_env_axioms l c]) simp
qed

text \<open>
  The bytes of a frame are those of the transport format in \<^verbatim>\<open>codec.h\<close>: the length, the length of
  the name, the name with its terminating zero, the serialized message and the checksum of the three.
\<close>

lemma encode_layout:
  assumes "protobuf_env env valid"
    and "length (pb_type_name env m) + length (pb_serialize env m) + 9 < 2 ^ 31"
  shows "\<exists>len nameLen checkSum.
    fillEmptyBuffer env [] m = Inr (be32 len @ be32 nameLen @ pb_type_name env m @ [0] @ pb_serialize env m @ be32 checkSum)
    \<and> sint nameLen = int (length (pb_type_name env m)) + 1
    \<and> sint len = sint nameLen + int (length (pb_serialize env m)) + 8
    \<and> checkSum = z_adler32 env 1 (be32 nameLen @ pb_type_name env m @ [0] @ pb_serialize env m)"
proof -
  have small: "frame_len env m < 2 ^ 31" using assms(2) by (simp add: frame_len_def)
  have "sint (of_nat (length (pb_type_name env m) + 1) :: int32) = int (length (pb_type_name env m) + 1)"
    "sint (of_nat (frame_len env m) :: int32) = int (frame_len env m)"
    using assms(2) small by (intro sint_of_nat_small; simp)+
  then show ?thesis
    using protobuf_env.encode_frame [OF assms(1) small]
    by (intro exI [of _ "of_nat (frame_len env m)"] exI [of _ "of_nat (length (pb_type_name env m) + 1)"]
        exI [of _ "z_adler32 env 1 (frame_body env m)"])
      (simp add: frame_bytes_def frame_body_def frame_len_def)
qed

text \<open>
  C12: a complete frame whose stored checksum differs from the checksum of its bytes is reported as
  \<open>kCheckSumError\<close>; nothing is delivered and nothing is consumed.
\<close>

theorem corrupted_frame_rejected:
  assumes "asInt32 buf = Inr len" and "kMinMessageLen \<le> sint len" and "sint len \<le> kMaxMessageLen"
    and "sint len + kHeaderLen \<le> int (length buf)"
    and "asInt32 (drop (nat (sint len)) buf) \<noteq> Inr (z_adler32 env 1 (take (nat (sint len - kHeaderLen)) (drop 4 buf)))"
  shows "onMessage env buf = Inr ([ErrorCb kCheckSumError], buf)"
proof -
  have chk: "mem_int32 (drop 4 buf) (sint len - kHeaderLen) = asInt32 (drop (nat (sint len)) buf)"
    using assms(2,4) by (subst mem_int32_ok) (auto simp: codec_consts nat_diff_distrib)
  obtain w where w: "mem_int32 (drop 4 buf) (sint len - kHeaderLen) = Inr w"
    using mem_int32_total [of "sint len - kHeaderLen" "drop 4 buf"] assms(2,4) by (auto simp: codec_consts)
  have "mem_bytes (drop 4 buf) 0 (sint len - kHeaderLen) = Inr (take (nat (sint len - kHeaderLen)) (drop 4 buf))"
    using assms(2,4) by (simp add: mem_bytes_ok codec_consts)
  then have "parse_message env (drop 4 buf) len = Inr (kCheckSumError, None)"
    using w chk assms(5) by (simp add: parse_message_def Let_def)
  then show ?thesis
    using assms(1-4) by (simp add: onMessage.simps [of env buf] codec_consts)
qed

theorem corrupted_frame_rejected_witness:
  "onMessage chat_env [0, 0, 0, 10, 0, 0, 0, 2, 65, 0, 1, 2, 3, 4]
     = Inr ([ErrorCb kCheckSumError], [0, 0, 0, 10, 0, 0, 0, 2, 65, 0, 1, 2, 3, 4])"
proof (rule corrupted_frame_rejected [of _ 10])
  have "adler32 1 [0, 0, 0, 2, 65, 0] = 9306180" by (simp add: adler32_def)
  then show "asInt32 (drop (nat (sint (10::int32))) [0, 0, 0, 10, 0, 0, 0, 2, 65, 0, 1, 2, 3, 4])
    \<noteq> Inr (z_adler32 chat_env 1 (take (nat (sint (10::int32) - kHeaderLen))
        (drop 4 [0, 0, 0, 10, 0, 0, 0, 2, 65, 0, 1, 2, 3, 4])))"
    by (simp add: codec_consts chat_env_def)
qed (simp_all add: codec_consts)

text \<open>
  C13: the encoder does not enforce the limit the decoder checks: a message whose frame is longer
  than 64 MB is encoded without an error and the receiver rejects it as an invalid length.
\<close>

theorem oversized_message_rejected:
  assumes "protobuf_env env valid"
    and "kMaxMessageLen < int (length (pb_type_name env m) + length (pb_serialize env m) + 9)"
    and "length (pb_type_name env m) + length (pb_serialize env m) + 9 < 2 ^ 31"
  shows "\<exists>f. fillEmptyBuffer env [] m = Inr f \<and> onMessage env f = Inr ([ErrorCb kInvalidLength], f)"
proof -
  have small: "frame_len env m < 2 ^ 31" and big: "kMaxMessageLen < int (frame_len env m)"
    using assms(2,3) by (simp_all add: frame_len_def)
  have "onMessage env (frame_bytes env m) = Inr ([ErrorCb kInvalidLength], frame_bytes env m)"
    using protobuf_env.oversized_turn [OF assms(1) big small, of "[]"]
    by (simp add: onMessage_turn [of env "frame_bytes env m"])
  then show ?thesis using protobuf_env.encode_frame [OF assms(1) small] by blast
qed

theorem oversized_message_rejected_witness:
  "\<exists>f. fillEmptyBuffer chat_env [] (LogoutRequest (replicate 67108864 (CHR ''a''))) = Inr f
     \<and> onMessage chat_env f = Inr ([ErrorCb kInvalidLength], f)"
proof -
  let ?m = "LogoutRequest (replicate 67108864 (CHR ''a''))"
  have n: "length (pb_type_name chat_env ?m) = 18" by (simp add: chat_env_def str_bytes_def)
  have ne: "replicate 67108864 (CHR ''a'') \<noteq> []" by simp
  have d: "length (pb_serialize chat_env ?m) = length (varint 10) + length (varint 67108864) + 67108864"
    by (simp add: chat_env_def write_message_def put_str_def str_bytes_def ne)
  have v: "length (varint 10) \<le> 11" "length (varint 67108864) \<le> 67108865"
    using length_varint [of 10] length_varint [of 67108864] by simp_all
  show ?thesis
  proof (rule oversized_message_rejected [OF chat.protobuf_env_axioms])
    show "kMaxMessageLen < int (length (pb_type_name chat_env ?m) + length (pb_serialize chat_env ?m) + 9)"
      unfolding n d codec_consts by simp
    show "length (pb_type_name chat_env ?m) + length (pb_serialize chat_env ?m) + 9 < 2 ^ 31"
      unfolding n d using v by simp
  qed
qed

text \<open>
  C14: an error is final for the stream: once \<^verbatim>\<open>onMessage\<close> has reported an error, every later call
  reports the same error again, whatever bytes arrive, and never delivers another message.
\<close>

theorem error_is_final:
  assumes "onMessage env buf = Inr (evs, rest)" and "ErrorCb e \<in> set evs"
  shows "onMessage env (rest @ ext) = Inr ([ErrorCb e], rest @ ext)"
  using onMessage_stuck [OF assms] .

theorem error_is_final_witness:
  "onMessage chat_env ([0, 0, 0, 0, 0, 0, 0, 0, 0, 0, 0, 0, 0, 0] @ [1, 2, 3])
     = Inr ([ErrorCb kInvalidLength], [0, 0, 0, 0, 0, 0, 0, 0, 0, 0, 0, 0, 0, 0] @ [1, 2, 3])"
  by (rule error_is_final [of chat_env "[0, 0, 0, 0, 0, 0, 0, 0, 0, 0, 0, 0, 0, 0]" "[ErrorCb kInvalidLength]"])
    (simp_all add: onMessage.simps codec_consts)

end
