(* ===== verification/Redis_Interface.thy ===== *)
theory Redis_Interface
  imports Chat_Prelude
begin

text \<open>
  The outside of the program, as the program calls it. hiredis, the Redis servers, the network and
  the thread scheduler are one state \<open>'w\<close> with the calls the sources make on it: connections are
  handles, every call takes and returns the state. Nothing is assumed of the calls here; the locale
  \<open>redis_laws\<close> names the documented behaviour that the theorems about working connections use. A
  command is the argument vector that hiredis makes of the format strings of the sources.
\<close>

section \<open>The calls\<close>

type_synonym ctx = nat

datatype redis_cmd =
  HGET string string
| HSETNX string string string
| HKEYS string
| EXISTS string
| SADD string string
| SREM string string
| SCARD string
| DEL string
| SMEMBERS string
| PUBLISH string string
| SUBSCRIBE string
| UNSUBSCRIBE string

datatype reply_type =
  REDIS_REPLY_STRING | REDIS_REPLY_ARRAY | REDIS_REPLY_INTEGER | REDIS_REPLY_NIL
| REDIS_REPLY_STATUS | REDIS_REPLY_ERROR

text \<open>\<^verbatim>\<open>redisReply\<close>: the fields the sources read; a null \<^verbatim>\<open>str\<close> is \<open>None\<close>.\<close>

datatype redis_reply =
  Reply (rtype: reply_type) (integer: int) (str: "string option") (element: "redis_reply list")

text \<open>\<^verbatim>\<open>std::string s = reply->str;\<close> reads a C string through the pointer.\<close>

definition string_of :: "string option \<Rightarrow> string outcome" where
  "string_of p = (case p of None \<Rightarrow> Inl NullDeref | Some s \<Rightarrow> Inr (c_str s))"

record 'w outside =
  redisConnect :: "string \<Rightarrow> int \<Rightarrow> 'w \<Rightarrow> ctx option \<times> 'w"
  redis_err :: "'w \<Rightarrow> ctx \<Rightarrow> bool"
  redisFree :: "ctx \<Rightarrow> 'w \<Rightarrow> 'w"
  redisCommand :: "ctx \<Rightarrow> redis_cmd \<Rightarrow> 'w \<Rightarrow> redis_reply option \<times> 'w"
  redisAppendCommand :: "ctx \<Rightarrow> redis_cmd \<Rightarrow> 'w \<Rightarrow> 'w"
  redisBufferWrite :: "ctx \<Rightarrow> 'w \<Rightarrow> (bool \<times> bool) \<times> 'w"
  redisGetReply :: "ctx \<Rightarrow> 'w \<Rightarrow> (bool \<times> redis_reply option) \<times> 'w"
  try_lock_for :: "nat \<Rightarrow> 'w \<Rightarrow> bool \<times> 'w"
  mtx_unlock :: "nat \<Rightarrow> 'w \<Rightarrow> 'w"

section \<open>The data of a Redis server\<close>

text \<open>
  What the documentation of the commands says of the keys and of the replies. The program keeps its
  users in one hash and its groups in sets; no key of the one kind is ever used as the other.
\<close>

record redis_db =
  db_hash :: "string \<Rightarrow> string \<Rightarrow> string option"
  db_set :: "string \<Rightarrow> string set"

fun db_after :: "redis_cmd \<Rightarrow> redis_db \<Rightarrow> redis_db" where
  "db_after (HSETNX k f v) d =
     (if db_hash d k f = None then d\<lparr>db_hash := (db_hash d)(k := (db_hash d k)(f \<mapsto> v))\<rparr> else d)"
| "db_after (SADD k m) d = d\<lparr>db_set := (db_set d)(k := insert m (db_set d k))\<rparr>"
| "db_after (SREM k m) d = d\<lparr>db_set := (db_set d)(k := db_set d k - {m})\<rparr>"
| "db_after (DEL k) d =
     d\<lparr>db_hash := (db_hash d)(k := Map.empty), db_set := (db_set d)(k := {})\<rparr>"
| "db_after _ d = d"

abbreviation int_reply :: "int \<Rightarrow> redis_reply" where
  "int_reply n \<equiv> Reply REDIS_REPLY_INTEGER n None []"

abbreviation bulk_reply :: "string \<Rightarrow> redis_reply" where
  "bulk_reply s \<equiv> Reply REDIS_REPLY_STRING 0 (Some s) []"

abbreviation array_reply :: "redis_reply list \<Rightarrow> redis_reply" where
  "array_reply rs \<equiv> Reply REDIS_REPLY_ARRAY 0 None rs"

abbreviation nil_reply :: redis_reply where
  "nil_reply \<equiv> Reply REDIS_REPLY_NIL 0 None []"

fun db_replies :: "redis_cmd \<Rightarrow> redis_db \<Rightarrow> redis_reply \<Rightarrow> bool" where
  "db_replies (HGET k f) d r =
     (r = (case db_hash d k f of None \<Rightarrow> nil_reply | Some v \<Rightarrow> bulk_reply v))"
| "db_replies (HSETNX k f v) d r = (r = int_reply (if db_hash d k f = None then 1 else 0))"
| "db_replies (HKEYS k) d r =
     (\<exists>fs. distinct fs \<and> set fs = dom (db_hash d k) \<and> r = array_reply (map bulk_reply fs))"
| "db_replies (EXISTS k) d r =
     (r = int_reply (if db_set d k = {} \<and> db_hash d k = Map.empty then 0 else 1))"
| "db_replies (SADD k m) d r = (r = int_reply (if m \<in> db_set d k then 0 else 1))"
| "db_replies (SREM k m) d r = (r = int_reply (if m \<in> db_set d k then 1 else 0))"
| "db_replies (SCARD k) d r = (r = int_reply (int (card (db_set d k))))"
| "db_replies (DEL k) d r =
     (r = int_reply (if db_set d k = {} \<and> db_hash d k = Map.empty then 0 else 1))"
| "db_replies (SMEMBERS k) d r =
     (\<exists>ms. distinct ms \<and> set ms = db_set d k \<and> r = array_reply (map bulk_reply ms))"
| "db_replies _ d r = True"

text \<open>The keys of hashes and of sets do not mix.\<close>

fun well_keyed :: "redis_cmd \<Rightarrow> bool" where
  "well_keyed (HGET k _) = (k = ''users'')"
| "well_keyed (HSETNX k _ _) = (k = ''users'')"
| "well_keyed (HKEYS k) = (k = ''users'')"
| "well_keyed (EXISTS k) = (k \<noteq> ''users'')"
| "well_keyed (SADD k _) = (k \<noteq> ''users'')"
| "well_keyed (SREM k _) = (k \<noteq> ''users'')"
| "well_keyed (SCARD k) = (k \<noteq> ''users'')"
| "well_keyed (DEL k) = (k \<noteq> ''users'')"
| "well_keyed (SMEMBERS k) = (k \<noteq> ''users'')"
| "well_keyed _ = False"

section \<open>The documented behaviour\<close>

text \<open>
  What a run over working connections sees: the data of the server, the commands handed to the
  socket so far, the commands still in the output buffer of a connection, the connections that work
  throughout the run, and how many more attempts a timed lock and a partial write can take.
\<close>

record view =
  v_db :: redis_db
  v_sent :: "(ctx \<times> redis_cmd) list"
  v_pending :: "ctx \<Rightarrow> redis_cmd list"
  v_up :: "ctx set"
  v_waits :: "nat \<Rightarrow> nat"

locale redis_laws =
  fixes hi :: "'w outside"
    and view :: "'w \<Rightarrow> view"
    and unwritten :: "'w \<Rightarrow> ctx \<Rightarrow> nat"
  assumes finite_set: "finite (db_set (v_db (view w)) k)"
    and up_no_err: "c \<in> v_up (view w) \<Longrightarrow> \<not> redis_err hi w c"
    and connect:
      "redisConnect hi h p w = (r, w') \<Longrightarrow>
         view w' = (view w)\<lparr>v_up := v_up (view w')\<rparr> \<and> v_up (view w) \<subseteq> v_up (view w')
         \<and> (\<forall>c. r = Some c \<longrightarrow> v_pending (view w) c = [])"
    and command:
      "c \<in> v_up (view w) \<Longrightarrow> well_keyed cmd \<Longrightarrow>
         \<exists>r w'. redisCommand hi c cmd w = (Some r, w') \<and> db_replies cmd (v_db (view w)) r
           \<and> view w' = (view w)\<lparr>v_db := db_after cmd (v_db (view w))\<rparr>"
    and append:
      "view (redisAppendCommand hi c cmd w) =
         (view w)\<lparr>v_pending := (v_pending (view w))(c := v_pending (view w) c @ [cmd])\<rparr>"
    and write_up:
      "c \<in> v_up (view w) \<Longrightarrow> redisBufferWrite hi c w = ((ok, fin), w') \<Longrightarrow>
         ok \<and> (if fin
               then view w' = (view w)\<lparr>v_sent := v_sent (view w) @ map (Pair c) (v_pending (view w) c),
                      v_pending := (v_pending (view w))(c := [])\<rparr>
               else view w' = view w \<and> unwritten w' c < unwritten w c)"
    and write_err: "redis_err hi w c \<Longrightarrow> redisBufferWrite hi c w = ((False, False), w)"
    and append_err: "redis_err hi (redisAppendCommand hi c cmd w) c' = redis_err hi w c'"
    and lock_granted: "try_lock_for hi m w = (True, w') \<Longrightarrow> view w' = view w"
    and lock_refused: "try_lock_for hi m w = (False, w') \<Longrightarrow>
      \<exists>n. view w' = (view w)\<lparr>v_waits := (v_waits (view w))(m := n)\<rparr> \<and> n < v_waits (view w) m"
    and unlock: "view (mtx_unlock hi m w) = view w"

end
