(* ===== verification/Pubsub.thy ===== *)
theory Pubsub
  imports Redis_Interface
begin

text \<open>
  The publish/subscribe channel of \<^verbatim>\<open>pubsub.h\<close> and \<^verbatim>\<open>pubsub.cc\<close>. An instance owns one connection that
  receives; publishing goes through a connection per calling thread, kept in the thread-local map
  \<^verbatim>\<open>context_map_\<close>, here an argument: the map of the calling thread, from instances to connections
  (a null pointer is \<open>None\<close>). Output loops run until hiredis reports the buffer written, so a run
  may not return.
\<close>

section \<open>Model\<close>

record pubsub =
  this :: nat
  host :: string
  port :: int
  redis_context :: ctx
  stop_flag :: bool

type_synonym context_map = "(nat \<times> ctx option) list"

definition unlock_channel :: string where
  "unlock_channel = ''__UNLOCK_CHANNEL__''"

text \<open>\<^verbatim>\<open>while (!done) if (redisBufferWrite(c, &done) != REDIS_OK) return false; return true;\<close>\<close>

partial_function (option) write_loop :: "'w outside \<Rightarrow> ctx \<Rightarrow> 'w \<Rightarrow> (bool \<times> 'w) option" where
  [code]: "write_loop hi c w =
     (case redisBufferWrite hi c w of ((ok, fin), w') \<Rightarrow>
        if \<not> ok then Some (False, w')
        else if fin then Some (True, w')
        else write_loop hi c w')"

definition createRedisContext :: "'w outside \<Rightarrow> string \<Rightarrow> int \<Rightarrow> 'w \<Rightarrow> ctx option \<times> 'w" where
  "createRedisContext hi h p w = redisConnect hi (c_str h) p w"

definition getLocalContext ::
  "'w outside \<Rightarrow> pubsub \<Rightarrow> context_map \<times> 'w \<Rightarrow> ctx option \<times> context_map \<times> 'w" where
  "getLocalContext hi ps s =
     (case s of (cmap, w) \<Rightarrow>
        (case map_of cmap (this ps) of
           None \<Rightarrow>
             (case createRedisContext hi (host ps) (port ps) w of (context, w') \<Rightarrow>
                (context, AList.update (this ps) context cmap, w'))
         | Some context \<Rightarrow> (context, cmap, w)))"

definition publish ::
  "'w outside \<Rightarrow> pubsub \<Rightarrow> string \<Rightarrow> string \<Rightarrow> context_map \<times> 'w \<Rightarrow>
     (bool \<times> context_map \<times> 'w) run" where
  "publish hi ps channel message s =
     (case getLocalContext hi ps s of (local_context, cmap, w) \<Rightarrow>
        (case local_context of
           None \<Rightarrow> Some (Inl NullDeref)
         | Some c \<Rightarrow>
             (case write_loop hi c
                (redisAppendCommand hi c (PUBLISH (c_str channel) (c_str message)) w) of
                None \<Rightarrow> None
              | Some (ok, w') \<Rightarrow> Some (Inr (ok, cmap, w')))))"

text \<open>
  \<^verbatim>\<open>while (!lock.try_lock_for(...)) publish("__UNLOCK_CHANNEL__", "unlock");\<close> makes the listener, which
  holds the lock while it waits for a reply, let go of it.
\<close>

partial_function (option) lock_loop ::
  "'w outside \<Rightarrow> pubsub \<Rightarrow> context_map \<times> 'w \<Rightarrow> (context_map \<times> 'w) run" where
  [code]: "lock_loop hi ps s =
     (case try_lock_for hi (this ps) (snd s) of (got, w) \<Rightarrow>
        if got then Some (Inr (fst s, w))
        else run_then (publish hi ps unlock_channel ''unlock'' (fst s, w))
               (\<lambda>r. lock_loop hi ps (snd r)))"

definition send_locked ::
  "'w outside \<Rightarrow> pubsub \<Rightarrow> redis_cmd \<Rightarrow> context_map \<times> 'w \<Rightarrow> (bool \<times> context_map \<times> 'w) run" where
  "send_locked hi ps cmd s =
     run_then (lock_loop hi ps s) (\<lambda>(cmap, w).
       case write_loop hi (redis_context ps) (redisAppendCommand hi (redis_context ps) cmd w) of
         None \<Rightarrow> None
       | Some (ok, w') \<Rightarrow> Some (Inr (ok, cmap, mtx_unlock hi (this ps) w')))"

definition subscribe ::
  "'w outside \<Rightarrow> pubsub \<Rightarrow> string \<Rightarrow> context_map \<times> 'w \<Rightarrow> (bool \<times> context_map \<times> 'w) run" where
  "subscribe hi ps channel s = send_locked hi ps (SUBSCRIBE (c_str channel)) s"

definition unsubscribe ::
  "'w outside \<Rightarrow> pubsub \<Rightarrow> string \<Rightarrow> context_map \<times> 'w \<Rightarrow> (bool \<times> context_map \<times> 'w) run" where
  "unsubscribe hi ps channel s = send_locked hi ps (UNSUBSCRIBE (c_str channel)) s"

text \<open>\<^verbatim>\<open>stop()\<close>: the flag is raised, then the unsubscription's traffic wakes the listener.\<close>

definition stop_pubsub ::
  "'w outside \<Rightarrow> pubsub \<Rightarrow> context_map \<times> 'w \<Rightarrow> (pubsub \<times> context_map \<times> 'w) run" where
  "stop_pubsub hi ps s =
     (let ps' = ps\<lparr>stop_flag := True\<rparr>
      in run_then (unsubscribe hi ps' unlock_channel s) (\<lambda>(_, s'). Some (Inr (ps', s'))))"

text \<open>The constructor's output loop does not look at the result of \<^verbatim>\<open>redisBufferWrite\<close>.\<close>

partial_function (option) ctor_write_loop :: "'w outside \<Rightarrow> ctx \<Rightarrow> 'w \<Rightarrow> 'w option" where
  [code]: "ctor_write_loop hi c w =
     (case redisBufferWrite hi c w of ((_, fin), w') \<Rightarrow>
        if fin then Some w' else ctor_write_loop hi c w')"

definition new_pubsub ::
  "'w outside \<Rightarrow> nat \<Rightarrow> string \<Rightarrow> int \<Rightarrow> 'w \<Rightarrow> (pubsub \<times> 'w) run" where
  "new_pubsub hi self h p w =
     (case createRedisContext hi h p w of
        (None, _) \<Rightarrow> Some (Inl ProgramAbort)
      | (Some c, w') \<Rightarrow>
          if redis_err hi w' c then Some (Inl ProgramAbort)
          else
            (case ctor_write_loop hi c (redisAppendCommand hi c (SUBSCRIBE unlock_channel) w') of
               None \<Rightarrow> None
             | Some w'' \<Rightarrow>
                 Some (Inr (\<lparr>this = self, host = h, port = p, redis_context = c, stop_flag = False\<rparr>,
                            w''))))"

section \<open>The listener\<close>

datatype listener_action = Ignore | Sleep200ms | Invoke string string

definition handle_reply :: "redis_reply \<Rightarrow> listener_action outcome" where
  "handle_reply reply =
     (if rtype reply = REDIS_REPLY_ARRAY \<and> length (element reply) = 3 then
        and_then (string_of (str (element reply ! 0))) (\<lambda>messageType.
          if messageType = ''message'' then
            and_then (string_of (str (element reply ! 1))) (\<lambda>channel.
            and_then (string_of (str (element reply ! 2))) (\<lambda>message.
              if channel = unlock_channel then Inr Sleep200ms else Inr (Invoke channel message)))
          else Inr Ignore)
      else Inr Ignore)"

text \<open>
  One turn of \<^verbatim>\<open>while (!stop_)\<close>, the callback acting on the state \<open>'s\<close> of its owner; the listener
  makes as many turns as the flag allows.
\<close>

definition listener_turn ::
  "'w outside \<Rightarrow> pubsub \<Rightarrow> (string \<Rightarrow> string \<Rightarrow> 's \<Rightarrow> 's run) \<Rightarrow> 'w \<times> 's \<Rightarrow> ('w \<times> 's) run" where
  "listener_turn hi ps callback s =
     (case redisGetReply hi (redis_context ps) (fst s) of ((ok, reply), w) \<Rightarrow>
        if \<not> ok then Some (Inr (w, snd s))
        else
          (case reply of
             None \<Rightarrow> Some (Inr (w, snd s))
           | Some r \<Rightarrow>
               (case handle_reply r of
                  Inl e \<Rightarrow> Some (Inl e)
                | Inr Ignore \<Rightarrow> Some (Inr (w, snd s))
                | Inr Sleep200ms \<Rightarrow> Some (Inr (w, snd s))
                | Inr (Invoke channel message) \<Rightarrow>
                    run_then (callback channel message (snd s)) (\<lambda>s'. Some (Inr (w, s'))))))"

fun messageListener ::
  "'w outside \<Rightarrow> pubsub \<Rightarrow> (string \<Rightarrow> string \<Rightarrow> 's \<Rightarrow> 's run) \<Rightarrow> nat \<Rightarrow> 'w \<times> 's \<Rightarrow> ('w \<times> 's) run" where
  "messageListener hi ps callback 0 s = Some (Inr s)"
| "messageListener hi ps callback (Suc turns) s =
     run_then (listener_turn hi ps callback s) (messageListener hi ps callback turns)"

end
