(* ===== verification/Redis_Memory.thy ===== *)
theory Redis_Memory
  imports Redis_Interface
begin

text \<open>
  A Redis server held in memory, with its connections, as an instance of the outside of the program:
  hashes, sets, subscriptions and message delivery for the commands the program issues, connections
  that can be broken or refused, output that needs several writes, and a lock that is granted after
  some refusals. It shows that the laws of \<open>redis_laws\<close> hold together, and serves the witnesses.
\<close>

section \<open>The state\<close>

record mem =
  m_hash :: "(string \<times> (string \<times> string) list) list"
  m_sets :: "(string, string) registry"
  m_subs :: "(string, ctx) registry"
  m_inbox :: "(ctx \<times> redis_reply) list"
  m_out :: "(ctx \<times> redis_cmd) list"
  m_sent :: "(ctx \<times> redis_cmd) list"
  m_next :: ctx
  m_broken :: "ctx list"
  m_refusing :: bool
  m_left :: "(ctx \<times> nat) list"
  m_waits :: "(nat \<times> nat) list"

definition mem_fresh :: mem where
  "mem_fresh = \<lparr>m_hash = [], m_sets = [], m_subs = [], m_inbox = [], m_out = [], m_sent = [],
     m_next = 0, m_broken = [], m_refusing = False, m_left = [], m_waits = []\<rparr>"

definition count_of :: "('a \<times> nat) list \<Rightarrow> 'a \<Rightarrow> nat" where
  "count_of m k = (case map_of m k of None \<Rightarrow> 0 | Some n \<Rightarrow> n)"

lemma count_of_update [simp]:
  "count_of (AList.update k n m) k' = (if k' = k then n else count_of m k')"
  by (simp add: count_of_def update_conv')

definition fields_at :: "mem \<Rightarrow> string \<Rightarrow> (string \<times> string) list" where
  "fields_at w k = (case map_of (m_hash w) k of None \<Rightarrow> [] | Some fs \<Rightarrow> fs)"

definition mem_ok :: "mem \<Rightarrow> ctx \<Rightarrow> bool" where
  "mem_ok w c \<longleftrightarrow> c < m_next w \<and> c \<notin> set (m_broken w)"

definition mem_pending :: "mem \<Rightarrow> ctx \<Rightarrow> redis_cmd list" where
  "mem_pending w c = map snd (filter (\<lambda>p. fst p = c) (m_out w))"

section \<open>The calls\<close>

definition mem_connect :: "string \<Rightarrow> int \<Rightarrow> mem \<Rightarrow> ctx option \<times> mem" where
  "mem_connect h p w =
     (let c = foldr max (map (Suc \<circ> fst) (m_out w)) (m_next w)
      in (Some c, w\<lparr>m_next := Suc c, m_broken := (if m_refusing w then [c] else []) @ m_broken w\<rparr>))"

fun mem_exec :: "redis_cmd \<Rightarrow> mem \<Rightarrow> redis_reply \<times> mem" where
  "mem_exec (HGET k f) w =
     (case map_of (fields_at w k) f of None \<Rightarrow> nil_reply | Some v \<Rightarrow> bulk_reply v, w)"
| "mem_exec (HSETNX k f v) w =
     (if map_of (fields_at w k) f = None
      then (int_reply 1, w\<lparr>m_hash := AList.update k ((f, v) # fields_at w k) (m_hash w)\<rparr>)
      else (int_reply 0, w))"
| "mem_exec (HKEYS k) w = (array_reply (map bulk_reply (remdups (map fst (fields_at w k)))), w)"
| "mem_exec (EXISTS k) w =
     (int_reply (if reg_members (m_sets w) k = [] \<and> fields_at w k = [] then 0 else 1), w)"
| "mem_exec (SADD k m) w =
     (int_reply (if m \<in> set (reg_members (m_sets w) k) then 0 else 1),
      w\<lparr>m_sets := reg_add k m (m_sets w)\<rparr>)"
| "mem_exec (SREM k m) w =
     (int_reply (if m \<in> set (reg_members (m_sets w) k) then 1 else 0),
      w\<lparr>m_sets := reg_del k m (m_sets w)\<rparr>)"
| "mem_exec (SCARD k) w = (int_reply (int (length (remdups (reg_members (m_sets w) k)))), w)"
| "mem_exec (DEL k) w =
     (int_reply (if reg_members (m_sets w) k = [] \<and> fields_at w k = [] then 0 else 1),
      w\<lparr>m_sets := AList.delete k (m_sets w), m_hash := AList.delete k (m_hash w)\<rparr>)"
| "mem_exec (SMEMBERS k) w =
     (array_reply (map bulk_reply (remdups (reg_members (m_sets w) k))), w)"
| "mem_exec _ w = (nil_reply, w)"

definition mem_command :: "ctx \<Rightarrow> redis_cmd \<Rightarrow> mem \<Rightarrow> redis_reply option \<times> mem" where
  "mem_command c cmd w =
     (if mem_ok w c then (case mem_exec cmd w of (r, w') \<Rightarrow> (Some r, w')) else (None, w))"

definition mem_append :: "ctx \<Rightarrow> redis_cmd \<Rightarrow> mem \<Rightarrow> mem" where
  "mem_append c cmd w = w\<lparr>m_out := m_out w @ [(c, cmd)], m_left := AList.update c 1 (m_left w)\<rparr>"

definition message_reply :: "string \<Rightarrow> string \<Rightarrow> redis_reply" where
  "message_reply ch msg = array_reply [bulk_reply ''message'', bulk_reply ch, bulk_reply msg]"

definition subscribe_reply :: "string \<Rightarrow> redis_reply" where
  "subscribe_reply ch = array_reply [bulk_reply ''subscribe'', bulk_reply ch, int_reply 1]"

definition mem_deliver :: "ctx \<times> redis_cmd \<Rightarrow> mem \<Rightarrow> mem" where
  "mem_deliver p w =
     (case p of (c, cmd) \<Rightarrow>
       (case cmd of
          PUBLISH ch msg \<Rightarrow>
            w\<lparr>m_inbox := m_inbox w @ map (\<lambda>c. (c, message_reply ch msg)) (reg_members (m_subs w) ch)\<rparr>
        | SUBSCRIBE ch \<Rightarrow>
            w\<lparr>m_subs := reg_add ch c (m_subs w), m_inbox := m_inbox w @ [(c, subscribe_reply ch)]\<rparr>
        | UNSUBSCRIBE ch \<Rightarrow> w\<lparr>m_subs := reg_del ch c (m_subs w)\<rparr>
        | _ \<Rightarrow> w))"

definition mem_write :: "ctx \<Rightarrow> mem \<Rightarrow> (bool \<times> bool) \<times> mem" where
  "mem_write c w =
     (if \<not> mem_ok w c then ((False, False), w)
      else if count_of (m_left w) c \<noteq> 0
      then ((True, False), w\<lparr>m_left := AList.update c (count_of (m_left w) c - 1) (m_left w)\<rparr>)
      else ((True, True),
        (fold mem_deliver (map (Pair c) (mem_pending w c)) w)
          \<lparr>m_sent := m_sent w @ map (Pair c) (mem_pending w c),
           m_out := filter (\<lambda>p. fst p \<noteq> c) (m_out w)\<rparr>))"

definition mem_get_reply :: "ctx \<Rightarrow> mem \<Rightarrow> (bool \<times> redis_reply option) \<times> mem" where
  "mem_get_reply c w =
     (if \<not> mem_ok w c then ((False, None), w)
      else case map_of (m_inbox w) c of
        None \<Rightarrow> ((True, None), w)
      | Some r \<Rightarrow> ((True, Some r), w\<lparr>m_inbox := remove1 (c, r) (m_inbox w)\<rparr>))"

definition mem_try_lock :: "nat \<Rightarrow> mem \<Rightarrow> bool \<times> mem" where
  "mem_try_lock m w =
     (if count_of (m_waits w) m = 0 then (True, w)
      else (False, w\<lparr>m_waits := AList.update m (count_of (m_waits w) m - 1) (m_waits w)\<rparr>))"

definition mem_hi :: "mem outside" where
  "mem_hi = \<lparr>redisConnect = mem_connect, redis_err = (\<lambda>w c. \<not> mem_ok w c),
     redisFree = (\<lambda>c w. w\<lparr>m_broken := c # m_broken w\<rparr>), redisCommand = mem_command,
     redisAppendCommand = mem_append, redisBufferWrite = mem_write, redisGetReply = mem_get_reply,
     try_lock_for = mem_try_lock, mtx_unlock = (\<lambda>m w. w)\<rparr>"

section \<open>The laws\<close>

definition mem_view :: "mem \<Rightarrow> view" where
  "mem_view w = \<lparr>
     v_db = \<lparr>db_hash = (\<lambda>k. map_of (fields_at w k)), db_set = (\<lambda>k. set (reg_members (m_sets w) k))\<rparr>,
     v_sent = m_sent w, v_pending = mem_pending w, v_up = {c. mem_ok w c},
     v_waits = count_of (m_waits w)\<rparr>"

lemma foldr_max_ge:
  "m \<le> foldr max xs m" "x \<in> set xs \<Longrightarrow> x \<le> foldr max xs m" for x :: nat
  by (induction xs) (auto simp: le_max_iff_disj)

lemma mem_pending_fresh:
  "mem_pending w (foldr max (map (Suc \<circ> fst) (m_out w)) (m_next w)) = []"
proof -
  let ?c = "foldr max (map (Suc \<circ> fst) (m_out w)) (m_next w)"
  have "fst p < ?c" if "p \<in> set (m_out w)" for p
    using foldr_max_ge(2) [of "Suc (fst p)" "map (Suc \<circ> fst) (m_out w)" "m_next w"] that by force
  then show ?thesis by (force simp: mem_pending_def filter_empty_conv)
qed

lemma mem_view_frame:
  assumes "m_hash w' = m_hash w" "m_sets w' = m_sets w" "m_sent w' = m_sent w"
    "m_out w' = m_out w" "m_waits w' = m_waits w"
  shows "mem_view w' = (mem_view w)\<lparr>v_up := v_up (mem_view w')\<rparr>"
  using assms by (simp add: mem_view_def fields_at_def mem_pending_def fun_eq_iff)

lemma mem_connect_law:
  assumes "mem_connect h p w = (r, w')"
  shows "mem_view w' = (mem_view w)\<lparr>v_up := v_up (mem_view w')\<rparr>
     \<and> v_up (mem_view w) \<subseteq> v_up (mem_view w') \<and> (\<forall>c. r = Some c \<longrightarrow> v_pending (mem_view w) c = [])"
proof -
  let ?c = "foldr max (map (Suc \<circ> fst) (m_out w)) (m_next w)"
  have r: "r = Some ?c"
    "w' = w\<lparr>m_next := Suc ?c, m_broken := (if m_refusing w then [?c] else []) @ m_broken w\<rparr>"
    using assms by (auto simp: mem_connect_def Let_def)
  have "m_next w \<le> ?c" by (rule foldr_max_ge)
  then have "v_up (mem_view w) \<subseteq> v_up (mem_view w')"
    by (auto simp: mem_view_def mem_ok_def r)
  moreover have "v_pending (mem_view w) ?c = []" by (simp add: mem_view_def mem_pending_fresh)
  moreover have "mem_view w' = (mem_view w)\<lparr>v_up := v_up (mem_view w')\<rparr>"
    by (rule mem_view_frame) (simp_all add: r)
  ultimately show ?thesis using r by simp
qed

lemma fields_at_simps [simp]:
  "fields_at (w\<lparr>m_hash := AList.update k fs (m_hash w)\<rparr>) k' = (if k' = k then fs else fields_at w k')"
  "fields_at (w\<lparr>m_sets := s\<rparr>) k' = fields_at w k'"
  "fields_at (w\<lparr>m_sets := s, m_hash := AList.delete k (m_hash w)\<rparr>) k' =
     (if k' = k then [] else fields_at w k')"
  by (simp_all add: fields_at_def update_conv' delete_conv')

lemma reg_members_delete [registry_simps]:
  "reg_members (AList.delete k m) k' = (if k' = k then [] else reg_members m k')"
  by (simp add: reg_members_def delete_conv')

lemma map_of_empty_iff: "map_of fs = Map.empty \<longleftrightarrow> fs = []"
  by (cases fs) auto

lemma mem_ok_simps [simp]:
  "mem_ok (w\<lparr>m_hash := h\<rparr>) c = mem_ok w c" "mem_ok (w\<lparr>m_sets := t\<rparr>) c = mem_ok w c"
  "mem_pending (w\<lparr>m_hash := h\<rparr>) c = mem_pending w c"
  "mem_pending (w\<lparr>m_sets := t\<rparr>) c = mem_pending w c"
  by (simp_all add: mem_ok_def mem_pending_def)

lemma mem_view_sets:
  "mem_view (w\<lparr>m_sets := t\<rparr>) =
     (mem_view w)\<lparr>v_db := (v_db (mem_view w))\<lparr>db_set := (\<lambda>k. set (reg_members t k))\<rparr>\<rparr>"
  by (simp add: mem_view_def fun_eq_iff)

lemma mem_view_hash:
  "mem_view (w\<lparr>m_hash := h\<rparr>) = (mem_view w)\<lparr>v_db := (v_db (mem_view w))
     \<lparr>db_hash := (\<lambda>k. map_of (fields_at (w\<lparr>m_hash := h\<rparr>) k))\<rparr>\<rparr>"
  by (simp add: mem_view_def fun_eq_iff)

lemma mem_db:
  "db_hash (v_db (mem_view w)) = (\<lambda>k. map_of (fields_at w k))"
  "db_set (v_db (mem_view w)) = (\<lambda>k. set (reg_members (m_sets w) k))"
  by (simp_all add: mem_view_def)

lemma mem_db_up: "c \<in> v_up (mem_view w) \<longleftrightarrow> mem_ok w c"
  by (simp add: mem_view_def)

lemma mem_exec_view:
  assumes "well_keyed cmd" and "mem_exec cmd w = (r, w')"
  shows "mem_view w' = (mem_view w)\<lparr>v_db := db_after cmd (v_db (mem_view w))\<rparr>"
proof (cases cmd)
  case (HSETNX k f v)
  show ?thesis
  proof (cases "map_of (fields_at w k) f = None")
    case True
    then show ?thesis using assms HSETNX by (auto simp: mem_view_hash mem_db fun_eq_iff)
  next
    case False
    then show ?thesis using assms HSETNX by (auto simp: mem_db)
  qed
next
  case (SADD k m)
  then show ?thesis using assms
    by (auto simp: mem_view_sets mem_db registry_simps fun_eq_iff)
next
  case (SREM k m)
  then show ?thesis using assms
    by (auto simp: mem_view_sets mem_db registry_simps fun_eq_iff)
next
  case (DEL k)
  have w': "w' = w\<lparr>m_sets := AList.delete k (m_sets w), m_hash := AList.delete k (m_hash w)\<rparr>"
    using assms DEL by simp
  have p: "mem_pending w' = mem_pending w" "mem_ok w' = mem_ok w"
    by (simp_all add: w' mem_pending_def mem_ok_def fun_eq_iff)
  have f: "(\<lambda>k'. map_of (fields_at w' k')) = (\<lambda>k'. map_of (fields_at w k'))(k := Map.empty)"
    by (simp add: w' fun_eq_iff)
  have t: "(\<lambda>k'. set (reg_members (m_sets w') k')) = (\<lambda>k'. set (reg_members (m_sets w) k'))(k := {})"
    by (simp add: w' fun_eq_iff registry_simps)
  have s: "m_sent w' = m_sent w" "m_waits w' = m_waits w" by (simp_all add: w')
  show ?thesis using p f t s DEL by (simp add: mem_view_def)
qed (use assms in simp_all)

lemma mem_exec_reply:
  assumes "well_keyed cmd" and "mem_exec cmd w = (r, w')"
  shows "db_replies cmd (v_db (mem_view w)) r"
proof (cases cmd)
  case (HKEYS k)
  have "set (remdups (map fst (fields_at w k))) = dom (map_of (fields_at w k))"
    by (simp add: dom_map_of_conv_image_fst)
  then have "\<exists>fs. distinct fs \<and> set fs = dom (map_of (fields_at w k))
      \<and> array_reply (map bulk_reply (remdups (map fst (fields_at w k)))) = array_reply (map bulk_reply fs)"
    by (metis distinct_remdups)
  then show ?thesis using assms HKEYS by (auto simp: mem_db)
next
  case (SMEMBERS k)
  then show ?thesis using assms
    by (auto simp: mem_db intro!: exI [of _ "remdups (reg_members (m_sets w) k)"])
next
  case (HGET k f)
  then show ?thesis using assms by (auto simp: mem_db split: option.split)
next
  case (HSETNX k f v)
  then show ?thesis using assms by (auto simp: mem_db split: if_splits)
qed (use assms in \<open>auto simp: mem_db map_of_empty_iff card_set\<close>)

lemma mem_deliver_frame:
  "m_hash (fold mem_deliver ps w) = m_hash w \<and> m_sets (fold mem_deliver ps w) = m_sets w
   \<and> m_next (fold mem_deliver ps w) = m_next w \<and> m_broken (fold mem_deliver ps w) = m_broken w
   \<and> m_waits (fold mem_deliver ps w) = m_waits w \<and> m_left (fold mem_deliver ps w) = m_left w"
  by (induction ps arbitrary: w) (auto simp: mem_deliver_def split: prod.split redis_cmd.split)

lemma mem_write_law:
  assumes "mem_ok w c" and "mem_write c w = ((ok, fin), w')"
  shows "ok \<and> (if fin
      then mem_view w' = (mem_view w)
        \<lparr>v_sent := v_sent (mem_view w) @ map (Pair c) (v_pending (mem_view w) c),
         v_pending := (v_pending (mem_view w))(c := [])\<rparr>
      else mem_view w' = mem_view w \<and> count_of (m_left w') c < count_of (m_left w) c)"
proof (cases "count_of (m_left w) c = 0")
  case True
  let ?d = "fold mem_deliver (map (Pair c) (mem_pending w c)) w"
  note fr = mem_deliver_frame [of "map (Pair c) (mem_pending w c)" w]
  have w': "w' = ?d\<lparr>m_sent := m_sent w @ map (Pair c) (mem_pending w c),
      m_out := filter (\<lambda>p. fst p \<noteq> c) (m_out w)\<rparr>" "ok" "fin"
    using assms True by (auto simp: mem_write_def)
  have "mem_pending w' = (mem_pending w)(c := [])"
    by (auto simp: w' mem_pending_def fun_eq_iff intro!: arg_cong [where f = "map snd"] filter_cong)
  moreover have "mem_ok w' = mem_ok w" using fr by (simp add: w' mem_ok_def fun_eq_iff)
  moreover have "fields_at w' = fields_at w" using fr by (simp add: w' fields_at_def fun_eq_iff)
  ultimately show ?thesis using w'(2,3) fr by (simp add: mem_view_def) (simp add: w')
next
  case False
  then have "w' = w\<lparr>m_left := AList.update c (count_of (m_left w) c - 1) (m_left w)\<rparr>" "ok" "\<not> fin"
    using assms by (auto simp: mem_write_def)
  with False show ?thesis
    by (simp add: mem_view_def fields_at_def mem_pending_def mem_ok_def fun_eq_iff)
qed

interpretation memory: redis_laws mem_hi mem_view "\<lambda>w. count_of (m_left w)"
proof
  fix w w' :: mem and c m :: nat and r :: "nat option" and cmd :: redis_cmd and ok fin :: bool
  show "finite (db_set (v_db (mem_view w)) k)" for k by (simp add: mem_db)
  show "c \<in> v_up (mem_view w) \<Longrightarrow> \<not> redis_err mem_hi w c" by (simp add: mem_view_def mem_hi_def)
  show "redisConnect mem_hi h p w = (r, w') \<Longrightarrow>
         mem_view w' = (mem_view w)\<lparr>v_up := v_up (mem_view w')\<rparr> \<and> v_up (mem_view w) \<subseteq> v_up (mem_view w')
         \<and> (\<forall>c. r = Some c \<longrightarrow> v_pending (mem_view w) c = [])" for h p
    using mem_connect_law by (simp add: mem_hi_def)
  show "\<exists>r w'. redisCommand mem_hi c cmd w = (Some r, w') \<and> db_replies cmd (v_db (mem_view w)) r
           \<and> mem_view w' = (mem_view w)\<lparr>v_db := db_after cmd (v_db (mem_view w))\<rparr>"
    if "c \<in> v_up (mem_view w)" "well_keyed cmd"
  proof -
    obtain r w' where e: "mem_exec cmd w = (r, w')" by fastforce
    then have "redisCommand mem_hi c cmd w = (Some r, w')"
      using that(1) by (simp add: mem_hi_def mem_command_def mem_view_def)
    with mem_exec_reply [OF that(2) e] mem_exec_view [OF that(2) e] show ?thesis by blast
  qed
  show "mem_view (redisAppendCommand mem_hi c cmd w) =
         (mem_view w)\<lparr>v_pending := (v_pending (mem_view w))(c := v_pending (mem_view w) c @ [cmd])\<rparr>"
    by (simp add: mem_hi_def mem_append_def mem_view_def fields_at_def mem_pending_def mem_ok_def
        fun_eq_iff)
  show "c \<in> v_up (mem_view w) \<Longrightarrow> redisBufferWrite mem_hi c w = ((ok, fin), w') \<Longrightarrow>
         ok \<and> (if fin
               then mem_view w' = (mem_view w)
                 \<lparr>v_sent := v_sent (mem_view w) @ map (Pair c) (v_pending (mem_view w) c),
                  v_pending := (v_pending (mem_view w))(c := [])\<rparr>
               else mem_view w' = mem_view w \<and> count_of (m_left w') c < count_of (m_left w) c)"
    using mem_write_law [of w c ok fin w'] by (simp add: mem_hi_def mem_db_up)
  show "redis_err mem_hi w c \<Longrightarrow> redisBufferWrite mem_hi c w = ((False, False), w)"
    by (simp add: mem_hi_def mem_write_def)
  show "redis_err mem_hi (redisAppendCommand mem_hi c cmd w) c' = redis_err mem_hi w c'" for c'
    by (simp add: mem_hi_def mem_append_def mem_ok_def)
  show "try_lock_for mem_hi m w = (True, w') \<Longrightarrow> mem_view w' = mem_view w"
    by (auto simp: mem_hi_def mem_try_lock_def split: if_splits)
  show "try_lock_for mem_hi m w = (False, w') \<Longrightarrow>
      \<exists>n. mem_view w' = (mem_view w)\<lparr>v_waits := (v_waits (mem_view w))(m := n)\<rparr> \<and> n < v_waits (mem_view w) m"
    by (auto simp: mem_hi_def mem_try_lock_def mem_view_def fields_at_def mem_pending_def mem_ok_def
        fun_eq_iff split: if_splits intro!: exI [of _ "count_of (m_waits w) m - 1"])
  show "mem_view (mtx_unlock mem_hi m w) = mem_view w" by (simp add: mem_hi_def)
qed

end
