(* ===== verification/Pubsub_Properties.thy ===== *)
theory Pubsub_Properties
  imports Pubsub Redis_Memory
begin

text \<open>
  What the channel does over working connections, proved once in the locale \<open>redis_laws\<close>: every
  output loop and every lock loop ends, publishing hands exactly one command to the caller's own
  connection, subscribing takes the lock first. Then the behaviour on broken connections, and the
  properties of the component.
\<close>

section \<open>Output\<close>

text \<open>The state of the outside after a command went out on a connection.\<close>

definition flushed :: "ctx \<Rightarrow> redis_cmd \<Rightarrow> view \<Rightarrow> view" where
  "flushed c cmd v = v\<lparr>v_sent := v_sent v @ map (Pair c) (v_pending v c @ [cmd]),
     v_pending := (v_pending v)(c := [])\<rparr>"

lemma flushed_simps [simp]:
  "v_db (flushed c cmd v) = v_db v"
  "v_pending (flushed c cmd v) = (v_pending v)(c := [])"
  "v_up (flushed c cmd v) = v_up v"
  "v_waits (flushed c cmd v) = v_waits v"
  by (simp_all add: flushed_def)

lemma flushed_sent:
  "v_pending v c = [] \<Longrightarrow> v_sent (flushed c cmd v) = v_sent v @ [(c, cmd)]"
  by (simp add: flushed_def)

definition unlock_note :: "ctx \<Rightarrow> ctx \<times> redis_cmd" where
  "unlock_note c = (c, PUBLISH unlock_channel ''unlock'')"

lemma c_str_literals [simp]:
  "c_str ''unlock'' = ''unlock''" "c_str unlock_channel = unlock_channel"
  by (simp_all add: c_str_def unlock_channel_def)

context redis_laws
begin

lemma write_loop_up:
  "c \<in> v_up (view w) \<Longrightarrow> \<exists>w'. write_loop hi c w = Some (True, w') \<and>
     view w' = (view w)\<lparr>v_sent := v_sent (view w) @ map (Pair c) (v_pending (view w) c),
       v_pending := (v_pending (view w))(c := [])\<rparr>"
proof (induction "unwritten w c" arbitrary: w rule: less_induct)
  case less
  obtain ok fin w' where e: "redisBufferWrite hi c w = ((ok, fin), w')" by (metis surj_pair)
  note l = write_up [OF less.prems e]
  show ?case
  proof (cases fin)
    case True
    then show ?thesis using l e by (subst write_loop.simps) simp
  next
    case False
    then have v: "view w' = view w" and u: "unwritten w' c < unwritten w c" using l by simp_all
    from less.hyps [OF u] less.prems v obtain w'' where "write_loop hi c w' = Some (True, w'')"
      "view w'' = (view w)\<lparr>v_sent := v_sent (view w) @ map (Pair c) (v_pending (view w) c),
         v_pending := (v_pending (view w))(c := [])\<rparr>" by auto
    then show ?thesis using False e l by (subst write_loop.simps) simp
  qed
qed

lemma write_command_up:
  assumes "c \<in> v_up (view w)"
  shows "\<exists>w'. write_loop hi c (redisAppendCommand hi c cmd w) = Some (True, w')
     \<and> view w' = flushed c cmd (view w)"
proof -
  have "c \<in> v_up (view (redisAppendCommand hi c cmd w))" using assms by (simp add: append)
  from write_loop_up [OF this] show ?thesis
    by (auto simp: append flushed_def)
qed

lemma publish_up:
  assumes "map_of cmap (this ps) = Some (Some c)" and "c \<in> v_up (view w)"
  shows "\<exists>w'. publish hi ps ch msg (cmap, w) = Some (Inr (True, cmap, w'))
     \<and> view w' = flushed c (PUBLISH (c_str ch) (c_str msg)) (view w)"
proof -
  from write_command_up [OF assms(2)] obtain w' where
    "write_loop hi c (redisAppendCommand hi c (PUBLISH (c_str ch) (c_str msg)) w) = Some (True, w')"
    "view w' = flushed c (PUBLISH (c_str ch) (c_str msg)) (view w)" by blast
  then show ?thesis using assms(1) by (simp add: publish_def getLocalContext_def)
qed

text \<open>The first publication of a thread opens its connection and keeps it.\<close>

lemma publish_first:
  assumes "map_of cmap (this ps) = None"
    and "redisConnect hi (c_str (host ps)) (port ps) w = (Some c, w1)" and "c \<in> v_up (view w1)"
  shows "\<exists>w'. publish hi ps ch msg (cmap, w) =
       Some (Inr (True, AList.update (this ps) (Some c) cmap, w'))
     \<and> view w' = flushed c (PUBLISH (c_str ch) (c_str msg)) (view w1)"
proof -
  from write_command_up [OF assms(3)] obtain w' where
    "write_loop hi c (redisAppendCommand hi c (PUBLISH (c_str ch) (c_str msg)) w1) = Some (True, w')"
    "view w' = flushed c (PUBLISH (c_str ch) (c_str msg)) (view w1)" by blast
  then show ?thesis using assms(1,2)
    by (simp add: publish_def getLocalContext_def createRedisContext_def)
qed

lemma write_loop_err: "redis_err hi w c \<Longrightarrow> write_loop hi c w = Some (False, w)"
  by (subst write_loop.simps) (simp add: write_err)

lemma publish_err:
  assumes "map_of cmap (this ps) = Some (Some c)" and "redis_err hi w c"
  shows "\<exists>w'. publish hi ps ch msg (cmap, w) = Some (Inr (False, cmap, w')) \<and> redis_err hi w' c
     \<and> (\<forall>c'. redis_err hi w' c' = redis_err hi w c')"
  using assms by (simp add: publish_def getLocalContext_def write_loop_err append_err)

section \<open>The lock\<close>

lemma lock_loop_up:
  "map_of cmap (this ps) = Some (Some c) \<Longrightarrow> c \<in> v_up (view w) \<Longrightarrow> v_pending (view w) c = [] \<Longrightarrow>
     \<exists>n m w'. lock_loop hi ps (cmap, w) = Some (Inr (cmap, w'))
       \<and> view w' = (view w)\<lparr>v_sent := v_sent (view w) @ replicate n (unlock_note c),
           v_waits := (v_waits (view w))(this ps := m)\<rparr>"
proof (induction "v_waits (view w) (this ps)" arbitrary: w rule: less_induct)
  case less
  obtain got w1 where t: "try_lock_for hi (this ps) w = (got, w1)" by (metis surj_pair)
  show ?case
  proof (cases got)
    case True
    then have v: "view w1 = view w" using lock_granted t by simp
    have "lock_loop hi ps (cmap, w) = Some (Inr (cmap, w1))"
      using True t by (subst lock_loop.simps) simp
    moreover have "view w1 = (view w)\<lparr>v_sent := v_sent (view w) @ replicate 0 (unlock_note c),
        v_waits := (v_waits (view w))(this ps := v_waits (view w) (this ps))\<rparr>"
      using v by simp
    ultimately show ?thesis by blast
  next
    case False
    then obtain n1 where v1: "view w1 = (view w)\<lparr>v_waits := (v_waits (view w))(this ps := n1)\<rparr>"
      "n1 < v_waits (view w) (this ps)" using lock_refused [of "this ps" w w1] t by auto
    have "c \<in> v_up (view w1)" using v1(1) less.prems(2) by simp
    from publish_up [OF less.prems(1) this, where ch = unlock_channel and msg = "''unlock''"]
    obtain w2 where p: "publish hi ps unlock_channel ''unlock'' (cmap, w1) =
        Some (Inr (True, cmap, w2))"
      "view w2 = flushed c (PUBLISH unlock_channel ''unlock'') (view w1)"
      by auto
    have "v_waits (view w2) (this ps) < v_waits (view w) (this ps)" using p(2) v1 by simp
    moreover have "c \<in> v_up (view w2)" "v_pending (view w2) c = []"
      using p(2) v1 less.prems by simp_all
    ultimately obtain n m w' where r: "lock_loop hi ps (cmap, w2) = Some (Inr (cmap, w'))"
      "view w' = (view w2)\<lparr>v_sent := v_sent (view w2) @ replicate n (unlock_note c),
           v_waits := (v_waits (view w2))(this ps := m)\<rparr>"
      using less.hyps less.prems(1) by blast
    have "lock_loop hi ps (cmap, w) = Some (Inr (cmap, w'))"
      using False t p(1) r(1) by (subst lock_loop.simps) simp
    moreover have "view w' = (view w)\<lparr>v_sent := v_sent (view w) @ replicate (Suc n) (unlock_note c),
           v_waits := (v_waits (view w))(this ps := m)\<rparr>"
      using r(2) p(2) v1(1) less.prems(3) by (simp add: flushed_def unlock_note_def fun_upd_idem)
    ultimately show ?thesis by blast
  qed
qed

lemma send_locked_up:
  assumes "map_of cmap (this ps) = Some (Some c)" and "c \<in> v_up (view w)" and "v_pending (view w) c = []"
    and "redis_context ps \<in> v_up (view w)" and "v_pending (view w) (redis_context ps) = []"
  shows "\<exists>n m w'. send_locked hi ps cmd (cmap, w) = Some (Inr (True, cmap, w'))
     \<and> view w' = (view w)\<lparr>v_sent := v_sent (view w) @ replicate n (unlock_note c)
           @ [(redis_context ps, cmd)], v_waits := (v_waits (view w))(this ps := m)\<rparr>"
proof -
  from lock_loop_up [OF assms(1-3)] obtain n m w1 where l:
    "lock_loop hi ps (cmap, w) = Some (Inr (cmap, w1))"
    "view w1 = (view w)\<lparr>v_sent := v_sent (view w) @ replicate n (unlock_note c),
           v_waits := (v_waits (view w))(this ps := m)\<rparr>" by blast
  have "redis_context ps \<in> v_up (view w1)" using l(2) assms(4) by simp
  from write_command_up [OF this] obtain w2 where
    "write_loop hi (redis_context ps) (redisAppendCommand hi (redis_context ps) cmd w1) = Some (True, w2)"
    "view w2 = flushed (redis_context ps) cmd (view w1)" by blast
  then have "send_locked hi ps cmd (cmap, w) = Some (Inr (True, cmap, mtx_unlock hi (this ps) w2))"
    "view (mtx_unlock hi (this ps) w2) = (view w)\<lparr>v_sent := v_sent (view w)
       @ replicate n (unlock_note c) @ [(redis_context ps, cmd)],
       v_waits := (v_waits (view w))(this ps := m)\<rparr>"
    using l assms(5) by (simp_all add: send_locked_def unlock flushed_def fun_upd_idem)
  then show ?thesis by blast
qed

end

section \<open>Subscriptions\<close>

text \<open>What a connection is subscribed to after the commands handed to the socket so far.\<close>

definition subscribed_after :: "ctx \<Rightarrow> string \<Rightarrow> bool \<Rightarrow> ctx \<times> redis_cmd \<Rightarrow> bool" where
  "subscribed_after c ch b p =
     (if p = (c, SUBSCRIBE ch) then True else if p = (c, UNSUBSCRIBE ch) then False else b)"

definition subscribed_to :: "(ctx \<times> redis_cmd) list \<Rightarrow> ctx \<Rightarrow> string \<Rightarrow> bool" where
  "subscribed_to log c ch = foldl (subscribed_after c ch) False log"

lemma subscribed_to_append [simp]:
  "subscribed_to (log @ [p]) c ch = subscribed_after c ch (subscribed_to log c ch) p"
  by (simp add: subscribed_to_def)

lemma subscribed_to_unlock_notes [simp]:
  "subscribed_to (log @ replicate n (unlock_note c')) c ch = subscribed_to log c ch"
proof -
  have "foldl (subscribed_after c ch) b (replicate n (unlock_note c')) = b" for b
    by (induction n) (simp_all add: subscribed_after_def unlock_note_def)
  then show ?thesis by (simp add: subscribed_to_def)
qed

lemma subscribed_to_locked [simp]:
  "subscribed_to (log @ replicate n (unlock_note c') @ [p]) c ch =
     subscribed_after c ch (subscribed_to log c ch) p"
  by (simp only: append.assoc [symmetric] subscribed_to_append subscribed_to_unlock_notes)

section \<open>Properties\<close>

text \<open>
  C15: over a working connection, publishing returns true and hands the socket exactly one command,
  a PUBLISH of the channel and of the message up to its first zero byte, after which nothing is left
  in the connection's output buffer.
\<close>

theorem publish_sends_one:
  assumes "redis_laws hi view unwritten"
    and "map_of cmap (this ps) = Some (Some c)"
    and "c \<in> v_up (view w)" and "v_pending (view w) c = []"
  shows "\<exists>w'. publish hi ps ch msg (cmap, w) = Some (Inr (True, cmap, w'))
     \<and> v_sent (view w') = v_sent (view w) @ [(c, PUBLISH (c_str ch) (c_str msg))]
     \<and> v_pending (view w') c = [] \<and> v_db (view w') = v_db (view w)"
proof -
  from redis_laws.publish_up [OF assms(1-3), of ch msg] assms(4) show ?thesis
    by (auto simp: flushed_sent)
qed

definition sample_pubsub :: pubsub where
  "sample_pubsub = \<lparr>this = 0, host = ''127.0.0.1'', port = 6379, redis_context = 0,
     stop_flag = False\<rparr>"

text \<open>Two open connections, 0 and 1; the lock of instance 0 is refused twice.\<close>

definition sample_mem :: mem where
  "sample_mem = mem_fresh\<lparr>m_next := 2, m_waits := [(0, 2)]\<rparr>"

lemma sample_mem_up [simp]:
  "0 \<in> v_up (mem_view sample_mem)" "Suc 0 \<in> v_up (mem_view sample_mem)"
  "v_pending (mem_view sample_mem) c = []"
  by (simp_all add: mem_view_def sample_mem_def mem_fresh_def mem_ok_def mem_pending_def)

theorem publish_sends_one_witness:
  "\<exists>w'. publish mem_hi sample_pubsub ''user.bob'' ''hi'' ([(0, Some 1)], sample_mem) =
       Some (Inr (True, [(0, Some 1)], w'))
     \<and> v_sent (mem_view w') = v_sent (mem_view sample_mem) @ [(1, PUBLISH (c_str ''user.bob'') (c_str ''hi''))]
     \<and> v_pending (mem_view w') 1 = [] \<and> v_db (mem_view w') = v_db (mem_view sample_mem)"
  by (rule publish_sends_one [OF memory.redis_laws_axioms]) (simp_all add: sample_pubsub_def)



section \<open>Broken connections\<close>

fun publish_all ::
  "'w outside \<Rightarrow> pubsub \<Rightarrow> (string \<times> string) list \<Rightarrow> context_map \<times> 'w \<Rightarrow>
     (bool list \<times> context_map \<times> 'w) run" where
  "publish_all hi ps [] s = Some (Inr ([], s))"
| "publish_all hi ps ((channel, message) # rest) s =
     run_then (publish hi ps channel message s) (\<lambda>(ok, s').
       run_then (publish_all hi ps rest s') (\<lambda>(oks, s''). Some (Inr (ok # oks, s''))))"

context redis_laws
begin

lemma publish_all_err:
  "map_of cmap (this ps) = Some (Some c) \<Longrightarrow> redis_err hi w c \<Longrightarrow>
     \<exists>w'. publish_all hi ps xs (cmap, w) = Some (Inr (replicate (length xs) False, cmap, w'))"
proof (induction xs arbitrary: w)
  case (Cons x xs)
  obtain ch m where x: "x = (ch, m)" by (cases x)
  from publish_err [OF Cons.prems, of ch m] obtain w1 where
    p: "publish hi ps ch m (cmap, w) = Some (Inr (False, cmap, w1))" "redis_err hi w1 c" by blast
  from Cons.IH [OF Cons.prems(1) p(2)] p(1) show ?case by (auto simp: x)
qed simp

end

text \<open>
  C17: a thread whose first connection of an instance came up broken publishes nothing through that
  instance ever after: the broken connection is kept, each of any sequence of publications returns
  false, and none of them tries to connect again.
\<close>

theorem broken_publisher_stays_broken:
  assumes "redis_laws hi view unwritten"
    and "map_of cmap (this ps) = None"
    and "redisConnect hi (c_str (host ps)) (port ps) w = (Some c, w1)" and "redis_err hi w1 c"
  shows "\<exists>w' cmap'. publish_all hi ps xs (cmap, w) = Some (Inr (replicate (length xs) False, cmap', w'))
     \<and> (xs \<noteq> [] \<longrightarrow> map_of cmap' (this ps) = Some (Some c))"
proof (cases xs)
  case (Cons x rest)
  obtain ch m where x: "x = (ch, m)" by (cases x)
  let ?cmap = "AList.update (this ps) (Some c) cmap"
  have keep: "map_of ?cmap (this ps) = Some (Some c)" by (simp add: update_conv')
  have first: "publish hi ps ch m (cmap, w) = publish hi ps ch m (?cmap, w1)"
    using assms(2,3) keep by (simp add: publish_def getLocalContext_def createRedisContext_def)
  from redis_laws.publish_all_err [OF assms(1) keep assms(4), of "(ch, m) # rest"] obtain w' where
    "publish_all hi ps ((ch, m) # rest) (?cmap, w1) =
       Some (Inr (replicate (length xs) False, ?cmap, w'))" by (auto simp: Cons)
  then have "publish_all hi ps xs (cmap, w) = Some (Inr (replicate (length xs) False, ?cmap, w'))"
    by (simp add: Cons x first)
  with keep show ?thesis by blast
qed simp

theorem broken_publisher_stays_broken_witness:
  "\<exists>w' cmap'. publish_all mem_hi sample_pubsub [(''a'', ''b''), (''c'', ''d'')]
        ([], mem_fresh\<lparr>m_refusing := True\<rparr>) =
       Some (Inr (replicate (length [(''a'', ''b''), (''c'', ''d'')]) False, cmap', w'))
     \<and> ([(''a'', ''b''), (''c'', ''d'')] \<noteq> [] \<longrightarrow> map_of cmap' (this sample_pubsub) = Some (Some 0))"
  by (rule broken_publisher_stays_broken [OF memory.redis_laws_axioms,
        where ?w1.0 = "mem_fresh\<lparr>m_refusing := True, m_next := 1, m_broken := [0]\<rparr>"])
    (simp_all add: sample_pubsub_def mem_hi_def mem_connect_def mem_fresh_def mem_ok_def)

section \<open>The constructor\<close>

context redis_laws
begin

lemma ctor_write_loop_up:
  "c \<in> v_up (view w) \<Longrightarrow> \<exists>w'. ctor_write_loop hi c w = Some w' \<and>
     view w' = (view w)\<lparr>v_sent := v_sent (view w) @ map (Pair c) (v_pending (view w) c),
       v_pending := (v_pending (view w))(c := [])\<rparr>"
proof (induction "unwritten w c" arbitrary: w rule: less_induct)
  case less
  obtain ok fin w' where e: "redisBufferWrite hi c w = ((ok, fin), w')" by (metis surj_pair)
  note l = write_up [OF less.prems e]
  show ?case
  proof (cases fin)
    case True
    then show ?thesis using l e by (subst ctor_write_loop.simps) simp
  next
    case False
    then have v: "view w' = view w" and u: "unwritten w' c < unwritten w c" using l by simp_all
    from less.hyps [OF u] less.prems v obtain w'' where "ctor_write_loop hi c w' = Some w''"
      "view w'' = (view w)\<lparr>v_sent := v_sent (view w) @ map (Pair c) (v_pending (view w) c),
         v_pending := (v_pending (view w))(c := [])\<rparr>" by auto
    then show ?thesis using False e by (subst ctor_write_loop.simps) simp
  qed
qed

end

text \<open>
  Over a connection that works the constructor returns an instance that receives on it, not
  stopped, and the connection is subscribed to the unlock channel and to nothing else.
\<close>

lemma constructor_subscribes:
  assumes "redis_laws hi view unwritten"
    and "redisConnect hi (c_str h) p w = (Some c, w1)" and "c \<in> v_up (view w1)"
    and "\<forall>ch. \<not> subscribed_to (v_sent (view w)) c ch"
  shows "\<exists>ps w'. new_pubsub hi self h p w = Some (Inr (ps, w')) \<and> this ps = self
     \<and> redis_context ps = c \<and> \<not> stop_flag ps
     \<and> (\<forall>ch. subscribed_to (v_sent (view w')) c ch \<longleftrightarrow> ch = unlock_channel)"
proof -
  let ?w2 = "redisAppendCommand hi c (SUBSCRIBE unlock_channel) w1"
  note laws = redis_laws.connect [OF assms(1,2)] redis_laws.append [OF assms(1)]
  have err: "\<not> redis_err hi w1 c" using redis_laws.up_no_err [OF assms(1,3)] .
  have free: "v_pending (view w) c = []" and v1: "view w1 = (view w)\<lparr>v_up := v_up (view w1)\<rparr>"
    using laws by auto
  have pend: "v_pending (view w1) c = []" using arg_cong [OF v1, of v_pending] free by simp
  have sent: "v_sent (view w1) = v_sent (view w)" using arg_cong [OF v1, of v_sent] by simp
  have "c \<in> v_up (view ?w2)" using assms(3) laws by simp
  from redis_laws.ctor_write_loop_up [OF assms(1) this] obtain w' where
    "ctor_write_loop hi c ?w2 = Some w'"
    "v_sent (view w') = v_sent (view w) @ [(c, SUBSCRIBE unlock_channel)]"
    using pend sent laws(2) by auto
  then show ?thesis
    using assms(2,4) err by (simp add: new_pubsub_def createRedisContext_def subscribed_after_def)
qed

text \<open>
  C18: a connection that breaks between the constructor's check and its output hangs the
  constructor: its output loop ignores the error and never sees the buffer written.
\<close>

theorem constructor_hangs_on_write_error:
  assumes "redisConnect hi (c_str h) p w = (Some c, w1)" and "\<not> redis_err hi w1 c"
    and "\<forall>w. fst (redisBufferWrite hi c w) = (False, False)"
  shows "new_pubsub hi self h p w = None"
proof -
  have "(\<forall>w. fst (redisBufferWrite hi c w) = (False, False)) \<longrightarrow> False"
    if "ctor_write_loop hi c w0 = Some w'" for w0 w'
    using that
    by (rule ctor_write_loop.raw_induct [rotated]) (auto split: prod.splits, metis fst_conv prod.inject)
  with assms(3) have "ctor_write_loop hi c w0 = None" for w0 by (meson not_Some_eq)
  with assms(1,2) show ?thesis by (simp add: new_pubsub_def createRedisContext_def)
qed

theorem constructor_hangs_on_write_error_witness:
  "new_pubsub (mem_hi\<lparr>redisBufferWrite := (\<lambda>c w. ((False, False), w))\<rparr>) 7 ''127.0.0.1'' 6379 mem_fresh
     = None"
  by (rule constructor_hangs_on_write_error [where ?w1.0 = "mem_fresh\<lparr>m_next := 1\<rparr>" and c = 0])
    (simp_all add: mem_hi_def mem_connect_def mem_fresh_def mem_ok_def c_str_def)

section \<open>The listener\<close>

text \<open>What a reply means to the owner of the channel, read off the shape of the reply.\<close>

fun messages_in :: "bool \<times> redis_reply option \<Rightarrow> (string \<times> string) list" where
  "messages_in (True, Some (Reply REDIS_REPLY_ARRAY _ _
     [Reply _ _ (Some kind) _, Reply _ _ (Some ch) _, Reply _ _ (Some msg) _])) =
     (if c_str kind = ''message'' \<and> c_str ch \<noteq> unlock_channel then [(c_str ch, c_str msg)] else [])"
| "messages_in _ = []"

text \<open>The connection yields these results of \<^verbatim>\<open>redisGetReply\<close> one after the other.\<close>

fun yields :: "'w outside \<Rightarrow> ctx \<Rightarrow> 'w \<Rightarrow> (bool \<times> redis_reply option) list \<Rightarrow> 'w \<Rightarrow> bool" where
  "yields hi c w [] w' = (w' = w)"
| "yields hi c w (r # rs) w' =
     (fst (redisGetReply hi c w) = r \<and> yields hi c (snd (redisGetReply hi c w)) rs w')"

text \<open>No string pointer that the listener reads is null.\<close>

definition readable :: "bool \<times> redis_reply option \<Rightarrow> bool" where
  "readable r = (case r of (True, Some reply) \<Rightarrow> handle_reply reply \<noteq> Inl NullDeref | _ \<Rightarrow> True)"

lemma string_of_simps [simp]: "string_of None = Inl NullDeref" "string_of (Some s) = Inr (c_str s)"
  by (simp_all add: string_of_def)

lemma handle_reply_messages:
  assumes "handle_reply reply \<noteq> Inl NullDeref"
  shows "handle_reply reply = Inr Ignore \<and> messages_in (True, Some reply) = []
    \<or> handle_reply reply = Inr Sleep200ms \<and> messages_in (True, Some reply) = []
    \<or> (\<exists>ch m. handle_reply reply = Inr (Invoke ch m) \<and> messages_in (True, Some reply) = [(ch, m)])"
proof (cases "rtype reply = REDIS_REPLY_ARRAY \<and> length (element reply) = 3")
  case True
  then obtain i z t1 i1 s1 e1 t2 i2 s2 e2 t3 i3 s3 e3 where r: "reply = Reply REDIS_REPLY_ARRAY i z
      [Reply t1 i1 s1 e1, Reply t2 i2 s2 e2, Reply t3 i3 s3 e3]"
    by (cases reply) (auto simp: length_Suc_conv numeral_3_eq_3, metis redis_reply.exhaust)
  show ?thesis using assms
    by (cases s1; cases s2; cases s3) (auto simp: r handle_reply_def split: if_splits)
next
  case False
  have "messages_in (True, Some reply) = []"
    using False by (cases "(True, Some reply)" rule: messages_in.cases) auto
  with False show ?thesis by (auto simp: handle_reply_def)
qed

text \<open>
  C19: whatever replies arrive, errors and foreign replies among them, the listener calls its owner
  back for exactly the messages of channels other than the unlock channel, once each and in the
  order of arrival, with channel and payload cut at their first zero byte.
\<close>

theorem listener_delivers_messages:
  assumes "yields hi (redis_context ps) w rs w'" and "\<forall>r \<in> set rs. readable r"
    and "\<And>ch m s. callback ch m s = Some (Inr (react ch m s))"
  shows "messageListener hi ps callback (length rs) (w, s) =
    Some (Inr (w', fold (\<lambda>(ch, m). react ch m) (concat (map messages_in rs)) s))"
  using assms(1,2)
proof (induction rs arbitrary: w s)
  case (Cons r rs)
  obtain ok reply where r: "r = (ok, reply)" by (cases r)
  obtain w1 where g: "redisGetReply hi (redis_context ps) w = ((ok, reply), w1)"
    using Cons.prems(1) r by (cases "redisGetReply hi (redis_context ps) w") auto
  have "listener_turn hi ps callback (w, s) =
      Some (Inr (w1, fold (\<lambda>(ch, m). react ch m) (messages_in r) s))"
  proof (cases "ok \<and> reply \<noteq> None")
    case True
    then obtain rep where rep: "reply = Some rep" "ok" by auto
    then have "handle_reply rep \<noteq> Inl NullDeref" using Cons.prems(2) r by (simp add: readable_def)
    from handle_reply_messages [OF this] show ?thesis
      using g rep r assms(3) by (auto simp: listener_turn_def)
  next
    case False
    then have "messages_in r = []" by (cases ok; cases reply) (auto simp: r)
    then show ?thesis using False g by (auto simp: listener_turn_def split: option.split)
  qed
  moreover have "messageListener hi ps callback (length rs)
      (w1, fold (\<lambda>(ch, m). react ch m) (messages_in r) s) = Some (Inr (w',
        fold (\<lambda>(ch, m). react ch m) (concat (map messages_in rs))
          (fold (\<lambda>(ch, m). react ch m) (messages_in r) s)))"
    using Cons.prems g r by (intro Cons.IH) auto
  ultimately show ?case by simp
qed simp

theorem listener_delivers_messages_witness:
  "messageListener mem_hi sample_pubsub (\<lambda>ch m s. Some (Inr (s @ [(ch, m)]))) 3
     (mem_fresh\<lparr>m_next := 1, m_inbox := [(0, subscribe_reply ''user.bob''),
        (0, message_reply unlock_channel ''unlock''), (0, message_reply ''user.bob'' ''hi'')]\<rparr>, []) =
   Some (Inr (mem_fresh\<lparr>m_next := 1\<rparr>, [(''user.bob'', ''hi'')]))"
proof -
  let ?rs = "[(True, Some (subscribe_reply ''user.bob'')),
    (True, Some (message_reply unlock_channel ''unlock'')),
    (True, Some (message_reply ''user.bob'' ''hi''))]"
  let ?w = "mem_fresh\<lparr>m_next := 1, m_inbox := [(0, subscribe_reply ''user.bob''),
        (0, message_reply unlock_channel ''unlock''), (0, message_reply ''user.bob'' ''hi'')]\<rparr>"
  have y: "yields mem_hi (redis_context sample_pubsub) ?w ?rs (mem_fresh\<lparr>m_next := 1\<rparr>)"
    by (simp add: mem_hi_def mem_get_reply_def mem_fresh_def mem_ok_def sample_pubsub_def)
  have "\<forall>r \<in> set ?rs. readable r"
    by (simp add: readable_def handle_reply_def subscribe_reply_def message_reply_def
        numeral_2_eq_2 c_str_def)
  from listener_delivers_messages [OF y this,
      where callback = "\<lambda>ch m s. Some (Inr (s @ [(ch, m)]))" and react = "\<lambda>ch m s. s @ [(ch, m)]" and s = "[]"]
  show ?thesis
    by (simp add: subscribe_reply_def message_reply_def c_str_def unlock_channel_def numeral_3_eq_3)
qed

end
