(* ===== verification/Dispatcher.thy ===== *)
theory Dispatcher
  imports Chat_Messages
begin

text \<open>
  The message dispatcher of \<^verbatim>\<open>dispatcher.h\<close>: a map from message descriptors to typed callbacks, with
  a default callback. A callback acts on a state \<open>'s\<close> and may not return or may fault. The template
  argument \<open>T\<close> of \<^verbatim>\<open>CallbackT\<close> and of \<^verbatim>\<open>registerMessageCallback\<close> contributes its descriptor
  and its \<^verbatim>\<open>dynamic_cast\<close>, which yields a null pointer for a message of another type.
\<close>

section \<open>Callbacks\<close>

type_synonym ('m, 's) message_callback = "'m \<Rightarrow> 's \<Rightarrow> 's run"

definition CallbackT_onMessage ::
  "('m \<Rightarrow> 't option) \<Rightarrow> ('t, 's) message_callback \<Rightarrow> ('m, 's) message_callback" where
  "CallbackT_onMessage down_cast callback message s =
     (case down_cast message of
        None \<Rightarrow> Some (Inl AssertFailed)
      | Some concrete \<Rightarrow> callback concrete s)"

record ('m, 'd, 's) dispatcher =
  callbacks :: "('d \<times> ('m, 's) message_callback) list"
  defaultCallback :: "('m, 's) message_callback"

definition new_dispatcher :: "('m, 's) message_callback \<Rightarrow> ('m, 'd, 's) dispatcher" where
  "new_dispatcher defaultCb = \<lparr>callbacks = [], defaultCallback = defaultCb\<rparr>"

definition registerMessageCallback ::
  "'d \<Rightarrow> ('m \<Rightarrow> 't option) \<Rightarrow> ('t, 's) message_callback \<Rightarrow>
     ('m, 'd, 's) dispatcher \<Rightarrow> ('m, 'd, 's) dispatcher" where
  "registerMessageCallback T down_cast callback d =
     d\<lparr>callbacks := AList.update T (CallbackT_onMessage down_cast callback) (callbacks d)\<rparr>"

definition onProtobufMessage ::
  "('m \<Rightarrow> 'd) \<Rightarrow> ('m, 'd, 's) dispatcher \<Rightarrow> ('m, 's) message_callback" where
  "onProtobufMessage GetDescriptor d message s =
     (case map_of (callbacks d) (GetDescriptor message) of
        Some callback \<Rightarrow> callback message s
      | None \<Rightarrow> defaultCallback d message s)"

section \<open>Dispatching\<close>

text \<open>
  A dispatcher serves a type with a handler when every message of that type reaches the handler as
  a concrete message, whatever the state.
\<close>

definition casts_to :: "('m \<Rightarrow> 'd) \<Rightarrow> 'd \<Rightarrow> ('m \<Rightarrow> 't option) \<Rightarrow> bool" where
  "casts_to GetDescriptor T down_cast \<longleftrightarrow> (\<forall>m. down_cast m \<noteq> None \<longleftrightarrow> GetDescriptor m = T)"

lemma onProtobufMessage_new [simp]:
  "onProtobufMessage desc (new_dispatcher cb) m s = cb m s"
  by (simp add: onProtobufMessage_def new_dispatcher_def)

lemma onProtobufMessage_register:
  "onProtobufMessage desc (registerMessageCallback T down cb d) m s =
     (if desc m = T then CallbackT_onMessage down cb m s else onProtobufMessage desc d m s)"
  by (simp add: onProtobufMessage_def registerMessageCallback_def update_conv'
    split: option.split)

lemma CallbackT_onMessage_cast:
  "casts_to desc T down \<Longrightarrow> desc m = T \<Longrightarrow>
     \<exists>concrete. down m = Some concrete \<and> CallbackT_onMessage down cb m s = cb concrete s"
  by (fastforce simp: casts_to_def CallbackT_onMessage_def)

text \<open>
  The typed interface: registering a type whose cast fits its descriptor routes exactly the messages
  of that type, leaves every other route alone, and a later registration replaces an earlier one.
\<close>

locale typed_message =
  fixes GetDescriptor :: "'m \<Rightarrow> 'd"
    and T :: 'd
    and down_cast :: "'m \<Rightarrow> 't option"
    and embed :: "'t \<Rightarrow> 'm"
  assumes cast: "casts_to GetDescriptor T down_cast"
    and cast_embed: "down_cast (embed c) = Some c"
begin

lemma descriptor_embed: "GetDescriptor (embed c) = T"
  using cast cast_embed [of c] by (auto simp: casts_to_def)

lemma routed:
  "onProtobufMessage GetDescriptor (registerMessageCallback T down_cast cb d) (embed c) s = cb c s"
  by (simp add: onProtobufMessage_register descriptor_embed CallbackT_onMessage_def cast_embed)

lemma not_routed:
  "GetDescriptor m \<noteq> T \<Longrightarrow>
     onProtobufMessage GetDescriptor (registerMessageCallback T down_cast cb d) m s =
     onProtobufMessage GetDescriptor d m s"
  by (simp add: onProtobufMessage_register)

lemma overridden:
  "onProtobufMessage GetDescriptor
     (registerMessageCallback T down_cast cb2 (registerMessageCallback T down_cast cb1 d)) m s =
   onProtobufMessage GetDescriptor (registerMessageCallback T down_cast cb2 d) m s"
  by (simp add: onProtobufMessage_register)

end

section \<open>The casts of the protocol's messages\<close>

definition as_TextMessage :: "chat_msg \<Rightarrow> text_message option" where
  "as_TextMessage m = (case m of TextMessage c \<Rightarrow> Some c | _ \<Rightarrow> None)"
definition as_TextMessageResponse :: "chat_msg \<Rightarrow> status_response option" where
  "as_TextMessageResponse m = (case m of TextMessageResponse c \<Rightarrow> Some c | _ \<Rightarrow> None)"
definition as_LoginRequest :: "chat_msg \<Rightarrow> credentials option" where
  "as_LoginRequest m = (case m of LoginRequest c \<Rightarrow> Some c | _ \<Rightarrow> None)"
definition as_LoginResponse :: "chat_msg \<Rightarrow> login_response option" where
  "as_LoginResponse m = (case m of LoginResponse c \<Rightarrow> Some c | _ \<Rightarrow> None)"
definition as_LogoutRequest :: "chat_msg \<Rightarrow> string option" where
  "as_LogoutRequest m = (case m of LogoutRequest c \<Rightarrow> Some c | _ \<Rightarrow> None)"
definition as_LogoutResponse :: "chat_msg \<Rightarrow> status_response option" where
  "as_LogoutResponse m = (case m of LogoutResponse c \<Rightarrow> Some c | _ \<Rightarrow> None)"
definition as_RegisterRequest :: "chat_msg \<Rightarrow> credentials option" where
  "as_RegisterRequest m = (case m of RegisterRequest c \<Rightarrow> Some c | _ \<Rightarrow> None)"
definition as_RegisterResponse :: "chat_msg \<Rightarrow> status_response option" where
  "as_RegisterResponse m = (case m of RegisterResponse c \<Rightarrow> Some c | _ \<Rightarrow> None)"
definition as_SearchRequest :: "chat_msg \<Rightarrow> search_request option" where
  "as_SearchRequest m = (case m of SearchRequest c \<Rightarrow> Some c | _ \<Rightarrow> None)"
definition as_SearchResponse :: "chat_msg \<Rightarrow> string list option" where
  "as_SearchResponse m = (case m of SearchResponse c \<Rightarrow> Some c | _ \<Rightarrow> None)"
definition as_GroupRequest :: "chat_msg \<Rightarrow> group_request option" where
  "as_GroupRequest m = (case m of GroupRequest c \<Rightarrow> Some c | _ \<Rightarrow> None)"
definition as_GroupResponse :: "chat_msg \<Rightarrow> group_response option" where
  "as_GroupResponse m = (case m of GroupResponse c \<Rightarrow> Some c | _ \<Rightarrow> None)"

lemmas cast_defs = casts_to_def as_TextMessage_def as_TextMessageResponse_def as_LoginRequest_def
  as_LoginResponse_def as_LogoutRequest_def as_LogoutResponse_def as_RegisterRequest_def
  as_RegisterResponse_def as_SearchRequest_def as_SearchResponse_def as_GroupRequest_def
  as_GroupResponse_def

interpretation text_message: typed_message descriptor_of TTextMessage as_TextMessage TextMessage
  by unfold_locales (auto simp: cast_defs split: chat_msg.splits)
interpretation text_message_response:
  typed_message descriptor_of TTextMessageResponse as_TextMessageResponse TextMessageResponse
  by unfold_locales (auto simp: cast_defs split: chat_msg.splits)
interpretation login_request: typed_message descriptor_of TLoginRequest as_LoginRequest LoginRequest
  by unfold_locales (auto simp: cast_defs split: chat_msg.splits)
interpretation login_resp: typed_message descriptor_of TLoginResponse as_LoginResponse LoginResponse
  by unfold_locales (auto simp: cast_defs split: chat_msg.splits)
interpretation logout_request: typed_message descriptor_of TLogoutRequest as_LogoutRequest LogoutRequest
  by unfold_locales (auto simp: cast_defs split: chat_msg.splits)
interpretation logout_response:
  typed_message descriptor_of TLogoutResponse as_LogoutResponse LogoutResponse
  by unfold_locales (auto simp: cast_defs split: chat_msg.splits)
interpretation register_request:
  typed_message descriptor_of TRegisterRequest as_RegisterRequest RegisterRequest
  by unfold_locales (auto simp: cast_defs split: chat_msg.splits)
interpretation register_response:
  typed_message descriptor_of TRegisterResponse as_RegisterResponse RegisterResponse
  by unfold_locales (auto simp: cast_defs split: chat_msg.splits)
interpretation search_req: typed_message descriptor_of TSearchRequest as_SearchRequest SearchRequest
  by unfold_locales (auto simp: cast_defs split: chat_msg.splits)
interpretation search_response:
  typed_message descriptor_of TSearchResponse as_SearchResponse SearchResponse
  by unfold_locales (auto simp: cast_defs split: chat_msg.splits)
interpretation group_req: typed_message descriptor_of TGroupRequest as_GroupRequest GroupRequest
  by unfold_locales (auto simp: cast_defs split: chat_msg.splits)
interpretation group_resp: typed_message descriptor_of TGroupResponse as_GroupResponse GroupResponse
  by unfold_locales (auto simp: cast_defs split: chat_msg.splits)

end
