(* ===== verification/Network.thy ===== *)
theory Network
  imports Dispatcher
begin

text \<open>
  What the programs do to the network: connections, each owned by the event loop of one thread, and
  the effects on them in order. \<open>send\<close> is the codec's \<^verbatim>\<open>send\<close>: the message is framed into an empty
  buffer and the bytes go out on the connection.
\<close>

type_synonym chat_codec = "(chat_msg, chat_type) codec_env"

datatype conn = Conn (conn_id: nat) (getLoop: nat)

datatype effect = Send conn "byte list" | Shutdown conn

definition send :: "('m, 'd) codec_env \<Rightarrow> conn \<Rightarrow> 'm \<Rightarrow> effect list \<Rightarrow> effect list run" where
  "send env conn message out =
     (case fillEmptyBuffer env [] message of
        Inl e \<Rightarrow> Some (Inl e)
      | Inr bytes \<Rightarrow> Some (Inr (out @ [Send conn bytes])))"

text \<open>
  The loops of a server with so many threads. Without threads of its own it runs in the loop of
  \<^verbatim>\<open>main\<close>, number 0.
\<close>

definition io_loops :: "nat \<Rightarrow> nat list" where
  "io_loops numThreads = (if numThreads = 0 then [0] else [1..<Suc numThreads])"

text \<open>A pointer that is read without a check.\<close>

definition deref :: "'a option \<Rightarrow> 'a run" where
  "deref p = (case p of None \<Rightarrow> Some (Inl NullDeref) | Some v \<Rightarrow> Some (Inr v))"

lemma deref_simps [simp]:
  "deref None = Some (Inl NullDeref)" "deref (Some v) = Some (Inr v)"
  by (simp_all add: deref_def)

text \<open>
  A message can be framed when the codec's own checks pass; \<open>framed\<close> lists the sends of messages
  that can, one after the other.
\<close>

definition frame_of :: "('m, 'd) codec_env \<Rightarrow> 'm \<Rightarrow> byte list" where
  "frame_of env m = (case fillEmptyBuffer env [] m of Inr bytes \<Rightarrow> bytes | Inl _ \<Rightarrow> [])"

definition can_frame :: "('m, 'd) codec_env \<Rightarrow> 'm \<Rightarrow> bool" where
  "can_frame env m \<longleftrightarrow> fillEmptyBuffer env [] m = Inr (frame_of env m)"

definition framed :: "('m, 'd) codec_env \<Rightarrow> conn \<Rightarrow> 'm list \<Rightarrow> effect list" where
  "framed env c ms = map (\<lambda>m. Send c (frame_of env m)) ms"

lemma framed_simps [simp]:
  "framed env c [] = []" "framed env c (m # ms) = Send c (frame_of env m) # framed env c ms"
  "framed env c (ms @ ms') = framed env c ms @ framed env c ms'"
  by (simp_all add: framed_def)

lemma send_can_frame [simp]: "can_frame env m \<Longrightarrow> send env c m out = Some (Inr (out @ framed env c [m]))"
  by (simp add: send_def can_frame_def)

lemma send_returns: "send env c m out = Some (Inr out') \<Longrightarrow> can_frame env m \<and> out' = out @ framed env c [m]"
  by (auto simp: send_def can_frame_def frame_of_def split: sum.splits)

end
