(* ===== verification/Client.thy ===== *)
theory Client
  imports AC_Automaton Network
begin

text \<open>
  The chat client of \<^verbatim>\<open>client.cc\<close>: the commands a user types, the handlers of the server's messages,
  and the text it prints. \<open>client\<close> holds the fields of \<^verbatim>\<open>ChatClient\<close>, the effects on the network and
  the text on the screen. Each access to a guarded field is inside one step, as the locks make it.
  Log lines are not modelled. The debug build is modelled.
\<close>

section \<open>Reading a line\<close>

text \<open>\<^verbatim>\<open>iss >> word\<close>: white space is skipped, then the word is everything up to white space.\<close>

definition next_word :: "string \<Rightarrow> string \<times> string" where
  "next_word iss =
     (let s = dropWhile is_space iss
      in (takeWhile (\<lambda>c. \<not> is_space c) s, dropWhile (\<lambda>c. \<not> is_space c) s))"

section \<open>State\<close>

record client =
  connection :: "conn option"
  username :: string
  ac :: heap
  effects :: "effect list"
  screen :: string

type_synonym client_step = "client \<Rightarrow> client run"

text \<open>The keywords, as the bytes of their UTF-8 literals.\<close>

definition client_words :: "string list" where
  "client_words = [
     ''Steve Jobs'',
     ''Tim Cook'',
     ''Jony Ive'',
     ''Apple Inc.'',
     ''iPhone'',
     ''iPad'',
     ''MacBook'',
     ''iMac'',
     ''Apple Watch'',
     ''iOS'',
     ''macOS'',
     ''Safari'',
     ''Apple Music'',
     ''HomePod'',
     ''iCloud'',
     [CHR 0xE4, CHR 0xB9, CHR 0x94, CHR 0xE5, CHR 0xB8, CHR 0x83, CHR 0xE6, CHR 0x96, CHR 0xAF],
     [CHR 0xE8, CHR 0x92, CHR 0x82, CHR 0xE5, CHR 0xA7, CHR 0x86, CHR 0xC2, CHR 0xB7, CHR 0xE5, CHR 0xBA, CHR 0x93, CHR 0xE5, CHR 0x85, CHR 0x8B],
     [CHR 0xE5, CHR 0xBC, CHR 0xBA, CHR 0xE5, CHR 0xB0, CHR 0xBC, CHR 0xC2, CHR 0xB7, CHR 0xE8, CHR 0x89, CHR 0xBE, CHR 0xE7, CHR 0xBB, CHR 0xB4],
     [CHR 0xE8, CHR 0x8B, CHR 0xB9, CHR 0xE6, CHR 0x9E, CHR 0x9C, CHR 0xE5, CHR 0x85, CHR 0xAC, CHR 0xE5, CHR 0x8F, CHR 0xB8],
     [CHR 0xE8, CHR 0x8B, CHR 0xB9, CHR 0xE6, CHR 0x9E, CHR 0x9C, CHR 0xE6, CHR 0x89, CHR 0x8B, CHR 0xE6, CHR 0x9C, CHR 0xBA],
     [CHR 0xE8, CHR 0x8B, CHR 0xB9, CHR 0xE6, CHR 0x9E, CHR 0x9C, CHR 0xE5, CHR 0xB9, CHR 0xB3, CHR 0xE6, CHR 0x9D, CHR 0xBF],
     [CHR 0xE9, CHR 0xBA, CHR 0xA6, CHR 0xE9, CHR 0x87, CHR 0x91, CHR 0xE5, CHR 0xA1, CHR 0x94, CHR 0xE7, CHR 0x94, CHR 0xB5, CHR 0xE8, CHR 0x84, CHR 0x91]]"

definition ChatClient :: "client run" where
  "ChatClient =
     run_then (make_filter client_words) (\<lambda>h.
       Some (Inr \<lparr>connection = None, username = ''guest'', ac = h, effects = [], screen = ''''\<rparr>))"

text \<open>\<^verbatim>\<open>codec_.send(connection_, request)\<close> and a \<^verbatim>\<open>printf\<close> of text already formatted.\<close>

definition client_send :: "chat_codec \<Rightarrow> chat_msg \<Rightarrow> client_step" where
  "client_send env request s =
     run_then (deref (connection s)) (\<lambda>c.
     run_then (send env c request (effects s)) (\<lambda>out. Some (Inr (s\<lparr>effects := out\<rparr>))))"

definition print :: "string \<Rightarrow> client \<Rightarrow> client" where
  "print text s = s\<lparr>screen := screen s @ text @ [CHR 0x0A]\<rparr>"

section \<open>Commands\<close>

definition cmd_register :: "chat_codec \<Rightarrow> string \<Rightarrow> client_step" where
  "cmd_register env iss s =
     (let (name, iss) = next_word iss; (password, iss) = next_word iss
      in client_send env (RegisterRequest \<lparr>cr_username = name, cr_password = password\<rparr>) s)"

text \<open>Leaving the current session, if there is one, before another login.\<close>

definition leave_session :: "chat_codec \<Rightarrow> client_step" where
  "leave_session env s =
     (if username s \<noteq> ''guest'' then
        run_then (client_send env (LogoutRequest (username s)) s)
          (\<lambda>s. Some (Inr (s\<lparr>username := ''guest''\<rparr>)))
      else Some (Inr s))"

definition cmd_login :: "chat_codec \<Rightarrow> string \<Rightarrow> client_step" where
  "cmd_login env iss s =
     (let (name, iss) = next_word iss; (password, iss) = next_word iss
      in if name = username s then Some (Inr s)
         else run_then (leave_session env s)
           (client_send env (LoginRequest \<lparr>cr_username = name, cr_password = password\<rparr>)))"

definition cmd_send :: "chat_codec \<Rightarrow> string \<Rightarrow> client_step" where
  "cmd_send env iss s =
     (let (target_type, iss) = next_word iss;
          (target, iss) = next_word iss;
          (content, iss) = next_word iss
      in if target_type = ''user'' then
           client_send env (TextMessage \<lparr>tm_sender = username s, tm_content = content,
             tm_target = target, tm_target_type = USER\<rparr>) s
         else if target_type = ''group'' then
           client_send env (TextMessage \<lparr>tm_sender = username s, tm_content = content,
             tm_target = target, tm_target_type = GROUP\<rparr>) s
         else Some (Inr s))"

definition cmd_search :: "chat_codec \<Rightarrow> bool \<Rightarrow> string \<Rightarrow> client_step" where
  "cmd_search env online_only iss s =
     (let (keyword, iss) = next_word iss
      in client_send env (SearchRequest \<lparr>sq_keyword = keyword, sq_online_only = online_only\<rparr>) s)"

definition group_operation_of :: "string \<Rightarrow> GroupOperation option" where
  "group_operation_of operation =
     (if operation = ''create'' then Some CREATE
      else if operation = ''join'' then Some JOIN
      else if operation = ''leave'' then Some LEAVE
      else if operation = ''query'' then Some QUERY
      else None)"

definition cmd_group :: "chat_codec \<Rightarrow> string \<Rightarrow> client_step" where
  "cmd_group env iss s =
     (if username s = ''guest'' then Some (Inr s)
      else
        (let (operation, iss) = next_word iss; (group_name, iss) = next_word iss
         in case group_operation_of operation of
              Some g \<Rightarrow> client_send env (GroupRequest
                \<lparr>gq_operation = g, gq_group_name = group_name, gq_username = username s\<rparr>) s
            | None \<Rightarrow> Some (Inr s)))"

definition cmd_logout :: "chat_codec \<Rightarrow> client_step" where
  "cmd_logout env s =
     (if username s \<noteq> ''guest'' then
        run_then (client_send env (LogoutRequest (username s)) s)
          (\<lambda>s. Some (Inr (s\<lparr>username := ''guest''\<rparr>)))
      else Some (Inr s))"

definition processCommand :: "chat_codec \<Rightarrow> string \<Rightarrow> client_step" where
  "processCommand env line s =
     (let (cmd, iss) = next_word line
      in if cmd = ''register'' then cmd_register env iss s
         else if cmd = ''login'' then cmd_login env iss s
         else if cmd = ''send'' then cmd_send env iss s
         else if cmd = ''search'' then cmd_search env False iss s
         else if cmd = ''search-online'' then cmd_search env True iss s
         else if cmd = ''group'' then cmd_group env iss s
         else if cmd = ''logout'' then cmd_logout env s
         else Some (Inr s))"

text \<open>\<^verbatim>\<open>ChatClient::send\<close>: a line typed while there is no connection is dropped.\<close>

definition client_line :: "chat_codec \<Rightarrow> string \<Rightarrow> client_step" where
  "client_line env line s = (if connection s \<noteq> None then processCommand env line s else Some (Inr s))"

section \<open>Messages of the server\<close>

definition client_onConnection :: "conn \<Rightarrow> bool \<Rightarrow> client_step" where
  "client_onConnection conn connected s =
     Some (Inr (s\<lparr>connection := (if connected then Some conn else None)\<rparr>))"

definition onTextMessageResponse :: "status_response \<Rightarrow> client_step" where
  "onTextMessageResponse message s = Some (Inr s)"

definition onLoginResponse :: "login_response \<Rightarrow> client_step" where
  "onLoginResponse message s =
     Some (Inr (if lr_success message then s\<lparr>username := lr_username message\<rparr> else s))"

definition onLogoutResponse :: "status_response \<Rightarrow> client_step" where
  "onLogoutResponse message s = Some (Inr s)"

definition onRegisterResponse :: "status_response \<Rightarrow> client_step" where
  "onRegisterResponse message s = Some (Inr s)"

definition onSearchResponse :: "string list \<Rightarrow> client_step" where
  "onSearchResponse usernames s =
     Some (Inr (fold (\<lambda>name. print (''>>> - '' @ c_str name)) usernames
       (print ''>>> Search Result:'' s)))"

definition onGroupResponse :: "group_response \<Rightarrow> client_step" where
  "onGroupResponse message s =
     (let s = print (''>>> User '' @ c_str (username s) @ [CHR 0x27] @ ''s Groups:'') s
      in Some (Inr
        (if gr_joined_groups message \<noteq> []
         then fold (\<lambda>group. print (''>>> - '' @ c_str group)) (gr_joined_groups message) s
         else print ''>>> (No groups)'' s)))"

definition client_onTextMessage :: "text_message \<Rightarrow> client_step" where
  "client_onTextMessage message s =
     (let group = (case tm_target_type message of
            USER \<Rightarrow> ''private'' | GROUP \<Rightarrow> tm_target message | _ \<Rightarrow> '''')
      in run_then (ac_filter (ac s) (tm_content message)) (\<lambda>content.
           Some (Inr (print (''<<< '' @ c_str group @ '' ['' @ c_str (tm_sender message) @ ''] ''
             @ c_str content) s))))"

definition client_onUnknownMessageType :: "conn \<Rightarrow> chat_msg \<Rightarrow> client_step" where
  "client_onUnknownMessageType conn message s =
     Some (Inr (s\<lparr>effects := effects s @ [Shutdown conn]\<rparr>))"

definition client_dispatcher :: "conn \<Rightarrow> (chat_msg, chat_type, client) dispatcher" where
  "client_dispatcher conn =
     registerMessageCallback TGroupResponse as_GroupResponse onGroupResponse
     (registerMessageCallback TSearchResponse as_SearchResponse onSearchResponse
     (registerMessageCallback TTextMessageResponse as_TextMessageResponse onTextMessageResponse
     (registerMessageCallback TTextMessage as_TextMessage client_onTextMessage
     (registerMessageCallback TRegisterResponse as_RegisterResponse onRegisterResponse
     (registerMessageCallback TLogoutResponse as_LogoutResponse onLogoutResponse
     (registerMessageCallback TLoginResponse as_LoginResponse onLoginResponse
     (new_dispatcher (client_onUnknownMessageType conn))))))))"

definition client_message :: "conn \<Rightarrow> chat_msg \<Rightarrow> client_step" where
  "client_message conn message s =
     onProtobufMessage descriptor_of (client_dispatcher conn) message s"

text \<open>What the codec calls back in one \<^verbatim>\<open>onMessage\<close>; the connection is up while it reads.\<close>

fun client_events :: "chat_codec \<Rightarrow> conn \<Rightarrow> chat_msg codec_event list \<Rightarrow> client_step" where
  "client_events env conn [] s = Some (Inr s)"
| "client_events env conn (Deliver message # evs) s =
     run_then (client_message conn message s) (client_events env conn evs)"
| "client_events env conn (ErrorCb e # evs) s =
     client_events env conn evs
       (if defaultErrorCallback (Some Connected) e = Some Disconnecting
        then s\<lparr>effects := effects s @ [Shutdown conn]\<rparr> else s)"

text \<open>\<^verbatim>\<open>while (std::getline(std::cin, line)) client.send(line);\<close>\<close>

fun client_lines :: "chat_codec \<Rightarrow> string list \<Rightarrow> client_step" where
  "client_lines env [] s = Some (Inr s)"
| "client_lines env (line # rest) s = run_then (client_line env line s) (client_lines env rest)"

lemma client_message_cases:
  "client_message c m s =
     (case m of
        LoginResponse x \<Rightarrow> onLoginResponse x s
      | LogoutResponse x \<Rightarrow> onLogoutResponse x s
      | RegisterResponse x \<Rightarrow> onRegisterResponse x s
      | TextMessage x \<Rightarrow> client_onTextMessage x s
      | TextMessageResponse x \<Rightarrow> onTextMessageResponse x s
      | SearchResponse x \<Rightarrow> onSearchResponse x s
      | GroupResponse x \<Rightarrow> onGroupResponse x s
      | _ \<Rightarrow> client_onUnknownMessageType c m s)"
  by (cases m) (simp_all add: client_message_def client_dispatcher_def onProtobufMessage_register
      CallbackT_onMessage_def cast_defs)

end
