(* ===== verification/Client_Properties.thy ===== *)
theory Client_Properties
  imports Client
begin

text \<open>
  The client against an abstract session: a line is a command, and a session is the name it runs
  under; each command sends a list of messages and may end the session. The client refines it, says
  nothing in a name it was not given by the server, and shows text with the keywords masked.
\<close>

section \<open>The abstract session\<close>

datatype command =
  Register string string
| Login string string
| Text TargetType string string
| Search string bool
| Group GroupOperation string
| Logout
| Nonsense

definition parse_line :: "string \<Rightarrow> command" where
  "parse_line line =
     (let (cmd, r1) = next_word line; (a, r2) = next_word r1; (b, r3) = next_word r2;
          (c, r4) = next_word r3
      in if cmd = ''register'' then Register a b
         else if cmd = ''login'' then Login a b
         else if cmd = ''send'' \<and> a = ''user'' then Text USER b c
         else if cmd = ''send'' \<and> a = ''group'' then Text GROUP b c
         else if cmd = ''search'' then Search a False
         else if cmd = ''search-online'' then Search a True
         else if cmd = ''group'' \<and> group_operation_of a \<noteq> None then Group (the (group_operation_of a)) b
         else if cmd = ''logout'' then Logout
         else Nonsense)"

definition close_session :: "string \<Rightarrow> chat_msg list" where
  "close_session me = (if me = ''guest'' then [] else [LogoutRequest me])"

fun session_step :: "string \<Rightarrow> command \<Rightarrow> chat_msg list \<times> string" where
  "session_step me (Register u p) = ([RegisterRequest \<lparr>cr_username = u, cr_password = p\<rparr>], me)"
| "session_step me (Login u p) =
     (if u = me then ([], me)
      else (close_session me @ [LoginRequest \<lparr>cr_username = u, cr_password = p\<rparr>], ''guest''))"
| "session_step me (Text t target content) =
     ([TextMessage \<lparr>tm_sender = me, tm_content = content, tm_target = target, tm_target_type = t\<rparr>], me)"
| "session_step me (Search k b) = ([SearchRequest \<lparr>sq_keyword = k, sq_online_only = b\<rparr>], me)"
| "session_step me (Group g name) =
     (if me = ''guest'' then []
      else [GroupRequest \<lparr>gq_operation = g, gq_group_name = name, gq_username = me\<rparr>], me)"
| "session_step me Logout = (close_session me, ''guest'')"
| "session_step me Nonsense = ([], me)"

lemma client_send_framed:
  assumes "connection s = Some c" and "can_frame env m"
  shows "client_send env m s = Some (Inr (s\<lparr>effects := effects s @ framed env c [m]\<rparr>))"
  using assms by (simp add: client_send_def)

lemma client_send_returns:
  assumes "client_send env m s = Some (Inr s')"
  obtains c where "connection s = Some c" "can_frame env m"
    "s' = s\<lparr>effects := effects s @ framed env c [m]\<rparr>"
  using assms by (cases "connection s")
    (auto simp: client_send_def run_then_Inr_iff dest!: send_returns)

text \<open>Every command is its step of the session.\<close>

definition does :: "chat_codec \<Rightarrow> client \<Rightarrow> conn \<Rightarrow> chat_msg list \<times> string \<Rightarrow> client" where
  "does env s c r = s\<lparr>username := snd r, effects := effects s @ framed env c (fst r)\<rparr>"

lemma does_simps [simp]:
  "does env s c ([], username s) = s"
  "does env s c (ms, username s) = s\<lparr>effects := effects s @ framed env c ms\<rparr>"
  by (simp_all add: does_def)

lemmas command_defs = cmd_register_def cmd_login_def cmd_send_def cmd_search_def cmd_group_def
  cmd_logout_def leave_session_def

lemma processCommand_session:
  assumes "connection s = Some c"
    and "\<forall>m \<in> set (fst (session_step (username s) (parse_line line))). can_frame env m"
  shows "processCommand env line s =
    Some (Inr (does env s c (session_step (username s) (parse_line line))))"
proof -
  obtain cmd r1 where n1: "next_word line = (cmd, r1)" by fastforce
  obtain a r2 where n2: "next_word r1 = (a, r2)" by fastforce
  obtain b r3 where n3: "next_word r2 = (b, r3)" by fastforce
  obtain d r4 where n4: "next_word r3 = (d, r4)" by fastforce
  note words = n1 n2 n3 n4
  show ?thesis
  proof (cases "cmd = ''login''")
    case True
    then show ?thesis using assms words
      by (cases "username s = ''guest''"; cases "a = username s")
        (simp_all add: processCommand_def parse_line_def command_defs close_session_def does_def
          client_send_framed)
  next
    case not_login: False
    show ?thesis
    proof (cases "cmd = ''group''")
      case True
      then show ?thesis using assms words
        by (cases "group_operation_of a"; cases "username s = ''guest''")
          (simp_all add: processCommand_def parse_line_def command_defs client_send_framed does_def)
    next
      case not_group: False
      show ?thesis
      proof (cases "cmd = ''logout''")
        case True
        then show ?thesis using assms words
          by (cases "username s = ''guest''")
            (simp_all add: processCommand_def parse_line_def command_defs close_session_def does_def
              client_send_framed)
      next
        case False
        then show ?thesis using assms words not_login not_group
          by (simp add: processCommand_def parse_line_def command_defs client_send_framed
              split: if_splits)
      qed
    qed
  qed
qed

fun session_run :: "string \<Rightarrow> string list \<Rightarrow> chat_msg list \<times> string" where
  "session_run me [] = ([], me)"
| "session_run me (line # rest) =
     (let (ms, me') = session_step me (parse_line line); (ms', me'') = session_run me' rest
      in (ms @ ms', me''))"

section \<open>What the client may say\<close>

text \<open>
  The states of a client that starts, goes up and down, reads lines, receives messages and refuses
  frames, with the
  names under which the server has told it that a login succeeded.
\<close>

inductive client_reach :: "chat_codec \<Rightarrow> client \<Rightarrow> string set \<Rightarrow> bool" for env where
  start: "ChatClient = Some (Inr s) \<Longrightarrow> client_reach env s {}"
| typed: "client_reach env s names \<Longrightarrow> client_line env line s = Some (Inr s') \<Longrightarrow>
     client_reach env s' names"
| connection: "client_reach env s names \<Longrightarrow> client_onConnection c up s = Some (Inr s') \<Longrightarrow>
     client_reach env s' names"
| received: "client_reach env s names \<Longrightarrow> client_message c m s = Some (Inr s') \<Longrightarrow>
     client_reach env s' (names \<union> (case m of
       LoginResponse r \<Rightarrow> if lr_success r then {lr_username r} else {} | _ \<Rightarrow> {}))"
| rejected: "client_reach env s names \<Longrightarrow> client_events env c [ErrorCb e] s = Some (Inr s') \<Longrightarrow>
     client_reach env s' names"

text \<open>Requests that speak for a user speak for one the server has confirmed.\<close>

fun authorised :: "string set \<Rightarrow> chat_msg \<Rightarrow> bool" where
  "authorised names (TextMessage t) = (tm_sender t \<in> insert ''guest'' names)"
| "authorised names (GroupRequest g) = (gq_username g \<noteq> ''guest'' \<and> gq_username g \<in> names)"
| "authorised names (LogoutRequest u) = (u \<noteq> ''guest'' \<and> u \<in> names)"
| "authorised names (RegisterRequest _) = True"
| "authorised names (LoginRequest _) = True"
| "authorised names (SearchRequest _) = True"
| "authorised names _ = False"

lemma authorised_insert: "authorised names m \<Longrightarrow> authorised (insert x names) m"
  by (cases m) auto

definition speaks_for :: "chat_codec \<Rightarrow> string set \<Rightarrow> client \<Rightarrow> bool" where
  "speaks_for env names s \<longleftrightarrow> username s \<in> insert ''guest'' names
     \<and> (\<forall>c bytes. Send c bytes \<in> set (effects s) \<longrightarrow>
          (\<exists>m. can_frame env m \<and> bytes = frame_of env m \<and> authorised names m))"

lemma speaks_for_cong:
  "speaks_for env names s \<Longrightarrow> username s' = username s \<Longrightarrow>
     (\<And>c b. Send c b \<in> set (effects s') \<longleftrightarrow> Send c b \<in> set (effects s)) \<Longrightarrow> speaks_for env names s'"
  by (simp add: speaks_for_def)

lemma speaks_for_send:
  assumes "speaks_for env names s" and "authorised names m"
  shows "post (client_send env m s) (\<lambda>s'. speaks_for env names s' \<and> username s' = username s)"
  using assms by (auto simp: post_def speaks_for_def elim!: client_send_returns)

lemma speaks_for_guest: "speaks_for env names s \<Longrightarrow> speaks_for env names (s\<lparr>username := ''guest''\<rparr>)"
  by (simp add: speaks_for_def)

lemma speaks_for_login:
  "speaks_for env names s \<Longrightarrow> speaks_for env (insert x names) (s\<lparr>username := x\<rparr>)"
  unfolding speaks_for_def by (fastforce intro: authorised_insert)

lemma speaks_for_name:
  "speaks_for env names s \<Longrightarrow> username s \<noteq> ''guest'' \<Longrightarrow> username s \<in> names"
  by (simp add: speaks_for_def)

lemma leave_session_speaks:
  assumes "speaks_for env names s"
  shows "post (leave_session env s) (speaks_for env names)"
    and "post (cmd_logout env s) (speaks_for env names)"
  unfolding leave_session_def cmd_logout_def using assms
  by (auto intro!: post_then [OF speaks_for_send [OF assms]] speaks_for_guest
      dest: speaks_for_name)

lemma speaks_for_send1:
  "speaks_for env names s \<Longrightarrow> authorised names m \<Longrightarrow> post (client_send env m s) (speaks_for env names)"
  using post_mono [OF speaks_for_send [of env names s m], of "speaks_for env names"] by simp

lemma processCommand_speaks:
  assumes "speaks_for env names s"
  shows "post (processCommand env line s) (speaks_for env names)"
proof -
  have me: "username s = ''guest'' \<or> username s \<in> names" using assms by (simp add: speaks_for_def)
  obtain cmd r1 where n1: "next_word line = (cmd, r1)" by fastforce
  obtain a r2 where n2: "next_word r1 = (a, r2)" by fastforce
  obtain b r3 where n3: "next_word r2 = (b, r3)" by fastforce
  obtain d r4 where n4: "next_word r3 = (d, r4)" by fastforce
  note words = n1 n2 n3 n4
  have login: "post (cmd_login env r1 s) (speaks_for env names)"
    using assms by (auto simp: cmd_login_def words
        intro!: post_then [OF leave_session_speaks(1)] speaks_for_send1)
  have group: "post (cmd_group env r1 s) (speaks_for env names)"
    using assms by (auto simp: cmd_group_def words intro!: speaks_for_send1 dest: speaks_for_name
        split: option.split)
  have other: "post (cmd_register env r1 s) (speaks_for env names)"
    "post (cmd_send env r1 s) (speaks_for env names)"
    "post (cmd_search env k r1 s) (speaks_for env names)" for k
    using assms me by (auto simp: cmd_register_def cmd_send_def cmd_search_def words
        intro!: speaks_for_send1)
  show ?thesis
    unfolding processCommand_def words Let_def prod.case
    by (intro post_if login group other leave_session_speaks(2) assms) (simp add: assms)
qed

lemma client_message_speaks:
  assumes "speaks_for env names s"
  shows "post (client_message c m s) (speaks_for env (names \<union> (case m of
       LoginResponse r \<Rightarrow> if lr_success r then {lr_username r} else {} | _ \<Rightarrow> {})))"
proof -
  have fold_print: "username (fold (\<lambda>x. print (f x)) xs s) = username s
      \<and> effects (fold (\<lambda>x. print (f x)) xs s) = effects s" for f and xs :: "string list" and s
    by (induction xs arbitrary: s) (simp_all add: print_def)
  have same: "speaks_for env names s'" if "username s' = username s" "effects s' = effects s" for s'
    using assms that by (simp add: speaks_for_def)
  have shut: "speaks_for env names (s\<lparr>effects := effects s @ [Shutdown c]\<rparr>)"
    using assms by (simp add: speaks_for_def)
  show ?thesis
  proof (cases m)
    case (LoginResponse r)
    then show ?thesis using assms speaks_for_login [OF assms]
      by (simp add: client_message_cases onLoginResponse_def)
  next
    case (TextMessage t)
    then show ?thesis
      by (auto simp: client_message_cases client_onTextMessage_def post_def run_then_Inr_iff print_def
          intro!: same)
  next
    case (GroupResponse g)
    then show ?thesis
      by (auto simp: client_message_cases onGroupResponse_def Let_def fold_print print_def intro!: same)
  qed (use assms in \<open>auto simp: client_message_cases fold_print print_def onSearchResponse_def
      onTextMessageResponse_def onLogoutResponse_def onRegisterResponse_def
      client_onUnknownMessageType_def shut intro: same\<close>)
qed

lemma client_reach_speaks: "client_reach env s names \<Longrightarrow> speaks_for env names s"
proof (induction rule: client_reach.induct)
  case (start s)
  then show ?case by (auto simp: ChatClient_def run_then_Inr_iff speaks_for_def)
next
  case (typed s names line s')
  then show ?case
    using postD [OF processCommand_speaks] by (auto simp: client_line_def split: if_splits)
next
  case (connection s names c up s')
  then show ?case by (auto simp: client_onConnection_def speaks_for_def)
next
  case (received s names c m s')
  then show ?case using postD [OF client_message_speaks] by blast
next
  case (rejected s names c e s')
  then show ?case by (auto simp: speaks_for_def split: if_splits)
qed

section \<open>Properties\<close>

text \<open>
  C23: on a live connection the client runs every sequence of lines to the end and does exactly what
  the abstract session does: the same messages, framed, in the same order, and the same name at the
  end.
\<close>

theorem client_refines_session:
  assumes "connection s = Some c"
    and "\<forall>m \<in> set (fst (session_run (username s) lines)). can_frame env m"
  shows "client_lines env lines s = Some (Inr (s\<lparr>
           username := snd (session_run (username s) lines),
           effects := effects s @ framed env c (fst (session_run (username s) lines))\<rparr>))"
  using assms
proof (induction lines arbitrary: s)
  case (Cons line rest)
  obtain ms me where a: "session_step (username s) (parse_line line) = (ms, me)" by fastforce
  obtain ms' me' where b: "session_run me rest = (ms', me')" by fastforce
  have "client_line env line s = Some (Inr (does env s c (ms, me)))"
    using processCommand_session [OF Cons.prems(1), of line env] Cons.prems
    by (simp add: client_line_def a b)
  moreover have "client_lines env rest (does env s c (ms, me)) =
      Some (Inr ((does env s c (ms, me))\<lparr>username := me',
        effects := effects (does env s c (ms, me)) @ framed env c ms'\<rparr>))"
    using Cons.IH [of "does env s c (ms, me)"] Cons.prems by (simp add: does_def a b)
  ultimately show ?case by (simp add: a b does_def)
qed simp

definition sample_client :: client where
  "sample_client = \<lparr>connection = Some (Conn 1 1), username = ''ann'', ac = ac_new, effects = [], screen = ''''\<rparr>"

theorem client_refines_session_witness:
  "client_lines chat_env [''login bob pw'', ''group join g'', ''send user ann hi''] sample_client =
   Some (Inr (sample_client\<lparr>username := ''guest'', effects := framed chat_env (Conn 1 1)
     [LogoutRequest ''ann'', LoginRequest \<lparr>cr_username = ''bob'', cr_password = ''pw''\<rparr>,
      TextMessage \<lparr>tm_sender = ''guest'', tm_content = ''hi'', tm_target = ''ann'', tm_target_type = USER\<rparr>]\<rparr>))"
proof -
  have run: "session_run (username sample_client) [''login bob pw'', ''group join g'', ''send user ann hi''] =
    ([LogoutRequest ''ann'', LoginRequest \<lparr>cr_username = ''bob'', cr_password = ''pw''\<rparr>,
      TextMessage \<lparr>tm_sender = ''guest'', tm_content = ''hi'', tm_target = ''ann'', tm_target_type = USER\<rparr>],
     ''guest'')" by code_simp
  have "\<forall>m \<in> set (fst (session_run (username sample_client)
      [''login bob pw'', ''group join g'', ''send user ann hi''])). can_frame chat_env m" by code_simp
  from client_refines_session [OF _ this, of "Conn 1 1"] show ?thesis
    unfolding run by (simp add: sample_client_def)
qed

lemma client_words_valid: "\<forall>w \<in> set client_words. utf8_to_utf32 w \<noteq> None"
  by (simp add: client_words_def utf8_to_utf32_def decode_bytes.simps read_code_point_def
      cont_byte_def scalar_value_def)

lemma client_starts:
  "\<exists>h. ChatClient = Some (Inr \<lparr>connection = None, username = ''guest'', ac = h, effects = [], screen = ''''\<rparr>)"
proof -
  from make_filter_returns [OF client_words_valid] show ?thesis by (auto simp: ChatClient_def)
qed

text \<open>
  C24: everything a client ever sends is a well-framed message that speaks for nobody but its user:
  group requests and logouts carry a name under which the server confirmed a login, never the guest's,
  and texts carry such a name or the guest's. Requests are the only messages it sends.
\<close>

theorem client_speaks_for_user:
  assumes "client_reach env s names" and "Send c bytes \<in> set (effects s)"
  shows "\<exists>m. can_frame env m \<and> bytes = frame_of env m \<and> authorised names m"
  using client_reach_speaks [OF assms(1)] assms(2) by (simp add: speaks_for_def)

theorem client_speaks_for_user_witness:
  "\<exists>s. client_reach chat_env s {''bob''} \<and> Send (Conn 1 1) (frame_of chat_env (GroupRequest
       \<lparr>gq_operation = JOIN, gq_group_name = ''g'', gq_username = ''bob''\<rparr>)) \<in> set (effects s)
     \<and> (\<exists>m. can_frame chat_env m \<and> frame_of chat_env (GroupRequest
           \<lparr>gq_operation = JOIN, gq_group_name = ''g'', gq_username = ''bob''\<rparr>) = frame_of chat_env m
         \<and> authorised {''bob''} m)"
proof -
  let ?join = "GroupRequest \<lparr>gq_operation = JOIN, gq_group_name = ''g'', gq_username = ''bob''\<rparr>"
  let ?yes = "\<lparr>lr_username = ''bob'', lr_success = True, lr_error_message = ''''\<rparr>"
  obtain s0 where s0: "ChatClient = Some (Inr s0)" using client_starts by blast
  let ?s1 = "s0\<lparr>connection := Some (Conn 1 1)\<rparr>"
  let ?s2 = "?s1\<lparr>username := ''bob''\<rparr>"
  let ?s3 = "?s2\<lparr>effects := effects ?s2 @ framed chat_env (Conn 1 1) [?join]\<rparr>"
  have "client_reach chat_env ?s1 {}"
    by (rule client_reach.connection [OF client_reach.start [OF s0], of "Conn 1 1" True])
      (simp add: client_onConnection_def)
  from client_reach.received [OF this, of "Conn 1 1" "LoginResponse ?yes" ?s2]
  have "client_reach chat_env ?s2 {''bob''}" by (simp add: client_message_cases onLoginResponse_def)
  moreover have "client_line chat_env ''group join g'' ?s2 = Some (Inr ?s3)"
  proof -
    have p: "parse_line ''group join g'' = Group JOIN ''g''" by code_simp
    have "can_frame chat_env ?join" by code_simp
    then show ?thesis
      using processCommand_session [of ?s2 "Conn 1 1" "''group join g''" chat_env]
      by (simp add: client_line_def p does_def)
  qed
  ultimately have r: "client_reach chat_env ?s3 {''bob''}" by (rule client_reach.typed)
  have m: "Send (Conn 1 1) (frame_of chat_env ?join) \<in> set (effects ?s3)" by simp
  from r m client_speaks_for_user [OF r m] show ?thesis by blast
qed

lemma client_reach_ac: "client_reach env s names \<Longrightarrow> make_filter client_words = Some (Inr (ac s))"
proof (induction rule: client_reach.induct)
  case (start s)
  then show ?case by (auto simp: ChatClient_def run_then_Inr_iff)
next
  case (typed s names line s')
  have keep: "ac s0 = h \<Longrightarrow> post (client_send env m s0) (\<lambda>s1. ac s1 = h)" for m s0 h
    by (auto simp: post_def elim!: client_send_returns)
  have leave: "post (leave_session env s) (\<lambda>s1. ac s1 = ac s)" "post (cmd_logout env s) (\<lambda>s1. ac s1 = ac s)"
    unfolding leave_session_def cmd_logout_def
    by (auto intro!: post_then [OF keep [OF refl]])
  have "post (cmd_login env iss s) (\<lambda>s1. ac s1 = ac s)" for iss
    unfolding cmd_login_def by (auto simp: split_beta intro!: post_then [OF leave(1)] keep)
  moreover have "post (cmd_group env iss s) (\<lambda>s1. ac s1 = ac s)"
    "post (cmd_register env iss s) (\<lambda>s1. ac s1 = ac s)" "post (cmd_send env iss s) (\<lambda>s1. ac s1 = ac s)"
    "post (cmd_search env k iss s) (\<lambda>s1. ac s1 = ac s)" for iss k
    unfolding cmd_group_def cmd_register_def cmd_send_def cmd_search_def
    by (auto simp: split_beta Let_def intro!: keep split: option.split)
  ultimately have "post (client_line env line s) (\<lambda>s1. ac s1 = ac s)"
    unfolding client_line_def processCommand_def
    by (auto simp: split_beta Let_def intro: leave(2))
  with typed show ?case by (auto simp: post_def)
next
  case (connection s names c up s')
  then show ?case by (auto simp: client_onConnection_def)
next
  case (received s names c m s')
  have fold_print: "ac (fold (\<lambda>x. print (f x)) xs s) = ac s" for f and xs :: "string list" and s
    by (induction xs arbitrary: s) (simp_all add: print_def)
  have "ac s' = ac s" using received(2)
    by (cases m) (auto simp: client_message_cases fold_print print_def onSearchResponse_def
        onTextMessageResponse_def onLogoutResponse_def onRegisterResponse_def onLoginResponse_def
        onGroupResponse_def client_onUnknownMessageType_def client_onTextMessage_def Let_def
        run_then_Inr_iff)
  with received show ?case by simp
next
  case (rejected s names c e s')
  then show ?case by (auto split: if_splits)
qed

lemma client_reach_shows:
  assumes "client_reach env s names" and "utf8_to_utf32 (tm_content m) = Some cs"
  shows "\<exists>r s'. client_message c (TextMessage m) s = Some (Inr s')
     \<and> utf8_to_utf32 r = Some (masked (kwords client_words) cs)
     \<and> screen s' = screen s @ ''<<< '' @ c_str (case tm_target_type m of
           USER \<Rightarrow> ''private'' | GROUP \<Rightarrow> tm_target m | _ \<Rightarrow> '''') @ '' ['' @ c_str (tm_sender m)
         @ ''] '' @ c_str r @ [CHR 0x0A]"
proof -
  from make_filter_automaton [OF client_reach_ac [OF assms(1)]] obtain ps where
    "automaton_ok ps (ac s) (kwords client_words)" by auto
  from filter_automaton [OF this assms(2)] obtain r where
    "ac_filter (ac s) (tm_content m) = Some (Inr r)"
    "utf8_to_utf32 r = Some (masked (kwords client_words) cs)" by blast
  then show ?thesis
    by (auto simp: client_message_cases client_onTextMessage_def print_def Let_def)
qed

text \<open>
  C25: the client's keyword list makes a filter, and every text message with valid UTF-8 content is
  shown with exactly the code points masked that a keyword covers.
\<close>

theorem client_shows_masked:
  assumes "client_reach env s names" and "utf8_to_utf32 (tm_content m) = Some cs"
  shows "\<exists>r s'. client_message c (TextMessage m) s = Some (Inr s')
     \<and> utf8_to_utf32 r = Some (masked (kwords client_words) cs)
     \<and> screen s' = screen s @ ''<<< '' @ c_str (case tm_target_type m of
           USER \<Rightarrow> ''private'' | GROUP \<Rightarrow> tm_target m | _ \<Rightarrow> '''') @ '' ['' @ c_str (tm_sender m)
         @ ''] '' @ c_str r @ [CHR 0x0A]"
  using assms by (rule client_reach_shows)

theorem client_shows_masked_witness:
  "\<exists>s r s'. client_reach chat_env s {} \<and> client_message (Conn 1 1)
       (TextMessage \<lparr>tm_sender = ''ann'', tm_content = ''my iPad'', tm_target = ''bob'', tm_target_type = USER\<rparr>) s
       = Some (Inr s')
     \<and> utf8_to_utf32 r = Some (masked (kwords client_words) [109, 121, 32, 105, 80, 97, 100])
     \<and> screen s' = screen s @ ''<<< '' @ c_str ''private'' @ '' ['' @ c_str ''ann'' @ ''] '' @ c_str r @ [CHR 0x0A]"
proof -
  obtain s where s: "client_reach chat_env s {}" using client_starts by (blast intro: client_reach.start)
  have u: "utf8_to_utf32 ''my iPad'' = Some [109, 121, 32, 105, 80, 97, 100]"
    by (simp add: utf8_to_utf32_def decode_bytes.simps read_code_point_def)
  show ?thesis
    using client_shows_masked [OF s, of "\<lparr>tm_sender = ''ann'', tm_content = ''my iPad'',
      tm_target = ''bob'', tm_target_type = USER\<rparr>" _ "Conn 1 1"] u s by simp blast
qed

end
