(* ===== verification/Server.thy ===== *)
theory Server
  imports Pubsub Network
begin

text \<open>
  The chat server of \<^verbatim>\<open>server.cc\<close>. A thread is a number; the thread of an event loop has the loop's
  number. \<open>tls\<close> holds the thread-local variables, \<open>server\<close> the fields of \<^verbatim>\<open>ChatServer\<close>, the tasks
  queued in the thread pool and in the event loops, what was sent so far, and the outside. A handler
  runs in the thread of its connection's loop. Locks do not appear: every access to a guarded field
  is one step here, as the lock makes it.
\<close>

section \<open>State\<close>

record tls =
  redis_ctx :: "ctx option"
  LocalConnections :: "(string, conn) registry"
  publish_index :: nat
  context_map :: context_map

definition new_thread :: tls where
  "new_thread = \<lparr>redis_ctx = None, LocalConnections = [], publish_index = 0, context_map = []\<rparr>"

record 'w server =
  thread :: "nat \<Rightarrow> tls"
  online_users :: "(string, nat) registry"
  redis_pubsubs :: "pubsub list"
  loops :: "nat list"
  pool_tasks :: "(conn \<times> string \<times> text_message) list"
  loop_tasks :: "(nat \<times> string \<times> text_message) list"
  outputs :: "effect list"
  world :: 'w

type_synonym 'w handler = "'w server \<Rightarrow> 'w server run"

definition on_thread :: "nat \<Rightarrow> (tls \<Rightarrow> tls) \<Rightarrow> 'w server \<Rightarrow> 'w server" where
  "on_thread t f s = s\<lparr>thread := (thread s)(t := f (thread s t))\<rparr>"

text \<open>\<^verbatim>\<open>codec_.send(conn, message)\<close>, and \<^verbatim>\<open>redisCommand(redis_ctx_, ...)\<close> in thread \<open>t\<close>.\<close>

definition codec_send :: "chat_codec \<Rightarrow> conn \<Rightarrow> chat_msg \<Rightarrow> 'w handler" where
  "codec_send env conn message s =
     run_then (send env conn message (outputs s)) (\<lambda>out. Some (Inr (s\<lparr>outputs := out\<rparr>)))"

definition redis_command ::
  "'w outside \<Rightarrow> nat \<Rightarrow> redis_cmd \<Rightarrow> 'w server \<Rightarrow> (redis_reply option \<times> 'w server) run" where
  "redis_command hi t cmd s =
     run_then (deref (redis_ctx (thread s t))) (\<lambda>c.
       case redisCommand hi c cmd (world s) of (reply, w) \<Rightarrow> Some (Inr (reply, s\<lparr>world := w\<rparr>)))"

section \<open>Threads\<close>

definition initRedisContext :: "'w outside \<Rightarrow> nat \<Rightarrow> 'w handler" where
  "initRedisContext hi t s =
     (case redis_ctx (thread s t) of
        Some _ \<Rightarrow> Some (Inr s)
      | None \<Rightarrow>
          (case redisConnect hi ''127.0.0.1'' 6379 (world s) of (p, w) \<Rightarrow>
             run_then (deref p) (\<lambda>c.
               if redis_err hi w c then Some (Inr (s\<lparr>world := redisFree hi c w\<rparr>))
               else Some (Inr (on_thread t (\<lambda>l. l\<lparr>redis_ctx := Some c\<rparr>) (s\<lparr>world := w\<rparr>))))))"

definition cleanupRedisContext :: "'w outside \<Rightarrow> nat \<Rightarrow> 'w handler" where
  "cleanupRedisContext hi t s =
     (case redis_ctx (thread s t) of
        None \<Rightarrow> Some (Inr s)
      | Some c \<Rightarrow>
          Some (Inr (on_thread t (\<lambda>l. l\<lparr>redis_ctx := None\<rparr>) (s\<lparr>world := redisFree hi c (world s)\<rparr>))))"

definition threadInit :: "'w outside \<Rightarrow> nat \<Rightarrow> 'w handler" where
  "threadInit hi loop s =
     run_then (initRedisContext hi loop s) (\<lambda>s. Some (Inr (s\<lparr>loops := List.insert loop (loops s)\<rparr>)))"

section \<open>Publishing and subscribing\<close>

definition set_channel :: "nat \<Rightarrow> context_map \<Rightarrow> 'w \<Rightarrow> 'w server \<Rightarrow> 'w server" where
  "set_channel t cmap w s = on_thread t (\<lambda>l. l\<lparr>context_map := cmap\<rparr>) (s\<lparr>world := w\<rparr>)"

definition next_index :: "nat \<Rightarrow> 'w server \<Rightarrow> 'w server" where
  "next_index t s =
     on_thread t (\<lambda>l. l\<lparr>publish_index := (publish_index l + 1) mod length (redis_pubsubs s)\<rparr>) s"

fun publish_round ::
  "'w outside \<Rightarrow> nat \<Rightarrow> string \<Rightarrow> string \<Rightarrow> nat \<Rightarrow> 'w server \<Rightarrow> (bool \<times> 'w server) run" where
  "publish_round hi t channel message 0 s = Some (Inr (False, s))"
| "publish_round hi t channel message (Suc n) s =
     (if publish_index (thread s t) < length (redis_pubsubs s) then
        run_then
          (publish hi (redis_pubsubs s ! publish_index (thread s t)) channel message
             (context_map (thread s t), world s))
          (\<lambda>(sent, cmap, w).
             if sent then Some (Inr (True, next_index t (set_channel t cmap w s)))
             else publish_round hi t channel message n (next_index t (set_channel t cmap w s)))
      else Some (Inl OutOfRange))"

definition server_publish ::
  "'w outside \<Rightarrow> nat \<Rightarrow> string \<Rightarrow> string \<Rightarrow> 'w server \<Rightarrow> (bool \<times> 'w server) run" where
  "server_publish hi t channel message s =
     publish_round hi t channel message (length (redis_pubsubs s)) s"

fun subscribe_each ::
  "'w outside \<Rightarrow> string \<Rightarrow> pubsub list \<Rightarrow> context_map \<times> 'w \<Rightarrow> (context_map \<times> 'w) run" where
  "subscribe_each hi channel [] s = Some (Inr s)"
| "subscribe_each hi channel (ps # rest) s =
     run_then (subscribe hi ps channel s) (\<lambda>(_, s'). subscribe_each hi channel rest s')"

fun unsubscribe_each ::
  "'w outside \<Rightarrow> string \<Rightarrow> pubsub list \<Rightarrow> context_map \<times> 'w \<Rightarrow> (context_map \<times> 'w) run" where
  "unsubscribe_each hi channel [] s = Some (Inr s)"
| "unsubscribe_each hi channel (ps # rest) s =
     run_then (unsubscribe hi ps channel s) (\<lambda>(_, s'). unsubscribe_each hi channel rest s')"

definition server_subscribe :: "'w outside \<Rightarrow> nat \<Rightarrow> string \<Rightarrow> 'w handler" where
  "server_subscribe hi t channel s =
     run_then (subscribe_each hi channel (redis_pubsubs s) (context_map (thread s t), world s))
       (\<lambda>(cmap, w). Some (Inr (set_channel t cmap w s)))"

definition server_unsubscribe :: "'w outside \<Rightarrow> nat \<Rightarrow> string \<Rightarrow> 'w handler" where
  "server_unsubscribe hi t channel s =
     run_then (unsubscribe_each hi channel (redis_pubsubs s) (context_map (thread s t), world s))
       (\<lambda>(cmap, w). Some (Inr (set_channel t cmap w s)))"

section \<open>Sessions\<close>

definition addUserToOnlineUsers :: "'w outside \<Rightarrow> conn \<Rightarrow> string \<Rightarrow> 'w handler" where
  "addUserToOnlineUsers hi conn username s =
     run_then
       (if map_of (online_users s) username = None
        then server_subscribe hi (getLoop conn) (''user.'' @ username) s
        else Some (Inr s))
       (\<lambda>s. Some (Inr (s\<lparr>online_users := reg_add username (getLoop conn) (online_users s)\<rparr>)))"

definition removeUserFromOnlineUsers :: "'w outside \<Rightarrow> conn \<Rightarrow> string \<Rightarrow> 'w handler" where
  "removeUserFromOnlineUsers hi conn username s =
     (let s' = s\<lparr>online_users := reg_del username (getLoop conn) (online_users s)\<rparr>
      in if map_of (online_users s') username = None
         then server_unsubscribe hi (getLoop conn) (''user.'' @ username) s'
         else Some (Inr s'))"

definition logout :: "'w outside \<Rightarrow> conn \<Rightarrow> 'w handler" where
  "logout hi conn s =
     (case find (\<lambda>item. conn \<in> set (snd item)) (LocalConnections (thread s (getLoop conn))) of
        None \<Rightarrow> Some (Inr s)
      | Some (username, _) \<Rightarrow>
          (let s' = on_thread (getLoop conn)
                 (\<lambda>l. l\<lparr>LocalConnections := reg_del username conn (LocalConnections l)\<rparr>) s
           in if map_of (LocalConnections (thread s' (getLoop conn))) username = None
              then removeUserFromOnlineUsers hi conn username s'
              else Some (Inr s')))"

definition onConnection :: "'w outside \<Rightarrow> conn \<Rightarrow> bool \<Rightarrow> 'w handler" where
  "onConnection hi conn connected s = (if connected then Some (Inr s) else logout hi conn s)"

definition onLogoutRequest :: "chat_codec \<Rightarrow> 'w outside \<Rightarrow> conn \<Rightarrow> string \<Rightarrow> 'w handler" where
  "onLogoutRequest env hi conn message s =
     run_then (logout hi conn s)
       (codec_send env conn (LogoutResponse \<lparr>st_success = True, st_error_message = ''''\<rparr>))"

definition onLoginRequest :: "chat_codec \<Rightarrow> 'w outside \<Rightarrow> conn \<Rightarrow> credentials \<Rightarrow> 'w handler" where
  "onLoginRequest env hi conn message s =
     (let username = cr_username message in
      run_then (redis_command hi (getLoop conn) (HGET ''users'' (c_str username)) s) (\<lambda>(p, s).
      run_then (deref p) (\<lambda>reply.
      run_then
        (Some (if rtype reply \<noteq> REDIS_REPLY_NIL then string_of (str reply) else Inr ''''))
        (\<lambda>storedPassword.
         if storedPassword \<noteq> '''' \<and> storedPassword = cr_password message then
           run_then
             (addUserToOnlineUsers hi conn username
               (on_thread (getLoop conn)
                  (\<lambda>l. l\<lparr>LocalConnections := reg_add username conn (LocalConnections l)\<rparr>) s))
             (codec_send env conn (LoginResponse
                \<lparr>lr_username = username, lr_success = True, lr_error_message = ''''\<rparr>))
         else
           codec_send env conn (LoginResponse
             \<lparr>lr_username = ''guest'', lr_success = False,
              lr_error_message = ''Invalid username or password.''\<rparr>) s))))"

definition onRegisterRequest :: "chat_codec \<Rightarrow> 'w outside \<Rightarrow> conn \<Rightarrow> credentials \<Rightarrow> 'w handler" where
  "onRegisterRequest env hi conn message s =
     (if cr_username message = ''guest'' then
        codec_send env conn
          (RegisterResponse \<lparr>st_success = False, st_error_message = ''Invalid username.''\<rparr>) s
      else
        run_then (redis_command hi (getLoop conn)
            (HSETNX ''users'' (c_str (cr_username message)) (c_str (cr_password message))) s) (\<lambda>(p, s).
        run_then (deref p) (\<lambda>reply.
          codec_send env conn
            (RegisterResponse
              (if integer reply = 1 then \<lparr>st_success = True, st_error_message = ''''\<rparr>
               else \<lparr>st_success = False, st_error_message = ''Username already exists.''\<rparr>)) s)))"

section \<open>Text messages\<close>

text \<open>\<^verbatim>\<open>message->SerializeAsString()\<close>, and \<^verbatim>\<open>ParseFromString\<close> on a new \<^verbatim>\<open>TextMessage\<close>.\<close>

definition SerializeAsString :: "chat_codec \<Rightarrow> text_message \<Rightarrow> string" where
  "SerializeAsString env message = bytes_str (pb_serialize env (TextMessage message))"

definition empty_TextMessage :: text_message where
  "empty_TextMessage =
     \<lparr>tm_sender = '''', tm_content = '''', tm_target = '''', tm_target_type = USER\<rparr>"

definition ParseFromString :: "chat_codec \<Rightarrow> string \<Rightarrow> text_message option" where
  "ParseFromString env msg =
     (case pb_parse_from env (TextMessage empty_TextMessage) (str_bytes msg) of
        (True, m) \<Rightarrow> as_TextMessage m
      | (False, _) \<Rightarrow> None)"

definition onRedisPubSubMessage :: "chat_codec \<Rightarrow> string \<Rightarrow> string \<Rightarrow> 'w handler" where
  "onRedisPubSubMessage env channel msg s =
     (if \<not> (5 < length channel \<and> take 5 channel = ''user.'') then Some (Inl AssertFailed)
      else
        (case ParseFromString env msg of
           None \<Rightarrow> Some (Inr s)
         | Some message \<Rightarrow>
             (case map_of (online_users s) (drop 5 channel) of
                Some loop_set \<Rightarrow>
                  Some (Inr (s\<lparr>loop_tasks := loop_tasks s
                    @ map (\<lambda>loop. (loop, drop 5 channel, message)) loop_set\<rparr>))
              | None \<Rightarrow> Some (Inr s))))"

fun send_each :: "chat_codec \<Rightarrow> text_message \<Rightarrow> conn list \<Rightarrow> 'w handler" where
  "send_each env message [] s = Some (Inr s)"
| "send_each env message (connection # rest) s =
     run_then (codec_send env connection (TextMessage message) s) (send_each env message rest)"

definition sendTextMessage :: "chat_codec \<Rightarrow> nat \<Rightarrow> string \<Rightarrow> text_message \<Rightarrow> 'w handler" where
  "sendTextMessage env t target message s =
     (case map_of (LocalConnections (thread s t)) target of
        Some connections \<Rightarrow> send_each env message connections s
      | None \<Rightarrow> Some (Inr s))"

definition onTextMessage :: "chat_codec \<Rightarrow> 'w outside \<Rightarrow> conn \<Rightarrow> text_message \<Rightarrow> 'w handler" where
  "onTextMessage env hi conn message s =
     (case tm_target_type message of
        USER \<Rightarrow>
          run_then (server_publish hi (getLoop conn) (''user.'' @ tm_target message)
              (SerializeAsString env message) s) (\<lambda>(_, s).
            codec_send env conn (TextMessageResponse \<lparr>st_success = True, st_error_message = ''''\<rparr>) s)
      | GROUP \<Rightarrow> Some (Inr (s\<lparr>pool_tasks := pool_tasks s @ [(conn, tm_target message, message)]\<rparr>))
      | _ \<Rightarrow>
          codec_send env conn
            (TextMessageResponse \<lparr>st_success = False, st_error_message = ''Invalid target type''\<rparr>) s)"

definition group_key :: "string \<Rightarrow> string" where
  "group_key group_name = ''group:'' @ c_str group_name @ '':users''"

definition groups_key :: "string \<Rightarrow> string" where
  "groups_key username = ''user:'' @ c_str username @ '':groups''"

fun publish_to_each ::
  "chat_codec \<Rightarrow> 'w outside \<Rightarrow> nat \<Rightarrow> text_message \<Rightarrow> redis_reply list \<Rightarrow> 'w handler" where
  "publish_to_each env hi t message [] s = Some (Inr s)"
| "publish_to_each env hi t message (e # es) s =
     run_then (Some (string_of (str e))) (\<lambda>user.
     run_then (server_publish hi t (''user.'' @ user) (SerializeAsString env message) s) (\<lambda>(_, s).
       publish_to_each env hi t message es s))"

definition processGroupMessage ::
  "chat_codec \<Rightarrow> 'w outside \<Rightarrow> nat \<Rightarrow> conn \<Rightarrow> string \<Rightarrow> text_message \<Rightarrow> 'w handler" where
  "processGroupMessage env hi t conn group_id message s =
     run_then (redis_command hi t (SMEMBERS (group_key group_id)) s) (\<lambda>(p, s).
     run_then (deref p) (\<lambda>reply.
       if rtype reply = REDIS_REPLY_ARRAY then
         if element reply \<noteq> [] then
           run_then (publish_to_each env hi t message (element reply) s)
             (codec_send env conn (TextMessageResponse \<lparr>st_success = True, st_error_message = ''''\<rparr>))
         else
           codec_send env conn (TextMessageResponse
             \<lparr>st_success = False, st_error_message = ''Target group not found''\<rparr>) s
       else
         codec_send env conn (TextMessageResponse
           \<lparr>st_success = False, st_error_message = ''Error executing SMEMBERS command''\<rparr>) s))"

section \<open>Search\<close>

definition keyword_in :: "string \<Rightarrow> string \<Rightarrow> bool" where
  "keyword_in keyword username \<longleftrightarrow> keyword = '''' \<or> str_find keyword username \<noteq> None"

fun strings_of :: "redis_reply list \<Rightarrow> string list outcome" where
  "strings_of [] = Inr []"
| "strings_of (e # es) =
     and_then (string_of (str e)) (\<lambda>s. and_then (strings_of es) (\<lambda>ss. Inr (s # ss)))"

definition onSearchRequest :: "chat_codec \<Rightarrow> 'w outside \<Rightarrow> conn \<Rightarrow> search_request \<Rightarrow> 'w handler" where
  "onSearchRequest env hi conn message s =
     (if sq_online_only message then
        codec_send env conn
          (SearchResponse (filter (keyword_in (sq_keyword message)) (map fst (online_users s)))) s
      else
        run_then (redis_command hi (getLoop conn) (HKEYS ''users'') s) (\<lambda>(p, s).
        run_then (deref p) (\<lambda>reply.
        run_then
          (Some (if rtype reply = REDIS_REPLY_ARRAY then strings_of (element reply) else Inr []))
          (\<lambda>usernames.
            codec_send env conn
              (SearchResponse (filter (keyword_in (sq_keyword message)) usernames)) s))))"

section \<open>Groups\<close>

text \<open>\<^verbatim>\<open>reply1->integer == 1 && reply2->integer == 1\<close>\<close>

definition both_one :: "redis_reply option \<Rightarrow> redis_reply option \<Rightarrow> bool run" where
  "both_one reply1 reply2 =
     run_then (deref reply1) (\<lambda>r1.
       if integer r1 = 1 then run_then (deref reply2) (\<lambda>r2. Some (Inr (integer r2 = 1)))
       else Some (Inr False))"

definition group_add ::
  "'w outside \<Rightarrow> nat \<Rightarrow> string \<Rightarrow> string \<Rightarrow> 'w server \<Rightarrow> (bool \<times> 'w server) run" where
  "group_add hi t group_name username s =
     run_then (redis_command hi t (SADD (group_key group_name) (c_str username)) s) (\<lambda>(reply1, s).
     run_then (redis_command hi t (SADD (groups_key username) (c_str group_name)) s) (\<lambda>(reply2, s).
     run_then (both_one reply1 reply2) (\<lambda>operationSuccess. Some (Inr (operationSuccess, s)))))"

definition drop_if_empty :: "'w outside \<Rightarrow> nat \<Rightarrow> string \<Rightarrow> 'w handler" where
  "drop_if_empty hi t key s =
     run_then (redis_command hi t (SCARD key) s) (\<lambda>(p, s).
     run_then (deref p) (\<lambda>cardReply.
       if integer cardReply = 0
       then run_then (redis_command hi t (DEL key) s) (\<lambda>(_, s). Some (Inr s))
       else Some (Inr s)))"

definition group_remove ::
  "'w outside \<Rightarrow> nat \<Rightarrow> string \<Rightarrow> string \<Rightarrow> 'w server \<Rightarrow> (bool \<times> 'w server) run" where
  "group_remove hi t group_name username s =
     run_then (redis_command hi t (SREM (group_key group_name) (c_str username)) s) (\<lambda>(reply1, s).
     run_then (redis_command hi t (SREM (groups_key username) (c_str group_name)) s) (\<lambda>(reply2, s).
     run_then (both_one reply1 reply2) (\<lambda>operationSuccess.
     run_then (drop_if_empty hi t (group_key group_name) s) (\<lambda>s.
     run_then (drop_if_empty hi t (groups_key username) s) (\<lambda>s.
       Some (Inr (operationSuccess, s)))))))"

text \<open>The result of the operation, with the error message of the response.\<close>

definition group_operation ::
  "'w outside \<Rightarrow> nat \<Rightarrow> group_request \<Rightarrow> bool \<Rightarrow> 'w server \<Rightarrow>
     ((bool \<times> string) \<times> 'w server) run" where
  "group_operation hi t message groupExists s =
     (case gq_operation message of
        CREATE \<Rightarrow>
          run_then
            (if \<not> groupExists then group_add hi t (gq_group_name message) (gq_username message) s
             else Some (Inr (False, s)))
            (\<lambda>(success, s). Some (Inr ((success,
               if success then '''' else ''Group already exists.''), s)))
      | JOIN \<Rightarrow>
          run_then
            (if groupExists then group_add hi t (gq_group_name message) (gq_username message) s
             else Some (Inr (False, s)))
            (\<lambda>(success, s). Some (Inr ((success,
               if success then '''' else if \<not> groupExists then ''Group does not exist.''
               else ''User already in the group.''), s)))
      | LEAVE \<Rightarrow>
          run_then
            (if groupExists then group_remove hi t (gq_group_name message) (gq_username message) s
             else Some (Inr (False, s)))
            (\<lambda>(success, s). Some (Inr ((success,
               if success then '''' else if \<not> groupExists then ''Group does not exist.''
               else ''User not in the group.''), s)))
      | QUERY \<Rightarrow> Some (Inr ((True, ''''), s))
      | _ \<Rightarrow> Some (Inr ((False, ''Unknown group operation.''), s)))"

definition onGroupRequest :: "chat_codec \<Rightarrow> 'w outside \<Rightarrow> conn \<Rightarrow> group_request \<Rightarrow> 'w handler" where
  "onGroupRequest env hi conn message s =
     (let t = getLoop conn in
      run_then (redis_command hi t (EXISTS (group_key (gq_group_name message))) s) (\<lambda>(p, s).
      run_then (deref p) (\<lambda>existsReply.
      run_then (group_operation hi t message (integer existsReply = 1) s) (\<lambda>((success, error_message), s).
      run_then (redis_command hi t (SMEMBERS (groups_key (gq_username message))) s) (\<lambda>(p, s).
      run_then (deref p) (\<lambda>userGroupsReply.
      run_then
        (Some (if rtype userGroupsReply = REDIS_REPLY_ARRAY
               then strings_of (element userGroupsReply) else Inr []))
        (\<lambda>joined_groups.
          codec_send env conn (GroupResponse
            \<lparr>gr_operation = gq_operation message, gr_success = success,
             gr_error_message = error_message, gr_joined_groups = joined_groups\<rparr>) s)))))))"

section \<open>Routing\<close>

definition onUnknownMessageType :: "conn \<Rightarrow> chat_msg \<Rightarrow> 'w handler" where
  "onUnknownMessageType conn message s = Some (Inr (s\<lparr>outputs := outputs s @ [Shutdown conn]\<rparr>))"

definition server_dispatcher ::
  "chat_codec \<Rightarrow> 'w outside \<Rightarrow> conn \<Rightarrow> (chat_msg, chat_type, 'w server) dispatcher" where
  "server_dispatcher env hi conn =
     registerMessageCallback TGroupRequest as_GroupRequest (onGroupRequest env hi conn)
     (registerMessageCallback TSearchRequest as_SearchRequest (onSearchRequest env hi conn)
     (registerMessageCallback TTextMessage as_TextMessage (onTextMessage env hi conn)
     (registerMessageCallback TRegisterRequest as_RegisterRequest (onRegisterRequest env hi conn)
     (registerMessageCallback TLogoutRequest as_LogoutRequest (onLogoutRequest env hi conn)
     (registerMessageCallback TLoginRequest as_LoginRequest (onLoginRequest env hi conn)
     (new_dispatcher (onUnknownMessageType conn)))))))"

definition server_message :: "chat_codec \<Rightarrow> 'w outside \<Rightarrow> conn \<Rightarrow> chat_msg \<Rightarrow> 'w handler" where
  "server_message env hi conn message s =
     onProtobufMessage descriptor_of (server_dispatcher env hi conn) message s"

text \<open>
  What the codec of a connection calls while it reads, message by message; the connection is
  connected while it reads, so the error callback shuts it down.
\<close>

fun server_events ::
  "chat_codec \<Rightarrow> 'w outside \<Rightarrow> conn \<Rightarrow> chat_msg codec_event list \<Rightarrow> 'w handler" where
  "server_events env hi conn [] s = Some (Inr s)"
| "server_events env hi conn (Deliver message # evs) s =
     run_then (server_message env hi conn message s) (server_events env hi conn evs)"
| "server_events env hi conn (ErrorCb e # evs) s =
     server_events env hi conn evs
       (if defaultErrorCallback (Some Connected) e = Some Disconnecting
        then s\<lparr>outputs := outputs s @ [Shutdown conn]\<rparr> else s)"

section \<open>Construction\<close>

record RedisConnectionInfo =
  rc_host :: string
  rc_port :: int

fun new_pubsubs ::
  "'w outside \<Rightarrow> nat \<Rightarrow> RedisConnectionInfo list \<Rightarrow> 'w \<Rightarrow> (pubsub list \<times> 'w) run" where
  "new_pubsubs hi n [] w = Some (Inr ([], w))"
| "new_pubsubs hi n (redisServer # rest) w =
     run_then (new_pubsub hi n (rc_host redisServer) (rc_port redisServer) w) (\<lambda>(ps, w).
     run_then (new_pubsubs hi (Suc n) rest w) (\<lambda>(pss, w). Some (Inr (ps # pss, w))))"

definition ChatServer :: "'w outside \<Rightarrow> RedisConnectionInfo list \<Rightarrow> 'w \<Rightarrow> 'w server run" where
  "ChatServer hi redisServers w =
     run_then (new_pubsubs hi 0 redisServers w) (\<lambda>(pss, w).
       Some (Inr \<lparr>thread = (\<lambda>_. new_thread), online_users = [], redis_pubsubs = pss, loops = [],
         pool_tasks = [], loop_tasks = [], outputs = [], world = w\<rparr>))"

end
