(* ===== verification/Server_Frames.thy ===== *)
theory Server_Frames
  imports Server
begin

text \<open>
  What the talk with Redis leaves alone. A relation between server states that tolerates changes of
  the outside and of a thread's publishing state holds across every command, publication and group
  operation; \<open>frame\<close> is the contract, instantiated with the session tables and with the output.
\<close>

lemma pure_post:
  "post (deref p) (\<lambda>_. True)" "post (Some q) (\<lambda>_. True)" "post (both_one p1 p2) (\<lambda>_. True)"
  by simp_all

lemmas then_pure = pure_post [THEN post_then]

locale frame =
  fixes R :: "'w server \<Rightarrow> 'w server \<Rightarrow> bool"
  assumes trans: "R s s' \<Longrightarrow> R s' s'' \<Longrightarrow> R s s''"
    and outside: "R s (s\<lparr>world := w\<rparr>)"
    and channel: "R s (set_channel t cmap w s)"
    and index: "R s (next_index t s)"
begin

lemma redis_command_post: "R s0 s \<Longrightarrow> post (redis_command hi t cmd s) (\<lambda>r. R s0 (snd r))"
  by (auto simp: post_def redis_command_def run_then_Inr_iff case_prod_beta intro: trans outside)

lemma publish_round_post: "R s0 s \<Longrightarrow> post (publish_round hi t ch m n s) (\<lambda>r. R s0 (snd r))"
proof (induction n arbitrary: s)
  case (Suc n)
  have step: "R s0 (next_index t (set_channel t cmap w s))" for cmap w
    using Suc.prems by (blast intro: trans channel index)
  show ?case
    unfolding publish_round.simps case_prod_beta
    by (intro post_if post_then [OF post_True] Suc.IH step) (simp_all add: step)
qed simp

lemma server_publish_post: "R s0 s \<Longrightarrow> post (server_publish hi t ch m s) (\<lambda>r. R s0 (snd r))"
  by (simp add: server_publish_def publish_round_post)

lemma server_subscribe_post: "R s0 s \<Longrightarrow> post (server_subscribe hi t ch s) (R s0)"
  by (auto simp: post_def server_subscribe_def run_then_Inr_iff case_prod_beta intro: trans channel)

lemma server_unsubscribe_post: "R s0 s \<Longrightarrow> post (server_unsubscribe hi t ch s) (R s0)"
  by (auto simp: post_def server_unsubscribe_def run_then_Inr_iff case_prod_beta intro: trans channel)

lemma publish_to_each_post: "R s0 s \<Longrightarrow> post (publish_to_each env hi t m es s) (R s0)"
proof (induction es arbitrary: s)
  case (Cons e es)
  show ?case unfolding publish_to_each.simps case_prod_beta
    by (rule then_pure(2), rule post_then [OF server_publish_post [OF Cons.prems] Cons.IH])
qed simp

lemma group_ops_post:
  "R s0 s \<Longrightarrow> post (group_add hi t g u s) (\<lambda>r. R s0 (snd r))"
  "R s0 s \<Longrightarrow> post (drop_if_empty hi t k s) (R s0)"
  unfolding group_add_def drop_if_empty_def case_prod_beta
  by (auto intro!: post_then [OF redis_command_post] then_pure)

lemma group_remove_post: "R s0 s \<Longrightarrow> post (group_remove hi t g u s) (\<lambda>r. R s0 (snd r))"
  unfolding group_remove_def case_prod_beta
  by (auto intro!: post_then [OF redis_command_post] post_then [OF group_ops_post(2)] then_pure)

lemma group_operation_post: "R s0 s \<Longrightarrow> post (group_operation hi t m b s) (\<lambda>r. R s0 (snd r))"
  by (cases "gq_operation m") (auto simp: group_operation_def case_prod_beta
      intro!: post_then [OF group_ops_post(1)] post_then [OF group_remove_post])

end

end
