(* ===== verification/Server_Sessions.thy ===== *)
theory Server_Sessions
  imports Server_Frames Redis_Memory
begin

text \<open>
  Who is logged in where: each event loop's thread keeps the connections of its users, and the
  server keeps the loops of each user. The two tables are kept in step by hand, in every handler.
  Their contract is the locale \<open>presence\<close> over any two maps of sets, instantiated with the tables
  of the server; from it follows the invariant of all reachable states.
\<close>

section \<open>Two tables in step\<close>

locale set_map =
  fixes members :: "'m \<Rightarrow> 'k \<Rightarrow> 'v set"
    and ok :: "'m \<Rightarrow> bool"
    and add :: "'k \<Rightarrow> 'v \<Rightarrow> 'm \<Rightarrow> 'm"
    and del :: "'k \<Rightarrow> 'v \<Rightarrow> 'm \<Rightarrow> 'm"
  assumes ok_add: "ok m \<Longrightarrow> ok (add k v m)"
    and ok_del: "ok m \<Longrightarrow> ok (del k v m)"
    and members_add:
      "members (add k v m) k' = (if k' = k then insert v (members m k) else members m k')"
    and members_del:
      "members (del k v m) k' = (if k' = k then members m k - {v} else members m k')"

definition coherent ::
  "('lm \<Rightarrow> 'u \<Rightarrow> 'c set) \<Rightarrow> ('gm \<Rightarrow> 'u \<Rightarrow> 'l set) \<Rightarrow> ('c \<Rightarrow> 'l) \<Rightarrow> ('l \<Rightarrow> 'lm) \<Rightarrow> 'gm \<Rightarrow> bool" where
  "coherent lmem gmem loop_of locals online \<longleftrightarrow>
     (\<forall>l u. l \<in> gmem online u \<longleftrightarrow> lmem (locals l) u \<noteq> {})
   \<and> (\<forall>l u c. c \<in> lmem (locals l) u \<longrightarrow> loop_of c = l)"

locale presence =
  local: set_map lmem lok ladd ldel + global: set_map gmem gok gadd gdel
  for lmem :: "'lm \<Rightarrow> 'u \<Rightarrow> 'c set" and lok ladd ldel
    and gmem :: "'gm \<Rightarrow> 'u \<Rightarrow> 'l set" and gok gadd gdel
  + fixes loop_of :: "'c \<Rightarrow> 'l"
begin

lemma coherentD:
  assumes "coherent lmem gmem loop_of locals online"
  shows "l \<in> gmem online u \<longleftrightarrow> lmem (locals l) u \<noteq> {}" "c \<in> lmem (locals l) u \<Longrightarrow> loop_of c = l"
  using assms by (auto simp: coherent_def)

lemma login_coherent:
  assumes "coherent lmem gmem loop_of locals online"
  shows "coherent lmem gmem loop_of
           (locals(loop_of c := ladd u c (locals (loop_of c)))) (gadd u (loop_of c) online)"
  using assms by (auto simp: coherent_def local.members_add global.members_add)

lemma logout_coherent:
  assumes "coherent lmem gmem loop_of locals online"
    and "locals' = locals(loop_of c := ldel u c (locals (loop_of c)))"
  shows "lmem (locals' (loop_of c)) u \<noteq> {} \<Longrightarrow> c \<in> lmem (locals (loop_of c)) u \<Longrightarrow>
           coherent lmem gmem loop_of locals' online"
    and "lmem (locals' (loop_of c)) u = {} \<Longrightarrow>
           coherent lmem gmem loop_of locals' (gdel u (loop_of c) online)"
proof -
  note D = coherentD [OF assms(1)]
  show "coherent lmem gmem loop_of locals' online"
    if "lmem (locals' (loop_of c)) u \<noteq> {}" "c \<in> lmem (locals (loop_of c)) u"
    unfolding coherent_def
  proof (intro conjI allI impI)
    fix l v
    show "(l \<in> gmem online v) = (lmem (locals' l) v \<noteq> {})"
      using that D(1) [of l v] by (cases "l = loop_of c"; cases "v = u")
        (auto simp: assms(2) local.members_del)
    show "loop_of d = l" if "d \<in> lmem (locals' l) v" for d
      using that D(2) [of d l v] by (auto simp: assms(2) local.members_del split: if_splits)
  qed
  show "coherent lmem gmem loop_of locals' (gdel u (loop_of c) online)"
    if "lmem (locals' (loop_of c)) u = {}"
    unfolding coherent_def
  proof (intro conjI allI impI)
    fix l v
    show "(l \<in> gmem (gdel u (loop_of c) online) v) = (lmem (locals' l) v \<noteq> {})"
      using that D(1) [of l v] by (cases "l = loop_of c"; cases "v = u")
        (auto simp: assms(2) local.members_del global.members_del)
    show "loop_of d = l" if "d \<in> lmem (locals' l) v" for d
      using that D(2) [of d l v] by (auto simp: assms(2) local.members_del split: if_splits)
  qed
qed

end

interpretation registry: set_map "\<lambda>m k. set (reg_members m k)" reg_ok reg_add reg_del
  by unfold_locales (simp_all add: registry_simps)

interpretation sessions: presence
  "\<lambda>m k. set (reg_members m k)" reg_ok reg_add reg_del
  "\<lambda>m k. set (reg_members m k)" reg_ok reg_add reg_del getLoop
  by unfold_locales

section \<open>The tables of the server\<close>

definition local_conns :: "'w server \<Rightarrow> nat \<Rightarrow> (string, conn) registry" where
  "local_conns s t = LocalConnections (thread s t)"

definition sessions_ok :: "'w server \<Rightarrow> bool" where
  "sessions_ok s \<longleftrightarrow> reg_ok (online_users s) \<and> (\<forall>t. reg_ok (local_conns s t))
   \<and> coherent (\<lambda>m k. set (reg_members m k)) (\<lambda>m k. set (reg_members m k)) getLoop
       (local_conns s) (online_users s)"

lemma sessions_okD:
  assumes "sessions_ok s"
  shows "reg_ok (online_users s)" "reg_ok (local_conns s t)"
    "t \<in> set (reg_members (online_users s) u) \<longleftrightarrow> reg_members (local_conns s t) u \<noteq> []"
    "c \<in> set (reg_members (local_conns s t) u) \<Longrightarrow> getLoop c = t"
  using assms by (auto simp: sessions_ok_def coherent_def)

definition same_sessions :: "'w server \<Rightarrow> 'w server \<Rightarrow> bool" where
  "same_sessions s s' \<longleftrightarrow> local_conns s' = local_conns s \<and> online_users s' = online_users s"

lemma same_sessions_refl [simp]: "same_sessions s s"
  by (simp add: same_sessions_def)

lemma same_sessions_trans [trans]:
  "same_sessions s s' \<Longrightarrow> same_sessions s' s'' \<Longrightarrow> same_sessions s s''"
  by (simp add: same_sessions_def)

lemma same_sessions_ok: "same_sessions s s' \<Longrightarrow> sessions_ok s' = sessions_ok s"
  by (simp add: same_sessions_def sessions_ok_def)

lemma same_sessions_updates [simp]:
  "same_sessions s (s'\<lparr>outputs := x1\<rparr>) = same_sessions s s'"
  "same_sessions s (s'\<lparr>world := x2\<rparr>) = same_sessions s s'"
  "same_sessions s (s'\<lparr>pool_tasks := x3\<rparr>) = same_sessions s s'"
  "same_sessions s (s'\<lparr>loop_tasks := x4\<rparr>) = same_sessions s s'"
  "same_sessions s (s'\<lparr>loops := x5\<rparr>) = same_sessions s s'"
  "same_sessions (s\<lparr>pool_tasks := x3\<rparr>) s' = same_sessions s s'"
  "same_sessions (s\<lparr>loop_tasks := x4\<rparr>) s' = same_sessions s s'"
  "same_sessions (s\<lparr>world := x2\<rparr>) s' = same_sessions s s'"
  by (simp_all add: same_sessions_def local_conns_def fun_eq_iff)

lemma same_sessions_on_thread:
  "(\<And>l. LocalConnections (f l) = LocalConnections l) \<Longrightarrow> same_sessions s (on_thread t f s)"
  by (simp add: same_sessions_def local_conns_def on_thread_def fun_eq_iff)

text \<open>The operations that leave the tables alone.\<close>

lemma codec_send_keeps: "codec_send env c m s = Some (Inr s') \<Longrightarrow> same_sessions s s'"
  by (auto simp: codec_send_def run_then_Inr_iff)

lemma set_channel_keeps [simp]: "same_sessions s (set_channel t cmap w s') = same_sessions s s'"
  by (auto simp: same_sessions_def set_channel_def local_conns_def on_thread_def fun_eq_iff)

lemma next_index_keeps [simp]: "same_sessions s (next_index t s') = same_sessions s s'"
  by (auto simp: same_sessions_def next_index_def local_conns_def on_thread_def fun_eq_iff)

interpretation kept: frame same_sessions
  by unfold_locales (simp_all add: same_sessions_trans)

lemma codec_send_post: "same_sessions s0 s \<Longrightarrow> post (codec_send env c m s) (same_sessions s0)"
  by (auto simp: post_def dest!: codec_send_keeps intro: same_sessions_trans)

lemmas keeps_post = codec_send_post kept.redis_command_post kept.server_publish_post
  kept.server_subscribe_post kept.server_unsubscribe_post

lemma send_each_post:
  "same_sessions s0 s \<Longrightarrow> post (send_each env m cs s) (same_sessions s0)"
proof (induction cs arbitrary: s)
  case (Cons c cs)
  show ?case unfolding send_each.simps
    by (rule post_then [OF keeps_post(1) [OF Cons.prems] Cons.IH])
qed simp

lemma sendTextMessage_post:
  "same_sessions s0 s \<Longrightarrow> post (sendTextMessage env t u m s) (same_sessions s0)"
  by (simp add: sendTextMessage_def send_each_post split: option.split)

lemma onTextMessage_post:
  "same_sessions s0 s \<Longrightarrow> post (onTextMessage env hi c m s) (same_sessions s0)"
  by (auto simp: onTextMessage_def case_prod_beta intro!: post_then [OF keeps_post(3)] keeps_post(1)
      split: TargetType.split)

lemma processGroupMessage_post:
  "same_sessions s0 s \<Longrightarrow> post (processGroupMessage env hi t c g m s) (same_sessions s0)"
  by (auto simp: processGroupMessage_def case_prod_beta
      intro!: post_then [OF keeps_post(2)] then_pure post_then [OF kept.publish_to_each_post]
        keeps_post(1))

lemma onSearchRequest_post:
  "same_sessions s0 s \<Longrightarrow> post (onSearchRequest env hi c m s) (same_sessions s0)"
  unfolding onSearchRequest_def case_prod_beta
  by (intro post_if post_then [OF keeps_post(2)] then_pure keeps_post(1)) assumption+

lemma onRegisterRequest_post:
  "same_sessions s0 s \<Longrightarrow> post (onRegisterRequest env hi c m s) (same_sessions s0)"
  unfolding onRegisterRequest_def case_prod_beta
  by (intro post_if post_then [OF keeps_post(2)] then_pure keeps_post(1)) assumption+

lemma onGroupRequest_post:
  "same_sessions s0 s \<Longrightarrow> post (onGroupRequest env hi c m s) (same_sessions s0)"
  unfolding onGroupRequest_def case_prod_beta Let_def
  by (auto intro!: post_then [OF keeps_post(2)] post_then [OF kept.group_operation_post]
      then_pure keeps_post(1))

lemma onRedisPubSubMessage_post:
  "same_sessions s0 s \<Longrightarrow> post (onRedisPubSubMessage env ch msg s) (same_sessions s0)"
  by (simp add: onRedisPubSubMessage_def split: option.split)

section \<open>Login and logout\<close>

definition logged_in :: "conn \<Rightarrow> string \<Rightarrow> 'w server \<Rightarrow> 'w server \<Rightarrow> bool" where
  "logged_in c u s s' \<longleftrightarrow>
     local_conns s' = (local_conns s)(getLoop c := reg_add u c (local_conns s (getLoop c)))
   \<and> online_users s' = reg_add u (getLoop c) (online_users s)"

definition logged_out :: "conn \<Rightarrow> string \<Rightarrow> 'w server \<Rightarrow> 'w server \<Rightarrow> bool" where
  "logged_out c u s s' \<longleftrightarrow>
     local_conns s' = (local_conns s)(getLoop c := reg_del u c (local_conns s (getLoop c)))
   \<and> online_users s' =
       (if map_of (reg_del u c (local_conns s (getLoop c))) u = None
        then reg_del u (getLoop c) (online_users s) else online_users s)"

lemma logged_in_same: "logged_in c u s s' \<Longrightarrow> same_sessions s' s'' \<Longrightarrow> logged_in c u s s''"
  by (simp add: logged_in_def same_sessions_def)

lemma logged_out_same: "logged_out c u s s' \<Longrightarrow> same_sessions s' s'' \<Longrightarrow> logged_out c u s s''"
  by (simp add: logged_out_def same_sessions_def)

lemma local_conns_on_thread [simp]:
  "local_conns (on_thread t (\<lambda>l. l\<lparr>LocalConnections := f (LocalConnections l)\<rparr>) s) =
     (local_conns s)(t := f (local_conns s t))"
  "online_users (on_thread t g s) = online_users s"
  by (auto simp: local_conns_def on_thread_def fun_eq_iff)

lemma local_conns_online [simp]: "local_conns (s\<lparr>online_users := x\<rparr>) = local_conns s"
  by (simp add: local_conns_def fun_eq_iff)

lemma addUserToOnlineUsers_post:
  "post (addUserToOnlineUsers hi c u s) (\<lambda>s'. local_conns s' = local_conns s
     \<and> online_users s' = reg_add u (getLoop c) (online_users s))"
proof -
  have "post (if map_of (online_users s) u = None
        then server_subscribe hi (getLoop c) (''user.'' @ u) s else Some (Inr s)) (same_sessions s)"
    by (intro post_if keeps_post) simp_all
  then show ?thesis
    unfolding addUserToOnlineUsers_def by (rule post_then) (simp add: same_sessions_def)
qed

lemma removeUserFromOnlineUsers_post:
  "post (removeUserFromOnlineUsers hi c u s) (\<lambda>s'. local_conns s' = local_conns s
     \<and> online_users s' = reg_del u (getLoop c) (online_users s))"
proof -
  let ?s = "s\<lparr>online_users := reg_del u (getLoop c) (online_users s)\<rparr>"
  have "post (removeUserFromOnlineUsers hi c u s) (same_sessions ?s)"
    unfolding removeUserFromOnlineUsers_def Let_def by (intro post_if keeps_post) simp_all
  then show ?thesis by (simp add: post_def same_sessions_def)
qed

lemma onLoginRequest_post:
  "post (onLoginRequest env hi c m s)
     (\<lambda>s'. same_sessions s s' \<or> logged_in c (cr_username m) s s')"
proof -
  have login: "post (run_then (addUserToOnlineUsers hi c u
        (on_thread (getLoop c) (\<lambda>l. l\<lparr>LocalConnections := reg_add u c (LocalConnections l)\<rparr>) s1))
        (codec_send env c r)) (\<lambda>s'. same_sessions s s' \<or> logged_in c u s s')"
    if "same_sessions s s1" for s1 u r
    using that
    by (intro post_then [OF addUserToOnlineUsers_post])
      (auto simp: post_def logged_in_def same_sessions_def dest!: codec_send_keeps)
  have fail: "post (codec_send env c r s1) (\<lambda>s'. same_sessions s s' \<or> logged_in c u s s')"
    if "same_sessions s s1" for s1 u r
    using that by (auto simp: post_def dest!: codec_send_keeps intro: same_sessions_trans)
  show ?thesis
    unfolding onLoginRequest_def Let_def case_prod_beta
    by (intro post_then [OF keeps_post(2) [of s s]] then_pure(1,2) post_if) (auto intro: login fail)
qed

lemma logout_post:
  "post (logout hi c s) (\<lambda>s'.
     (\<forall>(u, cs) \<in> set (local_conns s (getLoop c)). c \<notin> set cs) \<and> same_sessions s s'
   \<or> (\<exists>u cs. (u, cs) \<in> set (local_conns s (getLoop c)) \<and> c \<in> set cs \<and> logged_out c u s s'))"
proof (cases "find (\<lambda>item. c \<in> set (snd item)) (local_conns s (getLoop c))")
  case None
  then have "logout hi c s = Some (Inr s)" by (simp add: logout_def local_conns_def)
  moreover have "\<forall>(u, cs) \<in> set (local_conns s (getLoop c)). c \<notin> set cs"
    using None by (auto simp: find_None_iff)
  ultimately show ?thesis by simp
next
  case (Some item)
  obtain u cs where item: "item = (u, cs)" by (cases item)
  with Some have mem: "(u, cs) \<in> set (local_conns s (getLoop c))" "c \<in> set cs"
    using find_SomeD [OF Some] by simp_all
  let ?s = "on_thread (getLoop c) (\<lambda>l. l\<lparr>LocalConnections := reg_del u c (LocalConnections l)\<rparr>) s"
  have "post (logout hi c s) (logged_out c u s)"
  proof (cases "map_of (reg_del u c (local_conns s (getLoop c))) u = None")
    case True
    then have "logout hi c s = removeUserFromOnlineUsers hi c u ?s"
      using Some item by (simp add: logout_def local_conns_def on_thread_def)
    then show ?thesis using removeUserFromOnlineUsers_post [of hi c u ?s] True
      by (simp add: post_def logged_out_def)
  next
    case False
    then have "logout hi c s = Some (Inr ?s)"
      using Some item by (auto simp: logout_def local_conns_def on_thread_def Let_def)
    then show ?thesis using False by (auto simp: logged_out_def)
  qed
  with mem show ?thesis by (auto simp: post_def)
qed

lemma onLogoutRequest_post:
  "post (onLogoutRequest env hi c m s) (\<lambda>s'.
     (\<forall>(u, cs) \<in> set (local_conns s (getLoop c)). c \<notin> set cs) \<and> same_sessions s s'
   \<or> (\<exists>u cs. (u, cs) \<in> set (local_conns s (getLoop c)) \<and> c \<in> set cs \<and> logged_out c u s s'))"
  unfolding onLogoutRequest_def
  by (rule post_then [OF logout_post])
    (auto simp: post_def dest!: codec_send_keeps intro: same_sessions_trans logged_out_same)

section \<open>The invariant\<close>

lemma logged_in_ok:
  assumes "sessions_ok s" and "logged_in c u s s'"
  shows "sessions_ok s'"
proof -
  have "coherent (\<lambda>m k. set (reg_members m k)) (\<lambda>m k. set (reg_members m k)) getLoop
      (local_conns s') (online_users s')"
    using assms sessions.login_coherent [of "local_conns s" "online_users s" c u]
    by (simp add: sessions_ok_def logged_in_def)
  with assms show ?thesis by (auto simp: sessions_ok_def logged_in_def)
qed

lemma logged_out_ok:
  assumes "sessions_ok s" and "logged_out c u s s'"
    and "c \<in> set (reg_members (local_conns s (getLoop c)) u)"
  shows "sessions_ok s'"
proof -
  let ?l = "local_conns s (getLoop c)"
  have ok: "reg_ok (reg_del u c ?l)" using sessions_okD(2) [OF assms(1)] by (rule reg_ok_del)
  have co: "coherent (\<lambda>m k. set (reg_members m k)) (\<lambda>m k. set (reg_members m k)) getLoop
      (local_conns s) (online_users s)" using assms(1) by (simp add: sessions_ok_def)
  have locals: "local_conns s' = (local_conns s)(getLoop c := reg_del u c ?l)"
    using assms(2) by (simp add: logged_out_def)
  have empty: "map_of (reg_del u c ?l) u = None \<longleftrightarrow> set (reg_members (local_conns s' (getLoop c)) u) = {}"
    using reg_members_empty_iff [OF ok, of u] locals by simp
  have "coherent (\<lambda>m k. set (reg_members m k)) (\<lambda>m k. set (reg_members m k)) getLoop
      (local_conns s') (online_users s')"
  proof (cases "map_of (reg_del u c ?l) u = None")
    case True
    then show ?thesis
      using assms(2) empty sessions.logout_coherent(2) [OF co locals] by (simp add: logged_out_def)
  next
    case False
    then show ?thesis
      using assms(2,3) empty sessions.logout_coherent(1) [OF co locals] by (simp add: logged_out_def)
  qed
  with assms(1,2) show ?thesis by (auto simp: sessions_ok_def logged_out_def)
qed

lemma logout_result_ok:
  assumes "sessions_ok s"
    and "(\<forall>(u, cs) \<in> set (local_conns s (getLoop c)). c \<notin> set cs) \<and> same_sessions s s'
   \<or> (\<exists>u cs. (u, cs) \<in> set (local_conns s (getLoop c)) \<and> c \<in> set cs \<and> logged_out c u s s')"
  shows "sessions_ok s'"
  using assms(2)
proof (elim disjE conjE exE)
  assume "same_sessions s s'"
  then show ?thesis using assms(1) by (simp add: same_sessions_ok)
next
  fix u cs
  assume m: "(u, cs) \<in> set (local_conns s (getLoop c))" "c \<in> set cs" and l: "logged_out c u s s'"
  have "distinct (map fst (local_conns s (getLoop c)))"
    using sessions_okD(2) [OF assms(1)] by (simp add: reg_ok_def)
  then have "reg_members (local_conns s (getLoop c)) u = cs"
    using m(1) by (simp add: reg_members_def)
  with m l show ?thesis using logged_out_ok [OF assms(1)] by blast
qed

lemma server_message_cases:
  "server_message env hi c m s =
     (case m of
        LoginRequest x \<Rightarrow> onLoginRequest env hi c x s
      | LogoutRequest x \<Rightarrow> onLogoutRequest env hi c x s
      | RegisterRequest x \<Rightarrow> onRegisterRequest env hi c x s
      | TextMessage x \<Rightarrow> onTextMessage env hi c x s
      | SearchRequest x \<Rightarrow> onSearchRequest env hi c x s
      | GroupRequest x \<Rightarrow> onGroupRequest env hi c x s
      | _ \<Rightarrow> onUnknownMessageType c m s)"
  by (cases m) (simp_all add: server_message_def server_dispatcher_def onProtobufMessage_register
      CallbackT_onMessage_def cast_defs)

lemma server_message_ok:
  assumes "sessions_ok s"
  shows "post (server_message env hi c m s) sessions_ok"
proof -
  have keep: "post r sessions_ok" if "post r (same_sessions s)" for r
    using that assms by (auto simp: post_def same_sessions_ok)
  show ?thesis
  proof (cases m)
    case (LoginRequest x)
    have "post (onLoginRequest env hi c x s) sessions_ok"
      using onLoginRequest_post [of env hi c x s] assms
      by (auto simp: post_def same_sessions_ok dest: logged_in_ok)
    then show ?thesis by (simp add: server_message_cases LoginRequest)
  next
    case (LogoutRequest x)
    have "post (onLogoutRequest env hi c x s) sessions_ok"
      by (rule post_mono [OF onLogoutRequest_post logout_result_ok [OF assms]])
    then show ?thesis by (simp add: server_message_cases LogoutRequest)
  qed (auto simp: server_message_cases onUnknownMessageType_def simp del: post_simps(3)
      intro!: keep onTextMessage_post onRegisterRequest_post onSearchRequest_post onGroupRequest_post
      | simp)+
qed

section \<open>Steps of the server\<close>

text \<open>
  What can happen to a running server: a connection delivers a message, goes up or down, or sends
  bytes the codec rejects; a published message comes in; the pool or a loop takes its next task; a
  thread starts or ends; a hash table is reordered; and the outside moves on its own.
\<close>

inductive server_step :: "chat_codec \<Rightarrow> 'w outside \<Rightarrow> 'w server \<Rightarrow> 'w server \<Rightarrow> bool"
  for env hi where
  message: "server_message env hi c m s = Some (Inr s') \<Longrightarrow> server_step env hi s s'"
| rejected: "server_events env hi c [ErrorCb e] s = Some (Inr s') \<Longrightarrow> server_step env hi s s'"
| connection: "onConnection hi c up s = Some (Inr s') \<Longrightarrow> server_step env hi s s'"
| published: "onRedisPubSubMessage env ch msg s = Some (Inr s') \<Longrightarrow> server_step env hi s s'"
| pool_task:
    "pool_tasks s = (c, g, m) # rest \<Longrightarrow>
     processGroupMessage env hi t c g m (s\<lparr>pool_tasks := rest\<rparr>) = Some (Inr s') \<Longrightarrow>
     server_step env hi s s'"
| loop_task:
    "loop_tasks s = before @ (t, u, m) # after \<Longrightarrow> t \<notin> fst ` set before \<Longrightarrow>
     sendTextMessage env t u m (s\<lparr>loop_tasks := before @ after\<rparr>) = Some (Inr s') \<Longrightarrow>
     server_step env hi s s'"
| thread_start: "threadInit hi t s = Some (Inr s') \<Longrightarrow> server_step env hi s s'"
| pool_start: "initRedisContext hi t s = Some (Inr s') \<Longrightarrow> server_step env hi s s'"
| thread_end: "cleanupRedisContext hi t s = Some (Inr s') \<Longrightarrow> server_step env hi s s'"
| rehash_local:
    "reg_ok lc \<Longrightarrow> (\<And>u. set (reg_members lc u) = set (reg_members (local_conns s t) u)) \<Longrightarrow>
     server_step env hi s (on_thread t (\<lambda>l. l\<lparr>LocalConnections := lc\<rparr>) s)"
| rehash_online:
    "reg_ok online \<Longrightarrow> (\<And>u. set (reg_members online u) = set (reg_members (online_users s) u)) \<Longrightarrow>
     server_step env hi s (s\<lparr>online_users := online\<rparr>)"
| outside: "server_step env hi s (s\<lparr>world := w\<rparr>)"

inductive reachable ::
  "chat_codec \<Rightarrow> 'w outside \<Rightarrow> RedisConnectionInfo list \<Rightarrow> 'w \<Rightarrow> 'w server \<Rightarrow> bool"
  for env hi servers w0 where
  start: "ChatServer hi servers w0 = Some (Inr s) \<Longrightarrow> reachable env hi servers w0 s"
| step: "reachable env hi servers w0 s \<Longrightarrow> server_step env hi s s' \<Longrightarrow>
     reachable env hi servers w0 s'"

lemma threads_keep:
  "post (initRedisContext hi t s) (same_sessions s)"
  "post (cleanupRedisContext hi t s) (same_sessions s)"
  unfolding initRedisContext_def cleanupRedisContext_def
  by (auto intro!: then_pure same_sessions_trans [OF _ same_sessions_on_thread, where s' = "s\<lparr>world := _\<rparr>"]
      split: option.split prod.split)

lemma threadInit_keeps: "post (threadInit hi t s) (same_sessions s)"
  unfolding threadInit_def by (rule post_then [OF threads_keep(1)]) simp

lemma sessions_ok_cong:
  assumes "sessions_ok s" and "reg_ok (online_users s')" and "\<And>t. reg_ok (local_conns s' t)"
    and "\<And>t u. set (reg_members (local_conns s' t) u) = set (reg_members (local_conns s t) u)"
    and "\<And>u. set (reg_members (online_users s') u) = set (reg_members (online_users s) u)"
  shows "sessions_ok s'"
  using assms(1) by (simp only: sessions_ok_def coherent_def assms(2-5) simp_thms) blast

lemma server_step_ok:
  assumes "server_step env hi s s'" and ok: "sessions_ok s"
  shows "sessions_ok s'"
  using assms(1)
proof cases
  case (message c m)
  then show ?thesis by (rule postD [OF server_message_ok [OF ok]])
next
  case (rejected c e)
  then have "same_sessions s s'" by (auto split: if_splits)
  then show ?thesis using ok by (simp add: same_sessions_ok)
next
  case (connection c up)
  have "post (logout hi c s) sessions_ok"
    by (rule post_mono [OF logout_post logout_result_ok [OF ok]])
  then have "post (onConnection hi c up s) sessions_ok" using ok by (simp add: onConnection_def)
  then show ?thesis using connection by (rule postD)
next
  case (published ch msg)
  then have "same_sessions s s'" by (rule postD [OF onRedisPubSubMessage_post, rotated]) simp
  then show ?thesis using ok by (simp add: same_sessions_ok)
next
  case (pool_task c g m rest t)
  have "same_sessions s s'"
    by (rule postD [OF processGroupMessage_post pool_task(2)]) simp
  then show ?thesis using ok by (simp add: same_sessions_ok)
next
  case (loop_task before t u m "after")
  have "same_sessions s s'" by (rule postD [OF sendTextMessage_post loop_task(3)]) simp
  then show ?thesis using ok by (simp add: same_sessions_ok)
next
  case (thread_start t)
  then have "same_sessions s s'" by (rule postD [OF threadInit_keeps])
  then show ?thesis using ok by (simp add: same_sessions_ok)
next
  case (pool_start t)
  then have "same_sessions s s'" by (rule postD [OF threads_keep(1)])
  then show ?thesis using ok by (simp add: same_sessions_ok)
next
  case (thread_end t)
  then have "same_sessions s s'" by (rule postD [OF threads_keep(2)])
  then show ?thesis using ok by (simp add: same_sessions_ok)
next
  case (rehash_local lc t)
  have "local_conns s' = (local_conns s)(t := lc)" "online_users s' = online_users s"
    by (auto simp: rehash_local(1) local_conns_def on_thread_def fun_eq_iff)
  then show ?thesis
    by (intro sessions_ok_cong [OF ok]) (simp_all add: rehash_local(2,3) sessions_okD(1,2) [OF ok])
next
  case (rehash_online online)
  then show ?thesis
    by (intro sessions_ok_cong [OF ok]) (simp_all add: sessions_okD(1,2) [OF ok])
next
  case (outside w)
  then have "same_sessions s s'" by simp
  then show ?thesis using ok by (simp add: same_sessions_ok)
qed

lemma ChatServer_start:
  "ChatServer hi servers w0 = Some (Inr s) \<Longrightarrow>
     online_users s = [] \<and> local_conns s = (\<lambda>_. []) \<and> pool_tasks s = [] \<and> loop_tasks s = [] \<and> outputs s = []"
  by (auto simp: ChatServer_def run_then_Inr_iff case_prod_beta local_conns_def new_thread_def fun_eq_iff)

lemma reachable_ok: "reachable env hi servers w0 s \<Longrightarrow> sessions_ok s"
proof (induction rule: reachable.induct)
  case (start s)
  then show ?case by (auto simp: sessions_ok_def coherent_def dest!: ChatServer_start)
qed (rule server_step_ok)

section \<open>A sample run\<close>

text \<open>
  One Redis server that knows two users, one loop, and a connection in it that logs in as the one,
  and then as the other without logging out first.
\<close>

definition sample_conn :: conn where
  "sample_conn = Conn 1 1"

definition sample_world :: mem where
  "sample_world = mem_fresh\<lparr>m_hash := [(''users'', [(''ann'', ''pw''), (''bob'', ''pw'')])]\<rparr>"

definition sample_servers :: "RedisConnectionInfo list" where
  "sample_servers = [\<lparr>rc_host = ''127.0.0.1'', rc_port = 6379\<rparr>]"

definition sample_login :: "string \<Rightarrow> mem server \<Rightarrow> mem server run" where
  "sample_login u = server_message chat_env mem_hi sample_conn
     (LoginRequest \<lparr>cr_username = u, cr_password = ''pw''\<rparr>)"

definition sample_once :: "mem server run" where
  "sample_once = run_then (ChatServer mem_hi sample_servers sample_world) (\<lambda>s.
     run_then (threadInit mem_hi 1 s) (sample_login ''ann''))"

definition sample_twice :: "mem server run" where
  "sample_twice = run_then sample_once (sample_login ''bob'')"

lemma sample_once_reachable:
  "sample_once = Some (Inr s) \<Longrightarrow> reachable chat_env mem_hi sample_servers sample_world s"
  unfolding sample_once_def run_then_Inr_iff sample_login_def
  by (blast intro: reachable.intros server_step.intros)

lemma sample_twice_reachable:
  "sample_twice = Some (Inr s) \<Longrightarrow> reachable chat_env mem_hi sample_servers sample_world s"
  unfolding sample_twice_def run_then_Inr_iff sample_login_def
  by (blast intro: reachable.step sample_once_reachable server_step.message)

lemma sample_once_returns:
  "returns sample_once (\<lambda>s. local_conns s 1 = [(''ann'', [sample_conn])])"
  by code_simp

lemma sample_twice_returns:
  "returns sample_twice
     (\<lambda>s. local_conns s 1 = [(''ann'', [sample_conn]), (''bob'', [sample_conn])])"
  by code_simp

lemma sample_once_down:
  "returns (run_then sample_once (onConnection mem_hi sample_conn False))
     (\<lambda>s. local_conns s 1 = [])"
  by code_simp

lemma sample_twice_down:
  "returns (run_then sample_twice (onConnection mem_hi sample_conn False))
     (\<lambda>s. local_conns s 1 = [(''bob'', [sample_conn])])"
  by code_simp

section \<open>Properties\<close>

text \<open>
  C20: in every reachable state the two session tables agree: a user is listed online in a loop
  exactly when that loop's thread holds a connection of the user, every connection is held by the
  thread of its own loop, and neither table keeps an empty entry or an entry twice.
\<close>

theorem sessions_agree:
  assumes "reachable env hi servers w0 s"
  shows "(t \<in> set (reg_members (online_users s) u) \<longleftrightarrow> reg_members (local_conns s t) u \<noteq> [])
    \<and> (c \<in> set (reg_members (local_conns s t) u) \<longrightarrow> getLoop c = t)
    \<and> reg_ok (online_users s) \<and> reg_ok (local_conns s t)"
  using sessions_okD [OF reachable_ok [OF assms]] by blast

theorem sessions_agree_witness:
  "\<exists>s. sample_once = Some (Inr s)
     \<and> (1 \<in> set (reg_members (online_users s) ''ann'') \<longleftrightarrow> reg_members (local_conns s 1) ''ann'' \<noteq> [])
     \<and> getLoop sample_conn = 1 \<and> reg_ok (online_users s) \<and> reg_ok (local_conns s 1)"
proof -
  obtain s where s: "sample_once = Some (Inr s)" "local_conns s 1 = [(''ann'', [sample_conn])]"
    using sample_once_returns by (rule returnsE)
  note agree = sessions_agree [OF sample_once_reachable [OF s(1)]]
  have "sample_conn \<in> set (reg_members (local_conns s 1) ''ann'')"
    by (simp add: s(2) reg_members_def del: One_nat_def)
  with agree [of 1 "''ann''" sample_conn] s(1) show ?thesis by blast
qed

lemma logout_result_members:
  assumes "sessions_ok s"
    and "(\<forall>(u, cs) \<in> set (local_conns s (getLoop c)). c \<notin> set cs) \<and> same_sessions s s'
   \<or> (\<exists>u cs. (u, cs) \<in> set (local_conns s (getLoop c)) \<and> c \<in> set cs \<and> logged_out c u s s')"
  obtains "\<And>t v. c \<notin> set (reg_members (local_conns s t) v)" "local_conns s' = local_conns s"
  | u where "c \<in> set (reg_members (local_conns s (getLoop c)) u)"
      "\<And>t v. set (reg_members (local_conns s' t) v) =
         set (reg_members (local_conns s t) v) - (if v = u then {c} else {})"
  using assms(2)
proof (elim disjE conjE exE)
  assume none: "\<forall>(u, cs) \<in> set (local_conns s (getLoop c)). c \<notin> set cs" and "same_sessions s s'"
  have "c \<notin> set (reg_members (local_conns s t) v)" for t v
  proof
    assume c: "c \<in> set (reg_members (local_conns s t) v)"
    then have "getLoop c = t" by (rule sessions_okD(4) [OF assms(1)])
    with c none show False using reg_members_in [of c "local_conns s t" v] by auto
  qed
  with \<open>same_sessions s s'\<close> that(1) show ?thesis by (simp add: same_sessions_def)
next
  fix u cs
  assume m: "(u, cs) \<in> set (local_conns s (getLoop c))" "c \<in> set cs" and l: "logged_out c u s s'"
  have "distinct (map fst (local_conns s (getLoop c)))"
    using sessions_okD(2) [OF assms(1)] by (simp add: reg_ok_def)
  then have "reg_members (local_conns s (getLoop c)) u = cs"
    using m(1) by (simp add: reg_members_def)
  with m(2) have "c \<in> set (reg_members (local_conns s (getLoop c)) u)" by simp
  moreover have "set (reg_members (local_conns s' t) v) =
         set (reg_members (local_conns s t) v) - (if v = u then {c} else {})" for t v
    using l sessions_okD(4) [OF assms(1), of c t v] by (auto simp: logged_out_def registry_simps)
  ultimately show ?thesis by (rule that(2))
qed



text \<open>
  C22: a connection that was logged in as two users is still held for one of them after it went
  down: the server keeps a dead connection, and goes on sending that user's messages to it.
\<close>

theorem double_login_leaks:
  assumes "reachable env hi servers w0 s"
    and "c \<in> set (reg_members (local_conns s t) u)" and "c \<in> set (reg_members (local_conns s t) v)"
    and "u \<noteq> v" and "onConnection hi c False s = Some (Inr s')"
  shows "\<exists>x \<in> {u, v}. c \<in> set (reg_members (local_conns s' t) x)"
proof -
  have ok: "sessions_ok s" using assms(1) by (rule reachable_ok)
  have "logout hi c s = Some (Inr s')" using assms(5) by (simp add: onConnection_def)
  from postD [OF logout_post this] show ?thesis
    by (rule logout_result_members [OF ok]) (use assms(2-4) in auto)
qed

theorem double_login_leaks_witness:
  "\<exists>s s'. sample_twice = Some (Inr s) \<and> onConnection mem_hi sample_conn False s = Some (Inr s')
     \<and> (\<exists>x \<in> {''ann'', ''bob''}. sample_conn \<in> set (reg_members (local_conns s' 1) x))"
proof -
  obtain s where s: "sample_twice = Some (Inr s)"
      "local_conns s 1 = [(''ann'', [sample_conn]), (''bob'', [sample_conn])]"
    using sample_twice_returns by (rule returnsE)
  have "returns (onConnection mem_hi sample_conn False s) (\<lambda>_. True)"
    using sample_twice_down unfolding s(1) run_then_simps by (auto simp: returns_def)
  then obtain s' where s': "onConnection mem_hi sample_conn False s = Some (Inr s')"
    by (rule returnsE)
  have "\<exists>x \<in> {''ann'', ''bob''}. sample_conn \<in> set (reg_members (local_conns s' 1) x)"
    by (rule double_login_leaks [OF sample_twice_reachable [OF s(1)] _ _ _ s'])
      (simp_all add: s(2) reg_members_def del: One_nat_def)
  with s(1) s' show ?thesis by blast
qed

end
