(* ===== verification/Server_Accounts.thy ===== *)
theory Server_Accounts
  imports Server_Sessions Pubsub_Properties
begin

text \<open>
  Accounts: registration and login over a Redis server that works as documented. The lemmas on Redis
  commands and on subscriptions in a handler are shared with the other services.
\<close>

section \<open>Commands in a handler\<close>

definition redis_up :: "('w \<Rightarrow> view) \<Rightarrow> nat \<Rightarrow> 'w server \<Rightarrow> bool" where
  "redis_up view t s \<longleftrightarrow> (\<exists>c. redis_ctx (thread s t) = Some c \<and> c \<in> v_up (view (world s)))"

definition db_of :: "('w \<Rightarrow> view) \<Rightarrow> 'w server \<Rightarrow> redis_db" where
  "db_of view s = v_db (view (world s))"

text \<open>The state after a command: nothing but the data of the server has changed.\<close>

definition after_command ::
  "('w \<Rightarrow> view) \<Rightarrow> redis_cmd \<Rightarrow> 'w server \<Rightarrow> redis_reply option \<times> 'w server \<Rightarrow> bool" where
  "after_command view cmd s r \<longleftrightarrow> (\<exists>reply w. r = (Some reply, s\<lparr>world := w\<rparr>)
     \<and> db_replies cmd (db_of view s) reply
     \<and> view w = (view (world s))\<lparr>v_db := db_after cmd (db_of view s)\<rparr>)"

context redis_laws
begin

lemma redis_command_up:
  assumes "redis_up view t s" and "well_keyed cmd"
  shows "returns (redis_command hi t cmd s) (after_command view cmd s)"
proof -
  obtain c where c: "redis_ctx (thread s t) = Some c" "c \<in> v_up (view (world s))"
    using assms(1) by (auto simp: redis_up_def)
  from command [OF c(2) assms(2)] obtain r w' where
    "redisCommand hi c cmd (world s) = (Some r, w')" "db_replies cmd (db_of view s) r"
    "view w' = (view (world s))\<lparr>v_db := db_after cmd (db_of view s)\<rparr>" by (auto simp: db_of_def)
  then show ?thesis using c(1) by (auto simp: redis_command_def after_command_def)
qed

lemma after_commandD:
  assumes "after_command view cmd s r"
  obtains reply w where "r = (Some reply, s\<lparr>world := w\<rparr>)" "db_replies cmd (db_of view s) reply"
    "db_of view (s\<lparr>world := w\<rparr>) = db_after cmd (db_of view s)"
    "redis_up view t s = redis_up view t (s\<lparr>world := w\<rparr>)"
    "view w = (view (world s))\<lparr>v_db := db_after cmd (db_of view s)\<rparr>"
  using assms by (auto simp: after_command_def db_of_def redis_up_def)

end

lemma codec_send_framed:
  "can_frame env m \<Longrightarrow>
     codec_send env c m s = Some (Inr (s\<lparr>outputs := outputs s @ framed env c [m]\<rparr>))"
  by (simp add: codec_send_def)

section \<open>Subscriptions in a handler\<close>

text \<open>
  The thread has its connection of every instance, these and the receiving connections work, and
  nothing waits in their output buffers.
\<close>

definition channels_up :: "('w \<Rightarrow> view) \<Rightarrow> nat \<Rightarrow> 'w server \<Rightarrow> bool" where
  "channels_up view t s \<longleftrightarrow> (\<forall>ps \<in> set (redis_pubsubs s). \<exists>c.
     map_of (context_map (thread s t)) (this ps) = Some (Some c)
     \<and> {c, redis_context ps} \<subseteq> v_up (view (world s))
     \<and> v_pending (view (world s)) c = [] \<and> v_pending (view (world s)) (redis_context ps) = [])"

text \<open>Only the log and the lock counters differ.\<close>

definition same_but_log :: "view \<Rightarrow> view \<Rightarrow> bool" where
  "same_but_log v v' \<longleftrightarrow> v_db v' = v_db v \<and> v_pending v' = v_pending v \<and> v_up v' = v_up v"

text \<open>Subscribing and unsubscribing everywhere are the same loop over a command.\<close>

fun locked_each ::
  "'w outside \<Rightarrow> redis_cmd \<Rightarrow> pubsub list \<Rightarrow> context_map \<times> 'w \<Rightarrow> (context_map \<times> 'w) run" where
  "locked_each hi cmd [] s = Some (Inr s)"
| "locked_each hi cmd (ps # rest) s =
     run_then (send_locked hi ps cmd s) (\<lambda>(_, s'). locked_each hi cmd rest s')"

lemma each_is_locked_each:
  "subscribe_each hi ch pss s = locked_each hi (SUBSCRIBE (c_str ch)) pss s"
  "unsubscribe_each hi ch pss s = locked_each hi (UNSUBSCRIBE (c_str ch)) pss s"
  by (induction pss arbitrary: s) (simp_all add: subscribe_def unsubscribe_def case_prod_unfold)

lemma subscribed_after_twice [simp]:
  "subscribed_after c ch (subscribed_after c ch b p) p = subscribed_after c ch b p"
  by (simp add: subscribed_after_def)

lemma subscribed_after_other: "c \<noteq> c' \<Longrightarrow> subscribed_after c ch b (c', cmd) = b"
  by (simp add: subscribed_after_def)

context redis_laws
begin

lemma locked_each_up:
  assumes "\<forall>ps \<in> set pss. \<exists>c. map_of cmap (this ps) = Some (Some c)
     \<and> {c, redis_context ps} \<subseteq> v_up (view w)
     \<and> v_pending (view w) c = [] \<and> v_pending (view w) (redis_context ps) = []"
  shows "\<exists>w'. locked_each hi cmd pss (cmap, w) = Some (Inr (cmap, w')) \<and> same_but_log (view w) (view w')
     \<and> (\<forall>c ch. subscribed_to (v_sent (view w')) c ch =
          (if c \<in> redis_context ` set pss
           then subscribed_after c ch (subscribed_to (v_sent (view w)) c ch) (c, cmd)
           else subscribed_to (v_sent (view w)) c ch))"
  using assms
proof (induction pss arbitrary: w)
  case (Cons ps pss)
  from Cons.prems obtain c where c: "map_of cmap (this ps) = Some (Some c)"
    "c \<in> v_up (view w)" "v_pending (view w) c = []"
    "redis_context ps \<in> v_up (view w)" "v_pending (view w) (redis_context ps) = []" by auto
  from send_locked_up [OF c, of cmd] obtain n m w1 where s:
    "send_locked hi ps cmd (cmap, w) = Some (Inr (True, cmap, w1))"
    "view w1 = (view w)\<lparr>v_sent := v_sent (view w) @ replicate n (unlock_note c)
        @ [(redis_context ps, cmd)], v_waits := (v_waits (view w))(this ps := m)\<rparr>" by blast
  have p: "\<forall>ps \<in> set pss. \<exists>c. map_of cmap (this ps) = Some (Some c)
     \<and> {c, redis_context ps} \<subseteq> v_up (view w1)
     \<and> v_pending (view w1) c = [] \<and> v_pending (view w1) (redis_context ps) = []"
    using Cons.prems by (simp add: s(2))
  from Cons.IH [OF p] obtain w2 where w2:
    "locked_each hi cmd pss (cmap, w1) = Some (Inr (cmap, w2))" "same_but_log (view w1) (view w2)"
    "\<And>c ch. subscribed_to (v_sent (view w2)) c ch =
       (if c \<in> redis_context ` set pss
        then subscribed_after c ch (subscribed_to (v_sent (view w1)) c ch) (c, cmd)
        else subscribed_to (v_sent (view w1)) c ch)" by blast
  have log: "subscribed_to (v_sent (view w1)) c' ch =
      subscribed_after c' ch (subscribed_to (v_sent (view w)) c' ch) (redis_context ps, cmd)" for c' ch
    by (simp add: s(2))
  have "same_but_log (view w) (view w2)" using w2(2) by (simp add: s(2) same_but_log_def)
  moreover have "subscribed_to (v_sent (view w2)) c' ch =
      (if c' \<in> redis_context ` set (ps # pss)
       then subscribed_after c' ch (subscribed_to (v_sent (view w)) c' ch) (c', cmd)
       else subscribed_to (v_sent (view w)) c' ch)" for c' ch
    unfolding w2(3) log by (cases "c' = redis_context ps") (simp_all add: subscribed_after_other)
  ultimately show ?case using s(1) w2(1) by simp
qed (simp add: same_but_log_def)

end

section \<open>Presence and subscriptions\<close>

text \<open>
  The channel of a user is read on every instance exactly while the user is online here. The
  zero byte is the end of a channel name for Redis, so this speaks of names without one.
\<close>

definition subscriptions_ok :: "('w \<Rightarrow> view) \<Rightarrow> 'w server \<Rightarrow> bool" where
  "subscriptions_ok view s \<longleftrightarrow>
     (\<forall>u. map_of (online_users s) u \<noteq> None \<longrightarrow> nul_free u)
   \<and> (\<forall>ps \<in> set (redis_pubsubs s). \<forall>u. nul_free u \<longrightarrow>
        subscribed_to (v_sent (view (world s))) (redis_context ps) (''user.'' @ u) =
        (map_of (online_users s) u \<noteq> None))"

lemma set_channel_simps [simp]:
  "redis_pubsubs (set_channel t cmap w s) = redis_pubsubs s"
  "online_users (set_channel t cmap w s) = online_users s"
  "world (set_channel t cmap w s) = w"
  "outputs (set_channel t cmap w s) = outputs s"
  "local_conns (set_channel t cmap w s) = local_conns s"
  "redis_ctx (thread (set_channel t cmap w s) t') = redis_ctx (thread s t')"
  "context_map (thread (set_channel t cmap w s) t) = cmap"
  by (simp_all add: set_channel_def on_thread_def local_conns_def fun_eq_iff)

context redis_laws
begin

lemma addUserToOnlineUsers_up:
  assumes "channels_up view (getLoop c) s" and "subscriptions_ok view s" and "nul_free u"
  shows "returns (addUserToOnlineUsers hi c u s) (\<lambda>s'. subscriptions_ok view s'
     \<and> same_but_log (view (world s)) (view (world s')) \<and> outputs s' = outputs s
     \<and> local_conns s' = local_conns s \<and> online_users s' = reg_add u (getLoop c) (online_users s))"
proof (cases "map_of (online_users s) u = None")
  case True
  let ?cmap = "context_map (thread s (getLoop c))"
  from assms(1) locked_each_up [of "redis_pubsubs s" ?cmap "world s" "SUBSCRIBE (''user.'' @ u)"]
  obtain w where w: "locked_each hi (SUBSCRIBE (''user.'' @ u)) (redis_pubsubs s) (?cmap, world s) =
      Some (Inr (?cmap, w))" "same_but_log (view (world s)) (view w)"
    "\<And>c ch. subscribed_to (v_sent (view w)) c ch =
       (if c \<in> redis_context ` set (redis_pubsubs s)
        then subscribed_after c ch (subscribed_to (v_sent (view (world s))) c ch) (c, SUBSCRIBE (''user.'' @ u))
        else subscribed_to (v_sent (view (world s))) c ch)"
    by (auto simp: channels_up_def)
  have "addUserToOnlineUsers hi c u s = Some (Inr ((set_channel (getLoop c) ?cmap w s)
      \<lparr>online_users := reg_add u (getLoop c) (online_users s)\<rparr>))"
    using True w(1) by (simp add: addUserToOnlineUsers_def server_subscribe_def each_is_locked_each
        c_str_Cons assms(3))
  then show ?thesis using assms(2,3) w(2)
    by (simp add: subscriptions_ok_def w(3) registry_simps subscribed_after_def)
next
  case False
  then show ?thesis using assms(2,3)
    by (auto simp: addUserToOnlineUsers_def subscriptions_ok_def registry_simps same_but_log_def)
qed

lemma removeUserFromOnlineUsers_up:
  assumes "channels_up view (getLoop c) s" and "subscriptions_ok view s" and "nul_free u"
    and "map_of (online_users s) u \<noteq> None"
  shows "returns (removeUserFromOnlineUsers hi c u s) (\<lambda>s'. subscriptions_ok view s'
     \<and> same_but_log (view (world s)) (view (world s')) \<and> outputs s' = outputs s
     \<and> local_conns s' = local_conns s \<and> online_users s' = reg_del u (getLoop c) (online_users s))"
proof (cases "map_of (reg_del u (getLoop c) (online_users s)) u = None")
  case True
  let ?s = "s\<lparr>online_users := reg_del u (getLoop c) (online_users s)\<rparr>"
  let ?cmap = "context_map (thread s (getLoop c))"
  from assms(1) locked_each_up [of "redis_pubsubs s" ?cmap "world s" "UNSUBSCRIBE (''user.'' @ u)"]
  obtain w where w: "locked_each hi (UNSUBSCRIBE (''user.'' @ u)) (redis_pubsubs s) (?cmap, world s) =
      Some (Inr (?cmap, w))" "same_but_log (view (world s)) (view w)"
    "\<And>c ch. subscribed_to (v_sent (view w)) c ch =
       (if c \<in> redis_context ` set (redis_pubsubs s)
        then subscribed_after c ch (subscribed_to (v_sent (view (world s))) c ch) (c, UNSUBSCRIBE (''user.'' @ u))
        else subscribed_to (v_sent (view (world s))) c ch)"
    by (auto simp: channels_up_def)
  have "removeUserFromOnlineUsers hi c u s = Some (Inr (set_channel (getLoop c) ?cmap w ?s))"
    using True w(1) by (simp add: removeUserFromOnlineUsers_def server_unsubscribe_def
        each_is_locked_each c_str_Cons assms(3))
  then show ?thesis using assms(2,3) w(2) True
    by (auto simp: subscriptions_ok_def w(3) registry_simps subscribed_after_def)
next
  case False
  then show ?thesis using assms(2,3,4)
    by (auto simp: removeUserFromOnlineUsers_def subscriptions_ok_def registry_simps same_but_log_def
        split: if_splits)
qed

end

section \<open>Login, logout, registration\<close>

text \<open>
  The password on record matches: as a C string, and not empty.
\<close>

definition authentic :: "redis_db \<Rightarrow> credentials \<Rightarrow> bool" where
  "authentic d m \<longleftrightarrow> (\<exists>v. db_hash d ''users'' (c_str (cr_username m)) = Some v
     \<and> c_str v = cr_password m \<and> cr_password m \<noteq> '''')"

abbreviation login_accepted :: "string \<Rightarrow> chat_msg" where
  "login_accepted u \<equiv> LoginResponse \<lparr>lr_username = u, lr_success = True, lr_error_message = ''''\<rparr>"

abbreviation login_refused :: chat_msg where
  "login_refused \<equiv> LoginResponse \<lparr>lr_username = ''guest'', lr_success = False,
     lr_error_message = ''Invalid username or password.''\<rparr>"

abbreviation registered :: chat_msg where
  "registered \<equiv> RegisterResponse \<lparr>st_success = True, st_error_message = ''''\<rparr>"

abbreviation not_registered :: "string \<Rightarrow> chat_msg" where
  "not_registered e \<equiv> RegisterResponse \<lparr>st_success = False, st_error_message = e\<rparr>"

lemma subscriptions_ok_cong:
  "subscriptions_ok view s \<Longrightarrow> online_users s' = online_users s \<Longrightarrow> redis_pubsubs s' = redis_pubsubs s \<Longrightarrow>
     v_sent (view (world s')) = v_sent (view (world s)) \<Longrightarrow> subscriptions_ok view s'"
  by (simp add: subscriptions_ok_def)

lemma channels_up_cong:
  "channels_up view t s \<Longrightarrow> context_map (thread s' t) = context_map (thread s t) \<Longrightarrow>
     redis_pubsubs s' = redis_pubsubs s \<Longrightarrow> v_up (view (world s')) = v_up (view (world s)) \<Longrightarrow>
     v_pending (view (world s')) = v_pending (view (world s)) \<Longrightarrow> channels_up view t s'"
  by (simp add: channels_up_def)

lemma local_conns_updates [simp]:
  "local_conns (s\<lparr>world := w\<rparr>) = local_conns s" "local_conns (s\<lparr>outputs := out\<rparr>) = local_conns s"
  by (simp_all add: local_conns_def fun_eq_iff)

lemma on_thread_simps [simp]:
  "redis_pubsubs (on_thread t f s) = redis_pubsubs s" "world (on_thread t f s) = world s"
  "outputs (on_thread t f s) = outputs s" "thread (on_thread t f s) t = f (thread s t)"
  by (simp_all add: on_thread_def)

context redis_laws
begin

lemma onLoginRequest_up:
  assumes "redis_up view (getLoop c) s" and "channels_up view (getLoop c) s"
    and "subscriptions_ok view s" and "nul_free (cr_username m)"
    and "can_frame env (login_accepted (cr_username m))" and "can_frame env login_refused"
  shows "returns (onLoginRequest env hi c m s) (\<lambda>s'. subscriptions_ok view s'
     \<and> same_but_log (view (world s)) (view (world s'))
     \<and> (if authentic (db_of view s) m
        then logged_in c (cr_username m) s s'
          \<and> outputs s' = outputs s @ framed env c [login_accepted (cr_username m)]
        else same_sessions s s' \<and> outputs s' = outputs s @ framed env c [login_refused]))"
proof -
  let ?u = "cr_username m" and ?t = "getLoop c"
  have "well_keyed (HGET ''users'' (c_str ?u))" by simp
  from redis_command_up [OF assms(1) this] obtain reply w where
    cmd: "redis_command hi ?t (HGET ''users'' (c_str ?u)) s = Some (Inr (Some reply, s\<lparr>world := w\<rparr>))"
    and reply: "db_replies (HGET ''users'' (c_str ?u)) (db_of view s) reply" and v: "view w = view (world s)"
    by (auto simp: returns_def after_command_def db_of_def)
  let ?s1 = "s\<lparr>world := w\<rparr>"
  have ok1: "subscriptions_ok view ?s1" using assms(3) by (rule subscriptions_ok_cong) (simp_all add: v)
  show ?thesis
  proof (cases "authentic (db_of view s) m")
    case True
    let ?s2 = "on_thread ?t (\<lambda>l. l\<lparr>LocalConnections := reg_add ?u c (LocalConnections l)\<rparr>) ?s1"
    have "channels_up view ?t ?s2" using assms(2) by (rule channels_up_cong) (simp_all add: v)
    moreover have "subscriptions_ok view ?s2" using ok1 by (rule subscriptions_ok_cong) simp_all
    ultimately have add: "returns (addUserToOnlineUsers hi c ?u ?s2) (\<lambda>s'. subscriptions_ok view s'
       \<and> same_but_log (view (world s)) (view (world s')) \<and> outputs s' = outputs s
       \<and> logged_in c ?u s s')"
      using addUserToOnlineUsers_up [of c ?s2 ?u] assms(4)
      by (auto simp: returns_def v logged_in_def local_conns_def)
    have run: "onLoginRequest env hi c m s = run_then (addUserToOnlineUsers hi c ?u ?s2)
        (codec_send env c (login_accepted ?u))"
      using True cmd reply by (auto simp: onLoginRequest_def authentic_def Let_def)
    show ?thesis unfolding run
      by (rule returns_then [OF add]) (use True in \<open>auto simp: codec_send_framed assms(5)
          intro: subscriptions_ok_cong logged_in_same\<close>)
  next
    case False
    then have run: "onLoginRequest env hi c m s = codec_send env c login_refused ?s1"
      using cmd reply by (auto simp: onLoginRequest_def authentic_def Let_def split: option.splits)
    show ?thesis unfolding run
      using False ok1 by (auto simp: codec_send_framed assms(6) v same_but_log_def
          intro: subscriptions_ok_cong)
  qed
qed

lemma logout_up:
  assumes "sessions_ok s" and "channels_up view (getLoop c) s" and "subscriptions_ok view s"
  shows "returns (logout hi c s) (\<lambda>s'. subscriptions_ok view s' \<and> outputs s' = outputs s
     \<and> same_but_log (view (world s)) (view (world s')))"
proof (cases "find (\<lambda>item. c \<in> set (snd item)) (local_conns s (getLoop c))")
  case None
  then show ?thesis using assms(3) by (simp add: logout_def local_conns_def same_but_log_def)
next
  case (Some item)
  obtain u cs where item: "item = (u, cs)" by (cases item)
  from find_SomeD [OF Some] have m: "(u, cs) \<in> set (local_conns s (getLoop c))" "c \<in> set cs"
    by (simp_all add: item)
  have "distinct (map fst (local_conns s (getLoop c)))"
    using sessions_okD(2) [OF assms(1)] by (simp add: reg_ok_def)
  then have "reg_members (local_conns s (getLoop c)) u \<noteq> []" using m by (auto simp: reg_members_def)
  then have on: "map_of (online_users s) u \<noteq> None"
    using sessions_okD(3) [OF assms(1), of "getLoop c" u]
    by (cases "map_of (online_users s) u") (auto simp: reg_members_def)
  then have nul: "nul_free u" using assms(3) by (auto simp: subscriptions_ok_def)
  let ?s = "on_thread (getLoop c) (\<lambda>l. l\<lparr>LocalConnections := reg_del u c (LocalConnections l)\<rparr>) s"
  have run: "logout hi c s = (if map_of (LocalConnections (thread ?s (getLoop c))) u = None
      then removeUserFromOnlineUsers hi c u ?s else Some (Inr ?s))"
    using Some by (simp add: item logout_def local_conns_def Let_def)
  have "channels_up view (getLoop c) ?s" using assms(2) by (rule channels_up_cong) simp_all
  moreover have ok: "subscriptions_ok view ?s" using assms(3) by (rule subscriptions_ok_cong) simp_all
  ultimately have rem: "returns (removeUserFromOnlineUsers hi c u ?s) (\<lambda>s'. subscriptions_ok view s'
      \<and> outputs s' = outputs s \<and> same_but_log (view (world s)) (view (world s')))"
    using removeUserFromOnlineUsers_up [of c ?s u] nul on by (auto simp: returns_def)
  show ?thesis
  proof (cases "map_of (LocalConnections (thread ?s (getLoop c))) u = None")
    case True
    show ?thesis unfolding run if_P [OF True] by (rule rem)
  next
    case False
    show ?thesis unfolding run if_not_P [OF False] using ok by (simp add: same_but_log_def)
  qed
qed

lemma onRegisterRequest_up:
  assumes "redis_up view (getLoop c) s" and "cr_username m \<noteq> ''guest''"
    and "can_frame env registered" and "can_frame env (not_registered ''Username already exists.'')"
  shows "\<exists>w. onRegisterRequest env hi c m s = Some (Inr (s\<lparr>world := w,
       outputs := outputs s @ framed env c [if db_hash (db_of view s) ''users'' (c_str (cr_username m)) = None
         then registered else not_registered ''Username already exists.'']\<rparr>))
     \<and> view w = (view (world s))\<lparr>v_db :=
         db_after (HSETNX ''users'' (c_str (cr_username m)) (c_str (cr_password m))) (db_of view s)\<rparr>"
proof -
  let ?cmd = "HSETNX ''users'' (c_str (cr_username m)) (c_str (cr_password m))"
  have "well_keyed ?cmd" by simp
  from redis_command_up [OF assms(1) this] obtain reply w where
    cmd: "redis_command hi (getLoop c) ?cmd s = Some (Inr (Some reply, s\<lparr>world := w\<rparr>))"
    and reply: "db_replies ?cmd (db_of view s) reply"
    and v: "view w = (view (world s))\<lparr>v_db := db_after ?cmd (db_of view s)\<rparr>"
    unfolding returns_def after_command_def by blast
  have "integer reply = (if db_hash (db_of view s) ''users'' (c_str (cr_username m)) = None then 1 else 0)"
    using reply by (simp del: db_after.simps)
  with assms(2-4) cmd show ?thesis
    by (intro exI [of _ w] conjI v)
      (simp add: onRegisterRequest_def codec_send_framed del: db_after.simps)
qed

lemma register_login_up:
  assumes "redis_up view (getLoop c) s" and "channels_up view (getLoop c) s" and "subscriptions_ok view s"
    and "u \<noteq> ''guest''" and "nul_free u" and "nul_free p" and "p \<noteq> ''''"
    and "db_hash (db_of view s) ''users'' u = None"
    and "can_frame env registered" and "can_frame env (not_registered ''Username already exists.'')"
    and "can_frame env (login_accepted u)" and "can_frame env login_refused"
  shows "\<exists>s' s''. onRegisterRequest env hi c \<lparr>cr_username = u, cr_password = p\<rparr> s = Some (Inr s')
     \<and> onLoginRequest env hi c \<lparr>cr_username = u, cr_password = q\<rparr> s' = Some (Inr s'')
     \<and> outputs s'' = outputs s @ framed env c [registered, if q = p then login_accepted u else login_refused]
     \<and> subscriptions_ok view s''
     \<and> (q = p \<longrightarrow> c \<in> set (reg_members (local_conns s'' (getLoop c)) u)
          \<and> map_of (online_users s'') u \<noteq> None)"
proof -
  let ?r = "\<lparr>cr_username = u, cr_password = p\<rparr>" and ?l = "\<lparr>cr_username = u, cr_password = q\<rparr>"
  from onRegisterRequest_up [OF assms(1), of ?r env] assms(4-6,8-10) obtain w where
    reg: "onRegisterRequest env hi c ?r s =
      Some (Inr (s\<lparr>world := w, outputs := outputs s @ framed env c [registered]\<rparr>))"
    and v: "view w = (view (world s))\<lparr>v_db := db_after (HSETNX ''users'' u p) (db_of view s)\<rparr>"
    by (auto simp del: db_after.simps framed_simps)
  let ?s = "s\<lparr>world := w, outputs := outputs s @ framed env c [registered]\<rparr>"
  have up: "redis_up view (getLoop c) ?s" using assms(1) by (simp add: redis_up_def v)
  have ch: "channels_up view (getLoop c) ?s" using assms(2) by (rule channels_up_cong) (simp_all add: v)
  have ok: "subscriptions_ok view ?s" using assms(3) by (rule subscriptions_ok_cong) (simp_all add: v)
  have "db_hash (db_of view ?s) ''users'' u = Some p"
    using assms(8) v by (simp add: db_of_def)
  then have a: "authentic (db_of view ?s) ?l \<longleftrightarrow> q = p"
    using assms(5-7) by (auto simp: authentic_def)
  have "returns (onLoginRequest env hi c ?l ?s) (\<lambda>s'. subscriptions_ok view s' \<and> (if q = p
      then logged_in c u ?s s' \<and> outputs s' = outputs ?s @ framed env c [login_accepted u]
      else same_sessions ?s s' \<and> outputs s' = outputs ?s @ framed env c [login_refused]))"
    by (rule returns_mono [OF onLoginRequest_up [OF up ch ok, of ?l env]])
      (simp_all add: a assms(5,11,12) del: framed_simps split: if_split_asm)
  then obtain s'' where s'': "onLoginRequest env hi c ?l ?s = Some (Inr s'')" "subscriptions_ok view s''" "if q = p
      then logged_in c u ?s s'' \<and> outputs s'' = outputs ?s @ framed env c [login_accepted u]
      else same_sessions ?s s'' \<and> outputs s'' = outputs ?s @ framed env c [login_refused]"
    by (elim returnsE conjE) (rule that)
  have "outputs s'' = outputs s @ framed env c [registered, if q = p then login_accepted u else login_refused]"
    using s''(3) by (cases "q = p") simp_all
  moreover have "q = p \<longrightarrow> c \<in> set (reg_members (local_conns s'' (getLoop c)) u)
      \<and> map_of (online_users s'') u \<noteq> None"
    using s''(3) by (auto simp: logged_in_def registry_simps)
  ultimately show ?thesis using reg s''(1,2) by blast
qed

end

section \<open>Properties\<close>

text \<open>
  C26: a login is answered with success exactly when Redis holds a non-empty password for the name
  that equals the one given; then, and only then, the connection joins the sessions of the user. The
  channels read on every instance are afterwards again exactly those of the users online.
\<close>

theorem login_authenticates:
  assumes "redis_laws hi view unwritten"
    and "redis_up view (getLoop c) s" and "channels_up view (getLoop c) s"
    and "subscriptions_ok view s" and "nul_free (cr_username m)"
    and "can_frame env (login_accepted (cr_username m))" and "can_frame env login_refused"
  shows "\<exists>s'. onLoginRequest env hi c m s = Some (Inr s') \<and> subscriptions_ok view s'
     \<and> (if authentic (db_of view s) m
        then logged_in c (cr_username m) s s'
          \<and> outputs s' = outputs s @ framed env c [login_accepted (cr_username m)]
        else same_sessions s s' \<and> outputs s' = outputs s @ framed env c [login_refused])"
  using redis_laws.onLoginRequest_up [OF assms] by (auto simp: returns_def)

text \<open>One loop, number 1, whose thread has its Redis connections open, and no user online.\<close>

definition sample_server :: "(string \<times> string) list \<Rightarrow> mem server" where
  "sample_server users = \<lparr>
     thread = (\<lambda>_. new_thread)(1 := \<lparr>redis_ctx = Some 0, LocalConnections = [], publish_index = 0,
       context_map = [(0, Some 1)]\<rparr>),
     online_users = [], redis_pubsubs = [sample_pubsub\<lparr>redis_context := 2\<rparr>], loops = [1],
     pool_tasks = [], loop_tasks = [], outputs = [],
     world = mem_fresh\<lparr>m_next := 3, m_hash := [(''users'', users)], m_waits := [(0, 2)]\<rparr>\<rparr>"

lemma sample_server_up:
  "redis_up mem_view 1 (sample_server us)" "channels_up mem_view 1 (sample_server us)"
  "subscriptions_ok mem_view (sample_server us)"
  by (simp_all add: sample_server_def redis_up_def channels_up_def subscriptions_ok_def mem_view_def
      mem_fresh_def mem_ok_def mem_pending_def sample_pubsub_def subscribed_to_def)

lemma sample_server_db:
  "db_of mem_view (sample_server us) =
     \<lparr>db_hash = (\<lambda>k. if k = ''users'' then map_of us else Map.empty), db_set = (\<lambda>_. {})\<rparr>"
  by (simp add: sample_server_def db_of_def mem_view_def mem_fresh_def fields_at_def fun_eq_iff)

theorem login_authenticates_witness:
  "\<exists>s'. onLoginRequest chat_env mem_hi sample_conn \<lparr>cr_username = ''ann'', cr_password = ''pw''\<rparr>
       (sample_server [(''ann'', ''pw'')]) = Some (Inr s')
     \<and> logged_in sample_conn ''ann'' (sample_server [(''ann'', ''pw'')]) s'
     \<and> outputs s' = framed chat_env sample_conn [login_accepted ''ann'']"
proof -
  let ?s = "sample_server [(''ann'', ''pw'')]" and ?m = "\<lparr>cr_username = ''ann'', cr_password = ''pw''\<rparr>"
  have f: "can_frame chat_env (login_accepted ''ann'')" "can_frame chat_env login_refused"
    by code_simp+
  have l: "getLoop sample_conn = 1" by (simp add: sample_conn_def)
  have a: "authentic (db_of mem_view ?s) ?m" by (simp add: authentic_def sample_server_db c_str_Cons)
  have "outputs ?s = []" by (simp add: sample_server_def)
  with login_authenticates [OF memory.redis_laws_axioms, of sample_conn ?s ?m chat_env] a f
    sample_server_up show ?thesis unfolding l by (simp add: nul_free_def del: One_nat_def) blast
qed



text \<open>
  C28: a connection that goes down, in any state of the sessions that can be reached, is handled to
  the end, sends nothing, and leaves the channels read on every instance exactly those of the users
  still online.
\<close>

theorem disconnect_unsubscribes:
  assumes "redis_laws hi view unwritten" and "reachable env hi servers w0 s"
    and "channels_up view (getLoop c) s" and "subscriptions_ok view s"
  shows "\<exists>s'. onConnection hi c False s = Some (Inr s') \<and> subscriptions_ok view s'
     \<and> outputs s' = outputs s"
  using redis_laws.logout_up [OF assms(1) reachable_ok [OF assms(2)] assms(3,4)]
  by (auto simp: returns_def onConnection_def)

text \<open>A user online over the sample connection, after the thread has published once.\<close>

definition sample_talking :: "mem server run" where
  "sample_talking = run_then sample_once (server_message chat_env mem_hi sample_conn (TextMessage
     \<lparr>tm_sender = ''ann'', tm_content = ''hi'', tm_target = ''zoe'', tm_target_type = USER\<rparr>))"

lemma sample_talking_returns:
  "returns sample_talking (\<lambda>s. context_map (thread s 1) = [(0, Some 2)]
     \<and> map redis_context (redis_pubsubs s) = [0] \<and> map this (redis_pubsubs s) = [0]
     \<and> m_next (world s) = 3 \<and> m_broken (world s) = [] \<and> m_out (world s) = []
     \<and> online_users s = [(''ann'', [1])]
     \<and> filter (\<lambda>p. fst p = 0) (m_sent (world s)) = [(0, SUBSCRIBE unlock_channel), (0, SUBSCRIBE ''user.ann'')])"
  by code_simp

lemma subscribed_to_filter: "subscribed_to (filter (\<lambda>p. fst p = c) log) c ch = subscribed_to log c ch"
  by (induction log rule: rev_induct) (auto simp: subscribed_to_def subscribed_after_def)

lemma sample_talking_up:
  obtains s where "sample_talking = Some (Inr s)"
    and "reachable chat_env mem_hi sample_servers sample_world s"
    and "channels_up mem_view (getLoop sample_conn) s" and "subscriptions_ok mem_view s"
proof -
  obtain s where s: "sample_talking = Some (Inr s)" and "context_map (thread s 1) = [(0, Some 2)]
     \<and> map redis_context (redis_pubsubs s) = [0] \<and> map this (redis_pubsubs s) = [0]
     \<and> m_next (world s) = 3 \<and> m_broken (world s) = [] \<and> m_out (world s) = []
     \<and> online_users s = [(''ann'', [1])]
     \<and> filter (\<lambda>p. fst p = 0) (m_sent (world s)) = [(0, SUBSCRIBE unlock_channel), (0, SUBSCRIBE ''user.ann'')]"
    using sample_talking_returns by (rule returnsE)
  then have cm: "context_map (thread s (getLoop sample_conn)) = [(0, Some 2)]"
    and rc: "map redis_context (redis_pubsubs s) = [0]" and th: "map this (redis_pubsubs s) = [0]"
    and w: "m_next (world s) = 3" "m_broken (world s) = []" "m_out (world s) = []"
    and on: "online_users s = [(''ann'', [1])]"
    and log: "filter (\<lambda>p. fst p = 0) (m_sent (world s)) =
      [(0, SUBSCRIBE unlock_channel), (0, SUBSCRIBE ''user.ann'')]"
    by (simp_all add: sample_conn_def)
  obtain ps where ps: "redis_pubsubs s = [ps]" "redis_context ps = 0" "this ps = 0"
    using rc th by (auto simp: map_eq_Cons_conv)
  have r: "reachable chat_env mem_hi sample_servers sample_world s"
    using s unfolding sample_talking_def run_then_Inr_iff
    by (blast intro: reachable.step sample_once_reachable server_step.message)
  have up: "channels_up mem_view (getLoop sample_conn) s"
    using cm ps w by (simp add: channels_up_def mem_view_def mem_ok_def mem_pending_def)
  have "subscribed_to (m_sent (world s)) 0 (''user.'' @ u) \<longleftrightarrow> u = ''ann''" for u
    unfolding subscribed_to_filter [of 0 "m_sent (world s)", symmetric] log
    by (auto simp: subscribed_to_def subscribed_after_def unlock_channel_def)
  then have ok: "subscriptions_ok mem_view s"
    using on ps by (simp add: subscriptions_ok_def mem_view_def nul_free_def)
  show thesis using that s r up ok .
qed

theorem disconnect_unsubscribes_witness:
  "\<exists>s s'. sample_talking = Some (Inr s) \<and> subscriptions_ok mem_view s
     \<and> onConnection mem_hi sample_conn False s = Some (Inr s')
     \<and> subscriptions_ok mem_view s' \<and> outputs s' = outputs s"
  by (rule sample_talking_up) (use disconnect_unsubscribes [OF memory.redis_laws_axioms] in blast)

end
