(* ===== verification/Server_Groups.thy ===== *)
theory Server_Groups
  imports Server_Accounts
begin

text \<open>
  Groups: Redis holds two families of sets, the members of each group and the groups of each user.
  The abstract view is one relation between groups and users. Every group request refines a step on
  the relation, and keeps the two families consistent. Names count up to their first zero byte,
  which is all that reaches Redis.
\<close>

section \<open>Keys\<close>

lemma key_ends: "x @ '':users'' = y @ '':users'' \<longleftrightarrow> x = y" "x @ '':groups'' = y @ '':groups'' \<longleftrightarrow> x = y"
  by simp_all

lemma keys [simp]:
  "group_key g = group_key g' \<longleftrightarrow> c_str g = c_str g'"
  "groups_key u = groups_key u' \<longleftrightarrow> c_str u = c_str u'"
  "group_key g \<noteq> groups_key u" "groups_key u \<noteq> group_key g"
  "group_key g \<noteq> ''users''" "groups_key u \<noteq> ''users''"
  by (simp_all add: group_key_def groups_key_def)

lemma keys_c_str [simp]: "group_key (c_str g) = group_key g" "groups_key (c_str u) = groups_key u"
  by simp_all

section \<open>The relation\<close>

definition membership :: "redis_db \<Rightarrow> (string \<times> string) set" where
  "membership d = {(g, u). nul_free g \<and> nul_free u \<and> u \<in> db_set d (group_key g)}"

definition groups_ok :: "redis_db \<Rightarrow> bool" where
  "groups_ok d \<longleftrightarrow>
     (\<forall>k. k \<noteq> ''users'' \<longrightarrow> db_hash d k = Map.empty)
   \<and> (\<forall>g u. nul_free g \<longrightarrow> nul_free u \<longrightarrow> u \<in> db_set d (group_key g) \<longleftrightarrow> g \<in> db_set d (groups_key u))
   \<and> (\<forall>g u. u \<in> db_set d (group_key g) \<longrightarrow> nul_free u)
   \<and> (\<forall>g u. g \<in> db_set d (groups_key u) \<longrightarrow> nul_free g)"

lemma membership_iff: "nul_free g \<Longrightarrow> nul_free u \<Longrightarrow> (g, u) \<in> membership d \<longleftrightarrow> u \<in> db_set d (group_key g)"
  by (simp add: membership_def)

lemma groups_okD:
  assumes "groups_ok d"
  shows "k \<noteq> ''users'' \<Longrightarrow> db_hash d k = Map.empty"
    and "nul_free g \<Longrightarrow> nul_free u \<Longrightarrow> g \<in> db_set d (groups_key u) \<longleftrightarrow> u \<in> db_set d (group_key g)"
    and "u \<in> db_set d (group_key g) \<Longrightarrow> nul_free u" and "g \<in> db_set d (groups_key u) \<Longrightarrow> nul_free g"
  using assms unfolding groups_ok_def by blast+

lemma group_exists_iff:
  assumes "groups_ok d"
  shows "db_set d (group_key g) \<noteq> {} \<longleftrightarrow> (\<exists>u. (c_str g, u) \<in> membership d)"
proof -
  have "(c_str g, u) \<in> membership d \<longleftrightarrow> u \<in> db_set d (group_key g)" for u
    using groups_okD(3) [OF assms, of u g] by (auto simp: membership_def simp del: keys)
  then show ?thesis by (simp add: ex_in_conv)
qed

lemma joined_groups:
  assumes "groups_ok d"
  shows "db_set d (groups_key u) = {g. (g, c_str u) \<in> membership d}"
  using groups_okD(2) [OF assms, of _ "c_str u"] groups_okD(4) [OF assms, of _ u]
  by (auto simp: membership_def)

definition db_join :: "string \<Rightarrow> string \<Rightarrow> redis_db \<Rightarrow> redis_db" where
  "db_join g u d = db_after (SADD (groups_key u) (c_str g)) (db_after (SADD (group_key g) (c_str u)) d)"

definition db_leave :: "string \<Rightarrow> string \<Rightarrow> redis_db \<Rightarrow> redis_db" where
  "db_leave g u d = db_after (SREM (groups_key u) (c_str g)) (db_after (SREM (group_key g) (c_str u)) d)"

lemma db_join_simps:
  "db_hash (db_join g u d) = db_hash d"
  "db_set (db_join g u d) = (db_set d)(group_key g := insert (c_str u) (db_set d (group_key g)),
     groups_key u := insert (c_str g) (db_set d (groups_key u)))"
  by (simp_all add: db_join_def)

lemma db_leave_simps:
  "db_hash (db_leave g u d) = db_hash d"
  "db_set (db_leave g u d) = (db_set d)(group_key g := db_set d (group_key g) - {c_str u},
     groups_key u := db_set d (groups_key u) - {c_str g})"
  by (simp_all add: db_leave_def)

lemma db_join_membership:
  "membership (db_join g u d) = insert (c_str g, c_str u) (membership d)"
proof -
  have "(a, b) \<in> membership (db_join g u d) \<longleftrightarrow> (a, b) \<in> insert (c_str g, c_str u) (membership d)" for a b
    by (cases "a = c_str g") (auto simp: membership_def db_join_simps)
  then show ?thesis by auto
qed

lemma db_leave_membership:
  "membership (db_leave g u d) = membership d - {(c_str g, c_str u)}"
proof -
  have "(a, b) \<in> membership (db_leave g u d) \<longleftrightarrow> (a, b) \<in> membership d - {(c_str g, c_str u)}" for a b
    by (cases "a = c_str g") (auto simp: membership_def db_leave_simps)
  then show ?thesis by auto
qed

lemma db_join_ok:
  assumes "groups_ok d" shows "groups_ok (db_join g u d)"
  unfolding groups_ok_def
proof (intro conjI allI impI)
  fix k assume "k \<noteq> ''users''"
  then show "db_hash (db_join g u d) k = Map.empty" using groups_okD(1) [OF assms] by (simp add: db_join_simps)
next
  fix g' u' assume "nul_free g'" "nul_free u'"
  then show "u' \<in> db_set (db_join g u d) (group_key g') \<longleftrightarrow> g' \<in> db_set (db_join g u d) (groups_key u')"
    using groups_okD(2) [OF assms, of g' u'] by (auto simp: db_join_simps)
next
  show "nul_free u'" if "u' \<in> db_set (db_join g u d) (group_key g')" for g' u'
    using that groups_okD(3) [OF assms] by (auto simp: db_join_simps split: if_splits)
  show "nul_free g'" if "g' \<in> db_set (db_join g u d) (groups_key u')" for g' u'
    using that groups_okD(4) [OF assms] by (auto simp: db_join_simps split: if_splits)
qed

lemma db_leave_ok:
  assumes "groups_ok d" shows "groups_ok (db_leave g u d)"
  unfolding groups_ok_def
proof (intro conjI allI impI)
  fix k assume "k \<noteq> ''users''"
  then show "db_hash (db_leave g u d) k = Map.empty" using groups_okD(1) [OF assms] by (simp add: db_leave_simps)
next
  fix g' u' assume "nul_free g'" "nul_free u'"
  then show "u' \<in> db_set (db_leave g u d) (group_key g') \<longleftrightarrow> g' \<in> db_set (db_leave g u d) (groups_key u')"
    using groups_okD(2) [OF assms, of g' u'] by (auto simp: db_leave_simps)
next
  show "nul_free u'" if "u' \<in> db_set (db_leave g u d) (group_key g')" for g' u'
    using that groups_okD(3) [OF assms] by (auto simp: db_leave_simps split: if_splits)
  show "nul_free g'" if "g' \<in> db_set (db_leave g u d) (groups_key u')" for g' u'
    using that groups_okD(4) [OF assms] by (auto simp: db_leave_simps split: if_splits)
qed

section \<open>The abstract step\<close>

fun group_spec ::
  "GroupOperation \<Rightarrow> string \<Rightarrow> string \<Rightarrow> (string \<times> string) set \<Rightarrow> bool \<times> string \<times> (string \<times> string) set" where
  "group_spec CREATE g u M =
     (if \<exists>v. (g, v) \<in> M then (False, ''Group already exists.'', M) else (True, '''', insert (g, u) M))"
| "group_spec JOIN g u M =
     (if \<nexists>v. (g, v) \<in> M then (False, ''Group does not exist.'', M)
      else if (g, u) \<in> M then (False, ''User already in the group.'', M)
      else (True, '''', insert (g, u) M))"
| "group_spec LEAVE g u M =
     (if \<nexists>v. (g, v) \<in> M then (False, ''Group does not exist.'', M)
      else if (g, u) \<notin> M then (False, ''User not in the group.'', M)
      else (True, '''', M - {(g, u)}))"
| "group_spec QUERY g u M = (True, '''', M)"
| "group_spec GroupOperation_unnamed g u M = (False, ''Unknown group operation.'', M)"

section \<open>The operations\<close>

text \<open>Nothing but the data of the Redis server has changed, to \<open>d\<close>.\<close>

definition with_db :: "('w \<Rightarrow> view) \<Rightarrow> 'w server \<Rightarrow> redis_db \<Rightarrow> 'w server \<Rightarrow> bool" where
  "with_db view s d s' \<longleftrightarrow> (\<exists>w. s' = s\<lparr>world := w\<rparr> \<and> view w = (view (world s))\<lparr>v_db := d\<rparr>)"

lemma with_dbD:
  assumes "with_db view s d s'"
  shows "db_of view s' = d" "redis_up view t s' = redis_up view t s" "outputs s' = outputs s"
    "same_sessions s s'"
  using assms by (auto simp: with_db_def db_of_def redis_up_def)

lemma with_db_trans: "with_db view s d s' \<Longrightarrow> with_db view s' d' s'' \<Longrightarrow> with_db view s d' s''"
  by (auto simp: with_db_def)

context redis_laws
begin

lemma redis_command_with_db:
  assumes "redis_up view t s" and "with_db view s0 d s" and "well_keyed cmd"
  shows "\<exists>reply s'. redis_command hi t cmd s = Some (Inr (Some reply, s'))
     \<and> db_replies cmd d reply \<and> with_db view s0 (db_after cmd d) s' \<and> redis_up view t s'"
proof -
  note d = with_dbD [OF assms(2)]
  from redis_command_up [OF assms(1,3)] obtain reply w where
    "redis_command hi t cmd s = Some (Inr (Some reply, s\<lparr>world := w\<rparr>))" "db_replies cmd d reply"
    "view w = (view (world s))\<lparr>v_db := db_after cmd d\<rparr>"
    by (auto simp: returns_def after_command_def d(1))
  moreover from this(3) have "with_db view s0 (db_after cmd d) (s\<lparr>world := w\<rparr>)"
    using assms(2) by (auto simp: with_db_def)
  moreover have "redis_up view t (s\<lparr>world := w\<rparr>)"
    using assms(1) \<open>view w = _\<close> by (simp add: redis_up_def)
  ultimately show ?thesis by blast
qed

lemma group_add_up:
  assumes "redis_up view t s" and "with_db view s0 d s" and "groups_ok d"
  shows "\<exists>s'. group_add hi t g u s = Some (Inr ((c_str g, c_str u) \<notin> membership d, s'))
     \<and> with_db view s0 (db_join g u d) s' \<and> redis_up view t s'"
proof -
  have k: "well_keyed (SADD (group_key g) (c_str u))" "well_keyed (SADD (groups_key u) (c_str g))" by simp_all
  from redis_command_with_db [OF assms(1,2) k(1)] obtain r1 s1 where
    1: "redis_command hi t (SADD (group_key g) (c_str u)) s = Some (Inr (Some r1, s1))"
      "db_replies (SADD (group_key g) (c_str u)) d r1"
      "with_db view s0 (db_after (SADD (group_key g) (c_str u)) d) s1" "redis_up view t s1" by blast
  from redis_command_with_db [OF 1(4,3) k(2)] obtain r2 s2 where
    2: "redis_command hi t (SADD (groups_key u) (c_str g)) s1 = Some (Inr (Some r2, s2))"
      "db_replies (SADD (groups_key u) (c_str g)) (db_after (SADD (group_key g) (c_str u)) d) r2"
      "with_db view s0 (db_join g u d) s2" "redis_up view t s2" unfolding db_join_def by blast
  have "c_str u \<in> db_set d (group_key g) \<longleftrightarrow> (c_str g, c_str u) \<in> membership d"
    "c_str g \<in> db_set d (groups_key u) \<longleftrightarrow> (c_str g, c_str u) \<in> membership d"
    using groups_okD(2) [OF assms(3), of "c_str g" "c_str u"] by (simp_all add: membership_def)
  then show ?thesis using 1(1,2) 2
    by (auto simp: group_add_def both_one_def)
qed

lemma drop_if_empty_up:
  assumes "redis_up view t s" and "with_db view s0 d s" and "k \<noteq> ''users''" and "db_hash d k = Map.empty"
  shows "\<exists>s'. drop_if_empty hi t k s = Some (Inr s') \<and> with_db view s0 d s' \<and> redis_up view t s'"
proof -
  have k: "well_keyed (SCARD k)" "well_keyed (DEL k)" using assms(3) by simp_all
  from redis_command_with_db [OF assms(1,2) k(1)] obtain r1 s1 where
    1: "redis_command hi t (SCARD k) s = Some (Inr (Some r1, s1))" "db_replies (SCARD k) d r1"
      "with_db view s0 d s1" "redis_up view t s1" by auto
  show ?thesis
  proof (cases "integer r1 = 0")
    case True
    have "finite (db_set d k)" using finite_set [of "world s" k] with_dbD(1) [OF assms(2)] by (simp add: db_of_def)
    then have "db_set d k = {}" using True 1(2) by simp
    then have same: "db_after (DEL k) d = d" using assms(4) by (simp add: fun_upd_idem)
    from redis_command_with_db [OF 1(4,3) k(2)] obtain r2 s2 where
      "redis_command hi t (DEL k) s1 = Some (Inr (Some r2, s2))" "with_db view s0 d s2" "redis_up view t s2"
      unfolding same by blast
    then show ?thesis using True 1(1) by (simp add: drop_if_empty_def)
  next
    case False
    then show ?thesis using 1 by (simp add: drop_if_empty_def)
  qed
qed

lemma group_remove_up:
  assumes "redis_up view t s" and "with_db view s0 d s" and "groups_ok d"
  shows "\<exists>s'. group_remove hi t g u s = Some (Inr ((c_str g, c_str u) \<in> membership d, s'))
     \<and> with_db view s0 (db_leave g u d) s' \<and> redis_up view t s'"
proof -
  have k: "well_keyed (SREM (group_key g) (c_str u))" "well_keyed (SREM (groups_key u) (c_str g))" by simp_all
  from redis_command_with_db [OF assms(1,2) k(1)] obtain r1 s1 where
    1: "redis_command hi t (SREM (group_key g) (c_str u)) s = Some (Inr (Some r1, s1))"
      "db_replies (SREM (group_key g) (c_str u)) d r1"
      "with_db view s0 (db_after (SREM (group_key g) (c_str u)) d) s1" "redis_up view t s1" by blast
  from redis_command_with_db [OF 1(4,3) k(2)] obtain r2 s2 where
    2: "redis_command hi t (SREM (groups_key u) (c_str g)) s1 = Some (Inr (Some r2, s2))"
      "db_replies (SREM (groups_key u) (c_str g)) (db_after (SREM (group_key g) (c_str u)) d) r2"
      "with_db view s0 (db_leave g u d) s2" "redis_up view t s2" unfolding db_leave_def by blast
  have e: "db_hash (db_leave g u d) k = Map.empty" if "k \<noteq> ''users''" for k
    using groups_okD(1) [OF assms(3) that] by (simp add: db_leave_simps)
  from drop_if_empty_up [OF 2(4,3) keys(5) e] obtain s3 where
    3: "drop_if_empty hi t (group_key g) s2 = Some (Inr s3)" "with_db view s0 (db_leave g u d) s3"
      "redis_up view t s3" by auto
  from drop_if_empty_up [OF 3(3,2) keys(6) e] obtain s4 where
    4: "drop_if_empty hi t (groups_key u) s3 = Some (Inr s4)" "with_db view s0 (db_leave g u d) s4"
      "redis_up view t s4" by auto
  have "c_str u \<in> db_set d (group_key g) \<longleftrightarrow> (c_str g, c_str u) \<in> membership d"
    "c_str g \<in> db_set d (groups_key u) \<longleftrightarrow> (c_str g, c_str u) \<in> membership d"
    using groups_okD(2) [OF assms(3), of "c_str g" "c_str u"] by (simp_all add: membership_def)
  then show ?thesis using 1(1,2) 2(1,2) 3(1) 4
    by (auto simp: group_remove_def both_one_def)
qed

end

section \<open>Group requests\<close>

lemma strings_of_replies: "strings_of (map bulk_reply us) = Inr (map c_str us)"
  by (induction us) (simp_all add: string_of_def)

lemma strings_of_bulk: "\<forall>m \<in> set ms. nul_free m \<Longrightarrow> strings_of (map bulk_reply ms) = Inr ms"
  by (simp add: strings_of_replies map_idI)

text \<open>The relation after a request, and the response to it over an enumeration of the user's groups.\<close>

definition spec_of :: "group_request \<Rightarrow> (string \<times> string) set \<Rightarrow> bool \<times> string \<times> (string \<times> string) set" where
  "spec_of m = group_spec (gq_operation m) (c_str (gq_group_name m)) (c_str (gq_username m))"

definition group_response :: "group_request \<Rightarrow> (string \<times> string) set \<Rightarrow> string list \<Rightarrow> chat_msg" where
  "group_response m M gs = (case spec_of m M of (success, error_message, _) \<Rightarrow>
     GroupResponse \<lparr>gr_operation = gq_operation m, gr_success = success,
       gr_error_message = error_message, gr_joined_groups = gs\<rparr>)"

definition members_after :: "group_request \<Rightarrow> (string \<times> string) set \<Rightarrow> (string \<times> string) set" where
  "members_after m M = snd (snd (spec_of m M))"

definition groups_after :: "group_request \<Rightarrow> (string \<times> string) set \<Rightarrow> string list \<Rightarrow> bool" where
  "groups_after m M gs \<longleftrightarrow>
     distinct gs \<and> set gs = {g. (g, c_str (gq_username m)) \<in> members_after m M}"

context redis_laws
begin

lemma group_operation_up:
  assumes "redis_up view t s" and "with_db view s0 d s" and "groups_ok d"
  shows "\<exists>s' d'. group_operation hi t m (\<exists>v. (c_str (gq_group_name m), v) \<in> membership d) s =
       Some (Inr ((fst (spec_of m (membership d)), fst (snd (spec_of m (membership d)))), s'))
     \<and> with_db view s0 d' s' \<and> redis_up view t s' \<and> groups_ok d'
     \<and> membership d' = members_after m (membership d)"
proof -
  let ?g = "gq_group_name m" and ?u = "gq_username m"
  obtain s1 where 1: "group_add hi t ?g ?u s = Some (Inr ((c_str ?g, c_str ?u) \<notin> membership d, s1))"
    "with_db view s0 (db_join ?g ?u d) s1" "redis_up view t s1"
    using group_add_up [OF assms] by blast
  obtain s2 where 2: "group_remove hi t ?g ?u s = Some (Inr ((c_str ?g, c_str ?u) \<in> membership d, s2))"
    "with_db view s0 (db_leave ?g ?u d) s2" "redis_up view t s2"
    using group_remove_up [OF assms] by blast
  have j: "groups_ok (db_join ?g ?u d)" "membership (db_join ?g ?u d) = insert (c_str ?g, c_str ?u) (membership d)"
    using db_join_ok [OF assms(3)] by (simp_all add: db_join_membership)
  have l: "groups_ok (db_leave ?g ?u d)" "membership (db_leave ?g ?u d) = membership d - {(c_str ?g, c_str ?u)}"
    using db_leave_ok [OF assms(3)] by (simp_all add: db_leave_membership)
  note d = group_operation_def spec_of_def members_after_def
  show ?thesis
  proof (cases "\<exists>v. (c_str ?g, v) \<in> membership d")
    case e: True
    show ?thesis
    proof (cases "gq_operation m")
      case CREATE then show ?thesis using e assms by (auto simp: d)
    next
      case JOIN then show ?thesis using e 1 j by (auto simp: d insert_absorb intro!: exI [of _ s1])
    next
      case LEAVE then show ?thesis using e 2 l by (auto simp: d intro!: exI [of _ s2])
    next
      case QUERY then show ?thesis using assms by (auto simp: d)
    qed (use assms in \<open>auto simp: d\<close>)
  next
    case e: False
    then have n: "(c_str ?g, c_str ?u) \<notin> membership d" by blast
    show ?thesis
    proof (cases "gq_operation m")
      case CREATE then show ?thesis using e n 1 j by (auto simp: d intro!: exI [of _ s1])
    next
      case JOIN then show ?thesis using e assms by (auto simp: d)
    next
      case LEAVE then show ?thesis using e assms by (auto simp: d)
    next
      case QUERY then show ?thesis using assms by (auto simp: d)
    qed (use assms in \<open>auto simp: d\<close>)
  qed
qed

end

context redis_laws
begin

lemma onGroupRequest_up:
  assumes "redis_up view (getLoop c) s" and "groups_ok (db_of view s)"
    and f: "\<And>gs. groups_after m (membership (db_of view s)) gs \<Longrightarrow>
      can_frame env (group_response m (membership (db_of view s)) gs)"
  shows "\<exists>s' gs. onGroupRequest env hi c m s = Some (Inr s') \<and> groups_ok (db_of view s')
     \<and> membership (db_of view s') = members_after m (membership (db_of view s))
     \<and> groups_after m (membership (db_of view s)) gs
     \<and> outputs s' = outputs s @ framed env c [group_response m (membership (db_of view s)) gs]
     \<and> same_sessions s s'"
proof -
  let ?t = "getLoop c" and ?d = "db_of view s" and ?g = "gq_group_name m" and ?u = "gq_username m"
  let ?M = "membership ?d"
  have w: "with_db view s ?d s" by (auto simp: with_db_def db_of_def intro!: exI [of _ "world s"])
  have k: "well_keyed (EXISTS (group_key ?g))" "well_keyed (SMEMBERS (groups_key ?u))" by simp_all
  from redis_command_with_db [OF assms(1) w k(1)] obtain s1 where
    1: "redis_command hi ?t (EXISTS (group_key ?g)) s =
       Some (Inr (Some (int_reply (if db_set ?d (group_key ?g) = {} \<and> db_hash ?d (group_key ?g) = Map.empty
         then 0 else 1)), s1))" "with_db view s ?d s1" "redis_up view ?t s1" by auto
  have e: "(if db_set ?d (group_key ?g) = {} \<and> db_hash ?d (group_key ?g) = Map.empty then 0 else 1) = (1::int)
      \<longleftrightarrow> (\<exists>v. (c_str ?g, v) \<in> ?M)"
    using groups_okD(1) [OF assms(2) keys(5)] group_exists_iff [OF assms(2), of ?g] by auto
  from group_operation_up [OF 1(3,2) assms(2), of m] obtain s2 d where
    2: "group_operation hi ?t m (\<exists>v. (c_str ?g, v) \<in> ?M) s1 =
       Some (Inr ((fst (spec_of m ?M), fst (snd (spec_of m ?M))), s2))"
      "with_db view s d s2" "redis_up view ?t s2" "groups_ok d" "membership d = members_after m ?M" by blast
  from redis_command_with_db [OF 2(3,2) k(2)] obtain gs s3 where
    3: "redis_command hi ?t (SMEMBERS (groups_key ?u)) s2 =
       Some (Inr (Some (array_reply (map bulk_reply gs)), s3))"
      "distinct gs" "set gs = db_set d (groups_key ?u)" "with_db view s d s3" by auto
  have n: "\<forall>g \<in> set gs. nul_free g" using groups_okD(4) [OF 2(4)] 3(3) by auto
  have a: "groups_after m ?M gs" using 3(2,3) joined_groups [OF 2(4), of ?u] 2(5) by (simp add: groups_after_def)
  let ?s = "s3\<lparr>outputs := outputs s3 @ framed env c [group_response m ?M gs]\<rparr>"
  have "onGroupRequest env hi c m s = Some (Inr ?s)"
    using 1(1) 2(1) 3(1) strings_of_bulk [OF n] codec_send_framed [OF f [OF a]]
    by (simp add: onGroupRequest_def e group_response_def case_prod_unfold)
  moreover have "db_of view ?s = d" using with_dbD(1) [OF 3(4)] by (simp add: db_of_def)
  moreover have "outputs ?s = outputs s @ framed env c [group_response m ?M gs]" "same_sessions s ?s"
    using with_dbD(3,4) [OF 3(4)] by simp_all
  ultimately show ?thesis using 2(4,5) a by metis
qed

end

section \<open>The group service\<close>

text \<open>
  C29: the group service refines the relation between groups and users. Over a Redis server that
  works, every request (creating, joining, leaving or querying, or of an unknown operation) is
  answered once, with the result and the error message of the abstract step; the relation in Redis
  is the one after the step, the response lists each group of the user once, and the members of
  groups and the groups of members stay consistent.
\<close>

theorem group_requests_refine:
  assumes "redis_laws hi view unwritten"
    and "redis_up view (getLoop c) s" and "groups_ok (db_of view s)"
    and "\<forall>gs. groups_after m (membership (db_of view s)) gs \<longrightarrow>
      can_frame env (group_response m (membership (db_of view s)) gs)"
  shows "\<exists>s' gs. onGroupRequest env hi c m s = Some (Inr s') \<and> groups_ok (db_of view s')
     \<and> membership (db_of view s') = members_after m (membership (db_of view s))
     \<and> groups_after m (membership (db_of view s)) gs
     \<and> outputs s' = outputs s @ framed env c [group_response m (membership (db_of view s)) gs]
     \<and> same_sessions s s'"
  using assms(4) by (intro redis_laws.onGroupRequest_up [OF assms(1-3)]) blast

lemma sample_no_groups:
  "groups_ok (db_of mem_view (sample_server us))" "membership (db_of mem_view (sample_server us)) = {}"
  by (simp_all add: groups_ok_def membership_def sample_server_db)

theorem group_requests_refine_witness:
  "\<exists>s'. onGroupRequest chat_env mem_hi sample_conn
       \<lparr>gq_operation = CREATE, gq_group_name = ''dev'', gq_username = ''ann''\<rparr> (sample_server []) = Some (Inr s')
     \<and> membership (db_of mem_view s') = {(''dev'', ''ann'')}
     \<and> outputs s' = framed chat_env sample_conn [GroupResponse \<lparr>gr_operation = CREATE, gr_success = True,
         gr_error_message = '''', gr_joined_groups = [''dev'']\<rparr>]"
proof -
  let ?s = "sample_server []" and ?m = "\<lparr>gq_operation = CREATE, gq_group_name = ''dev'', gq_username = ''ann''\<rparr>"
  let ?r = "GroupResponse \<lparr>gr_operation = CREATE, gr_success = True,
         gr_error_message = '''', gr_joined_groups = [''dev'']\<rparr>"
  have f: "can_frame chat_env ?r" by code_simp
  have a: "members_after ?m {} = {(''dev'', ''ann'')}"
    by (simp add: members_after_def spec_of_def c_str_Cons)
  have g: "groups_after ?m {} gs \<longleftrightarrow> gs = [''dev'']" for gs
    using enumerates_one [of gs "''dev''"] by (simp add: groups_after_def a c_str_Cons)
  have r: "group_response ?m {} [''dev''] = ?r" by (simp add: group_response_def spec_of_def)
  have l: "getLoop sample_conn = 1" by (simp add: sample_conn_def)
  have o: "outputs ?s = []" by (simp add: sample_server_def)
  show ?thesis
    using group_requests_refine [OF memory.redis_laws_axioms, of sample_conn ?s ?m chat_env]
      sample_server_up sample_no_groups f
    unfolding l sample_no_groups(2) g a o by (auto simp: r simp del: One_nat_def framed_simps)
qed

end
