(* ===== verification/Server_Replies.thy ===== *)
theory Server_Replies
  imports Server_Groups
begin

text \<open>
  What a request is answered with: the type of the answer, whatever Redis does, and the answer of
  the search service over a Redis server that works.
\<close>

section \<open>One answer of the right type\<close>

text \<open>The type of the answer to a request; a message that is no request closes the connection.\<close>

fun answer_type :: "chat_msg \<Rightarrow> chat_type option" where
  "answer_type (LoginRequest _) = Some TLoginResponse"
| "answer_type (LogoutRequest _) = Some TLogoutResponse"
| "answer_type (RegisterRequest _) = Some TRegisterResponse"
| "answer_type (SearchRequest _) = Some TSearchResponse"
| "answer_type (GroupRequest _) = Some TGroupResponse"
| "answer_type (TextMessage m) = (if tm_target_type m = GROUP then None else Some TTextMessageResponse)"
| "answer_type _ = None"

definition answered :: "chat_codec \<Rightarrow> conn \<Rightarrow> chat_type \<Rightarrow> 'w server \<Rightarrow> 'w server \<Rightarrow> bool" where
  "answered env c ty s s' \<longleftrightarrow> (\<exists>r. descriptor_of r = ty \<and> can_frame env r
     \<and> outputs s' = outputs s @ framed env c [r])"

definition silent :: "'w server \<Rightarrow> 'w server \<Rightarrow> bool" where
  "silent s s' \<longleftrightarrow> outputs s' = outputs s"

lemma silent_simps [simp]:
  "silent s s" "silent s (s'\<lparr>world := w\<rparr>) = silent s s'" "silent s (on_thread t f s') = silent s s'"
  "silent s (s'\<lparr>online_users := x\<rparr>) = silent s s'" "silent s (s'\<lparr>pool_tasks := y\<rparr>) = silent s s'"
  by (simp_all add: silent_def on_thread_def)

interpretation quiet: frame silent
  by unfold_locales (simp_all add: silent_def set_channel_def next_index_def on_thread_def)

lemma codec_send_answers:
  assumes "silent s0 s" and "descriptor_of r = ty"
  shows "post (codec_send env c r s) (answered env c ty s0)"
proof (unfold post_def, intro allI impI)
  fix s' assume "codec_send env c r s = Some (Inr s')"
  then obtain out where "send env c r (outputs s) = Some (Inr out)" "s' = s\<lparr>outputs := out\<rparr>"
    by (auto simp: codec_send_def run_then_Inr_iff)
  then show "answered env c ty s0 s'"
    using assms send_returns [of env c r "outputs s" out] unfolding answered_def silent_def by auto
qed

lemmas quiet_then = quiet.redis_command_post [THEN post_then] quiet.server_publish_post [THEN post_then]
  quiet.group_operation_post [THEN post_then] then_pure

lemma addUserToOnlineUsers_silent: "silent s0 s \<Longrightarrow> post (addUserToOnlineUsers hi c u s) (silent s0)"
proof -
  assume s: "silent s0 s"
  have "post (if map_of (online_users s) u = None
        then server_subscribe hi (getLoop c) (''user.'' @ u) s else Some (Inr s)) (silent s0)"
    using s by (intro post_if quiet.server_subscribe_post) simp_all
  then show ?thesis unfolding addUserToOnlineUsers_def by (rule post_then) simp
qed

lemma logout_silent: "post (logout hi c s) (silent s)"
  by (auto simp: logout_def removeUserFromOnlineUsers_def Let_def
      intro!: quiet.server_unsubscribe_post split: option.split prod.split)

lemma onLoginRequest_answers: "post (onLoginRequest env hi c m s) (answered env c TLoginResponse s)"
  unfolding onLoginRequest_def Let_def case_prod_beta
  by (intro quiet_then(1,4,5) post_if post_then [OF addUserToOnlineUsers_silent] codec_send_answers) simp_all

lemma onRegisterRequest_answers: "post (onRegisterRequest env hi c m s) (answered env c TRegisterResponse s)"
  unfolding onRegisterRequest_def Let_def case_prod_beta
  by (intro quiet_then(1,4,5) post_if codec_send_answers) simp_all

lemma onLogoutRequest_answers: "post (onLogoutRequest env hi c m s) (answered env c TLogoutResponse s)"
  unfolding onLogoutRequest_def by (intro post_then [OF logout_silent] codec_send_answers) simp_all

lemma onSearchRequest_answers: "post (onSearchRequest env hi c m s) (answered env c TSearchResponse s)"
  unfolding onSearchRequest_def Let_def case_prod_beta
  by (intro quiet_then(1,4,5) post_if codec_send_answers) simp_all

lemma onGroupRequest_answers: "post (onGroupRequest env hi c m s) (answered env c TGroupResponse s)"
  unfolding onGroupRequest_def Let_def case_prod_beta
  by (intro quiet_then codec_send_answers) simp_all

lemma onTextMessage_answers:
  "post (onTextMessage env hi c m s)
     (if tm_target_type m = GROUP then silent s else answered env c TTextMessageResponse s)"
  by (cases "tm_target_type m") (auto simp: onTextMessage_def case_prod_beta
      intro!: quiet_then codec_send_answers)

text \<open>
  C34: every request that is handled to the end is answered exactly once and by a message of the
  type that belongs to it, whatever Redis replied; only a message for a group is answered later, by
  the pool. Any message that is no request closes the connection and is not answered.
\<close>

theorem requests_answered_in_kind:
  assumes "server_message env hi c m s = Some (Inr s')"
  shows "case answer_type m of
      Some ty \<Rightarrow> answered env c ty s s'
    | None \<Rightarrow> if descriptor_of m = TTextMessage then silent s s' else outputs s' = outputs s @ [Shutdown c]"
proof (cases m)
  case (TextMessage x)
  then show ?thesis
    using assms postD [OF onTextMessage_answers, of env hi c x s s'] by (auto simp: server_message_cases)
qed (use assms in \<open>auto simp: server_message_cases onUnknownMessageType_def
      intro: postD [OF onLoginRequest_answers] postD [OF onLogoutRequest_answers]
        postD [OF onRegisterRequest_answers] postD [OF onSearchRequest_answers]
        postD [OF onGroupRequest_answers]\<close>)

theorem requests_answered_in_kind_witness:
  "\<exists>s s'. sample_once = Some (Inr s)
     \<and> server_message chat_env mem_hi sample_conn (LogoutRequest ''ann'') s = Some (Inr s')
     \<and> answered chat_env sample_conn TLogoutResponse s s'"
proof -
  have "returns (run_then sample_once (server_message chat_env mem_hi sample_conn (LogoutRequest ''ann''))) (\<lambda>_. True)"
    by code_simp
  then obtain s s' where s: "sample_once = Some (Inr s)"
    "server_message chat_env mem_hi sample_conn (LogoutRequest ''ann'') s = Some (Inr s')"
    by (auto simp: returns_def run_then_Inr_iff)
  then show ?thesis using requests_answered_in_kind [OF s(2)] by auto
qed

section \<open>Search\<close>

text \<open>The users a search looks through, and those it finds: the keyword occurs in the name.\<close>

definition searched :: "('w \<Rightarrow> view) \<Rightarrow> bool \<Rightarrow> 'w server \<Rightarrow> string set" where
  "searched view online_only s =
     (if online_only then {u. map_of (online_users s) u \<noteq> None}
      else dom (db_hash (db_of view s) ''users''))"

definition found :: "('w \<Rightarrow> view) \<Rightarrow> search_request \<Rightarrow> 'w server \<Rightarrow> string list \<Rightarrow> bool" where
  "found view m s us \<longleftrightarrow> distinct us
     \<and> set us = {u \<in> searched view (sq_online_only m) s. sublist (sq_keyword m) u}"

lemma keyword_in_iff: "keyword_in k u \<longleftrightarrow> sublist k u"
  by (auto simp: keyword_in_def str_find_None_iff)

lemma found_filter:
  "distinct us \<Longrightarrow> set us = searched view (sq_online_only m) s \<Longrightarrow>
     found view m s (filter (keyword_in (sq_keyword m)) us)"
  by (auto simp: found_def keyword_in_iff)

context redis_laws
begin

lemma onSearchRequest_up:
  assumes "sessions_ok s" and "redis_up view (getLoop c) s"
    and "\<forall>u \<in> dom (db_hash (db_of view s) ''users''). nul_free u"
    and f: "\<And>us. found view m s us \<Longrightarrow> can_frame env (SearchResponse us)"
  shows "\<exists>s' us. onSearchRequest env hi c m s = Some (Inr s') \<and> found view m s us
     \<and> outputs s' = outputs s @ framed env c [SearchResponse us]
     \<and> db_of view s' = db_of view s \<and> same_sessions s s'"
proof (cases "sq_online_only m")
  case True
  let ?us = "filter (keyword_in (sq_keyword m)) (map fst (online_users s))"
  have "distinct (map fst (online_users s))" using sessions_okD(1) [OF assms(1)] by (simp add: reg_ok_def)
  moreover have "set (map fst (online_users s)) = searched view True s"
    by (auto simp: searched_def map_of_eq_None_iff)
  ultimately have F: "found view m s ?us" using True by (intro found_filter) simp_all
  have "onSearchRequest env hi c m s =
      Some (Inr (s\<lparr>outputs := outputs s @ framed env c [SearchResponse ?us]\<rparr>))"
    using True codec_send_framed [OF f [OF F]] by (simp add: onSearchRequest_def)
  with F show ?thesis by (auto simp: db_of_def simp del: framed_simps)
next
  case False
  have w: "with_db view s (db_of view s) s" by (auto simp: with_db_def db_of_def intro!: exI [of _ "world s"])
  have k: "well_keyed (HKEYS ''users'')" by simp
  from redis_command_with_db [OF assms(2) w k] obtain us s1 where
    1: "redis_command hi (getLoop c) (HKEYS ''users'') s = Some (Inr (Some (array_reply (map bulk_reply us)), s1))"
      "distinct us" "set us = dom (db_hash (db_of view s) ''users'')" "with_db view s (db_of view s) s1" by auto
  let ?us = "filter (keyword_in (sq_keyword m)) us"
  have F: "found view m s ?us" using 1(2,3) False by (intro found_filter) (simp_all add: searched_def)
  have n: "\<forall>u \<in> set us. nul_free u" using assms(3) 1(3) by simp
  let ?s = "s1\<lparr>outputs := outputs s @ framed env c [SearchResponse ?us]\<rparr>"
  have "onSearchRequest env hi c m s = Some (Inr ?s)"
    using False 1(1) strings_of_bulk [OF n] codec_send_framed [OF f [OF F], of c s1] with_dbD(3) [OF 1(4)]
    by (simp add: onSearchRequest_def)
  moreover have "db_of view ?s = db_of view s" "same_sessions s ?s"
    using with_dbD(1,4) [OF 1(4)] by (simp_all add: db_of_def)
  ultimately show ?thesis using F by (intro exI [of _ ?s] exI [of _ ?us]) (simp del: framed_simps)
qed

end

text \<open>
  C35: a search is answered with exactly the names in which the keyword occurs, each once: of the
  users online when only those are asked for, else of all users registered. It changes nothing.
\<close>

theorem search_finds:
  assumes "redis_laws hi view unwritten" and "reachable env hi servers w0 s"
    and "redis_up view (getLoop c) s"
    and "\<forall>u \<in> dom (db_hash (db_of view s) ''users''). nul_free u"
    and "\<forall>us. found view m s us \<longrightarrow> can_frame env (SearchResponse us)"
  shows "\<exists>s' us. onSearchRequest env hi c m s = Some (Inr s') \<and> found view m s us
     \<and> outputs s' = outputs s @ framed env c [SearchResponse us]
     \<and> db_of view s' = db_of view s \<and> same_sessions s s'"
  using assms(5) by (intro redis_laws.onSearchRequest_up [OF assms(1) reachable_ok [OF assms(2)] assms(3,4)]) blast

lemma sample_once_searchable:
  "returns sample_once (\<lambda>s. m_hash (world s) = [(''users'', [(''ann'', ''pw''), (''bob'', ''pw'')])]
     \<and> redis_ctx (thread s 1) = Some 1 \<and> m_next (world s) = 2 \<and> m_broken (world s) = [] \<and> outputs s =
       framed chat_env sample_conn [login_accepted ''ann''])"
  by code_simp

theorem search_finds_witness:
  "\<exists>s s'. sample_once = Some (Inr s)
     \<and> onSearchRequest chat_env mem_hi sample_conn \<lparr>sq_keyword = ''bo'', sq_online_only = False\<rparr> s = Some (Inr s')
     \<and> outputs s' = outputs s @ framed chat_env sample_conn [SearchResponse [''bob'']]"
proof -
  let ?m = "\<lparr>sq_keyword = ''bo'', sq_online_only = False\<rparr>"
  obtain s where s: "sample_once = Some (Inr s)"
    "m_hash (world s) = [(''users'', [(''ann'', ''pw''), (''bob'', ''pw'')])]
     \<and> redis_ctx (thread s 1) = Some 1 \<and> m_next (world s) = 2 \<and> m_broken (world s) = [] \<and> outputs s =
       framed chat_env sample_conn [login_accepted ''ann'']"
    using sample_once_searchable by (rule returnsE)
  have r: "reachable chat_env mem_hi sample_servers sample_world s" by (rule sample_once_reachable [OF s(1)])
  have up: "redis_up mem_view (getLoop sample_conn) s"
    using s(2) by (simp add: redis_up_def sample_conn_def mem_view_def mem_ok_def)
  have d: "dom (db_hash (db_of mem_view s) ''users'') = {''ann'', ''bob''}"
    using s(2) by (auto simp: db_of_def mem_view_def fields_at_def split: if_splits)
  have k: "\<not> sublist ''bo'' ''ann''" "sublist ''bo'' ''bob''"
    by (simp_all add: str_find_None_iff [symmetric])
  have "{u \<in> {''ann'', ''bob''}. sublist ''bo'' u} = {''bob''}" using k by auto
  then have F: "found mem_view ?m s us \<longleftrightarrow> us = [''bob'']" for us
    using enumerates_one [of us "''bob''"] by (simp add: found_def searched_def d)
  have c: "can_frame chat_env (SearchResponse [''bob''])" by code_simp
  have "\<forall>u \<in> dom (db_hash (db_of mem_view s) ''users''). nul_free u" by (simp add: d nul_free_def)
  from search_finds [OF memory.redis_laws_axioms r up this, of ?m, unfolded F] c s(1)
  show ?thesis by blast
qed

end
