(* ===== verification/Broadcast_Messages.thy ===== *)
theory Broadcast_Messages
  imports Network
begin

text \<open>
  The smaller protocol of \<^verbatim>\<open>simple_broadcast/chat.proto\<close>: its messages, their casts, and a wire
  format instance of the library calls. Messages with the same fields as in the chat protocol share
  its records. Constructors end in \<open>B\<close> where the chat protocol has the plain name.
\<close>

section \<open>The schema\<close>

record broadcast_text =
  bt_sender :: string
  bt_content :: string

datatype broadcast_msg =
  TextMessageB broadcast_text
| LoginRequestB credentials
| LoginResponseB status_response
| RegisterRequestB credentials
| RegisterResponseB status_response
| SearchRequestB string
| SearchResponseB "string list"

datatype broadcast_type =
  TTextMessageB | TLoginRequestB | TLoginResponseB | TRegisterRequestB | TRegisterResponseB
| TSearchRequestB | TSearchResponseB

fun descriptorB :: "broadcast_msg \<Rightarrow> broadcast_type" where
  "descriptorB (TextMessageB _) = TTextMessageB"
| "descriptorB (LoginRequestB _) = TLoginRequestB"
| "descriptorB (LoginResponseB _) = TLoginResponseB"
| "descriptorB (RegisterRequestB _) = TRegisterRequestB"
| "descriptorB (RegisterResponseB _) = TRegisterResponseB"
| "descriptorB (SearchRequestB _) = TSearchRequestB"
| "descriptorB (SearchResponseB _) = TSearchResponseB"

type_synonym broadcast_codec = "(broadcast_msg, broadcast_type) codec_env"

section \<open>Casts\<close>

definition as_TextMessageB :: "broadcast_msg \<Rightarrow> broadcast_text option" where
  "as_TextMessageB m = (case m of TextMessageB c \<Rightarrow> Some c | _ \<Rightarrow> None)"
definition as_LoginRequestB :: "broadcast_msg \<Rightarrow> credentials option" where
  "as_LoginRequestB m = (case m of LoginRequestB c \<Rightarrow> Some c | _ \<Rightarrow> None)"
definition as_LoginResponseB :: "broadcast_msg \<Rightarrow> status_response option" where
  "as_LoginResponseB m = (case m of LoginResponseB c \<Rightarrow> Some c | _ \<Rightarrow> None)"
definition as_RegisterRequestB :: "broadcast_msg \<Rightarrow> credentials option" where
  "as_RegisterRequestB m = (case m of RegisterRequestB c \<Rightarrow> Some c | _ \<Rightarrow> None)"
definition as_RegisterResponseB :: "broadcast_msg \<Rightarrow> status_response option" where
  "as_RegisterResponseB m = (case m of RegisterResponseB c \<Rightarrow> Some c | _ \<Rightarrow> None)"
definition as_SearchRequestB :: "broadcast_msg \<Rightarrow> string option" where
  "as_SearchRequestB m = (case m of SearchRequestB c \<Rightarrow> Some c | _ \<Rightarrow> None)"
definition as_SearchResponseB :: "broadcast_msg \<Rightarrow> string list option" where
  "as_SearchResponseB m = (case m of SearchResponseB c \<Rightarrow> Some c | _ \<Rightarrow> None)"

lemmas cast_defsB = casts_to_def as_TextMessageB_def as_LoginRequestB_def as_LoginResponseB_def
  as_RegisterRequestB_def as_RegisterResponseB_def as_SearchRequestB_def as_SearchResponseB_def

interpretation textB: typed_message descriptorB TTextMessageB as_TextMessageB TextMessageB
  by unfold_locales (auto simp: cast_defsB split: broadcast_msg.splits)
interpretation loginB: typed_message descriptorB TLoginRequestB as_LoginRequestB LoginRequestB
  by unfold_locales (auto simp: cast_defsB split: broadcast_msg.splits)
interpretation registerB: typed_message descriptorB TRegisterRequestB as_RegisterRequestB RegisterRequestB
  by unfold_locales (auto simp: cast_defsB split: broadcast_msg.splits)
interpretation searchB: typed_message descriptorB TSearchRequestB as_SearchRequestB SearchRequestB
  by unfold_locales (auto simp: cast_defsB split: broadcast_msg.splits)

section \<open>The library calls, for these messages\<close>

fun full_nameB :: "broadcast_type \<Rightarrow> string" where
  "full_nameB TTextMessageB = ''chat.TextMessage''"
| "full_nameB TLoginRequestB = ''chat.LoginRequest''"
| "full_nameB TLoginResponseB = ''chat.LoginResponse''"
| "full_nameB TRegisterRequestB = ''chat.RegisterRequest''"
| "full_nameB TRegisterResponseB = ''chat.RegisterResponse''"
| "full_nameB TSearchRequestB = ''chat.SearchRequest''"
| "full_nameB TSearchResponseB = ''chat.SearchResponse''"

fun fieldsB :: "broadcast_msg \<Rightarrow> (nat \<times> field_value) list" where
  "fieldsB (TextMessageB m) = put_str 1 (bt_sender m) @ put_str 2 (bt_content m)"
| "fieldsB (LoginRequestB m) = put_str 1 (cr_username m) @ put_str 2 (cr_password m)"
| "fieldsB (LoginResponseB m) = put_bool 1 (st_success m) @ put_str 2 (st_error_message m)"
| "fieldsB (RegisterRequestB m) = put_str 1 (cr_username m) @ put_str 2 (cr_password m)"
| "fieldsB (RegisterResponseB m) = put_bool 1 (st_success m) @ put_str 2 (st_error_message m)"
| "fieldsB (SearchRequestB k) = put_str 1 k"
| "fieldsB (SearchResponseB us) = put_strs 1 us"

fun of_fieldsB :: "broadcast_type \<Rightarrow> (nat \<times> field_value) list \<Rightarrow> broadcast_msg" where
  "of_fieldsB TTextMessageB fs = TextMessageB \<lparr>bt_sender = get_str 1 fs, bt_content = get_str 2 fs\<rparr>"
| "of_fieldsB TLoginRequestB fs = LoginRequestB (credentials_of fs)"
| "of_fieldsB TLoginResponseB fs = LoginResponseB (status_of fs)"
| "of_fieldsB TRegisterRequestB fs = RegisterRequestB (credentials_of fs)"
| "of_fieldsB TRegisterResponseB fs = RegisterResponseB (status_of fs)"
| "of_fieldsB TSearchRequestB fs = SearchRequestB (get_str 1 fs)"
| "of_fieldsB TSearchResponseB fs = SearchResponseB (get_strs 1 fs)"

definition all_typesB :: "broadcast_type list" where
  "all_typesB = [TTextMessageB, TLoginRequestB, TLoginResponseB, TRegisterRequestB,
     TRegisterResponseB, TSearchRequestB, TSearchResponseB]"

definition write_messageB :: "broadcast_msg \<Rightarrow> byte list" where
  "write_messageB m = concat (map write_field (fieldsB m))"

definition broadcast_env :: broadcast_codec where
  "broadcast_env = \<lparr>
     pb_type_name = (\<lambda>m. str_bytes (full_nameB (descriptorB m))),
     pb_initialized = (\<lambda>_. True),
     pb_byte_size = (\<lambda>m. of_nat (length (write_messageB m))),
     pb_serialize = write_messageB,
     pb_find = (\<lambda>n. find (\<lambda>t. str_bytes (full_nameB t) = n) all_typesB),
     pb_prototype = (\<lambda>t. Some (of_fieldsB t [])),
     pb_new = (\<lambda>m. m),
     pb_parse_from = (\<lambda>m bs. case map_option (of_fieldsB (descriptorB m)) (read_fields bs) of
        None \<Rightarrow> (False, m) | Some m' \<Rightarrow> (True, m')),
     z_adler32 = adler32\<rparr>"

lemma of_fieldsB_fieldsB: "of_fieldsB (descriptorB m) (fieldsB m) = m"
  by (cases m) (simp_all add: get_str_def get_int_def status_of_def credentials_of_def)

lemma descriptorB_of_fields [simp]: "descriptorB (of_fieldsB t fs) = t"
  by (cases t) simp_all

lemma find_typeB: "find (\<lambda>t'. full_nameB t' = full_nameB t) all_typesB = Some t"
  by (cases t) (simp_all add: all_typesB_def)

interpretation broadcast: protobuf_env broadcast_env "\<lambda>_. True"
proof
  fix m :: broadcast_msg
  show "pb_initialized broadcast_env m" by (simp add: broadcast_env_def)
  show "pb_type_name broadcast_env m \<noteq> []"
    by (cases "descriptorB m") (simp_all add: broadcast_env_def str_bytes_def)
  show "sint (pb_byte_size broadcast_env m) = int (length (pb_serialize broadcast_env m))"
    if "length (pb_serialize broadcast_env m) < 2 ^ 31"
    using that sint_of_nat_small [of "length (write_messageB m)"] by (simp add: broadcast_env_def)
  show "\<exists>d p. pb_find broadcast_env (pb_type_name broadcast_env m) = Some d
      \<and> pb_prototype broadcast_env d = Some p
      \<and> pb_parse_from broadcast_env (pb_new broadcast_env p) (pb_serialize broadcast_env m) = (True, m)"
    by (simp add: broadcast_env_def find_typeB write_messageB_def read_write_fields of_fieldsB_fieldsB)
qed simp

end
