(* ===== verification/Broadcast_Client.thy ===== *)
theory Broadcast_Client
  imports Broadcast_Messages Client
begin

text \<open>
  The client of \<^verbatim>\<open>simple_broadcast/client.cc\<close>: its commands and the messages it prints. Words are
  read from a line as in the chat client. A login is taken for granted when it is sent.
\<close>

section \<open>State\<close>

record broadcast_client =
  link :: "conn option"
  user :: string
  effects_out :: "effect list"
  display :: string

type_synonym bclient_step = "broadcast_client \<Rightarrow> broadcast_client run"

definition ChatClientB :: broadcast_client where
  "ChatClientB = \<lparr>link = None, user = ''guest'', effects_out = [], display = ''''\<rparr>"

definition client_sendB :: "broadcast_codec \<Rightarrow> broadcast_msg \<Rightarrow> bclient_step" where
  "client_sendB env request s =
     run_then (deref (link s)) (\<lambda>c.
     run_then (send env c request (effects_out s)) (\<lambda>out. Some (Inr (s\<lparr>effects_out := out\<rparr>))))"

definition printB :: "string \<Rightarrow> broadcast_client \<Rightarrow> broadcast_client" where
  "printB text s = s\<lparr>display := display s @ text @ [CHR 0x0A]\<rparr>"

section \<open>Commands\<close>

text \<open>\<^verbatim>\<open>std::getline(iss, message)\<close>: the rest of the line up to its end.\<close>

definition getline :: "string \<Rightarrow> string" where
  "getline iss = takeWhile (\<lambda>c. c \<noteq> CHR 0x0A) iss"

definition processCommandB :: "broadcast_codec \<Rightarrow> string \<Rightarrow> bclient_step" where
  "processCommandB env line s =
     (let (cmd, iss) = next_word line
      in if cmd = ''register'' then
           (let (name, iss) = next_word iss; (password, iss) = next_word iss
            in client_sendB env (RegisterRequestB \<lparr>cr_username = name, cr_password = password\<rparr>) s)
         else if cmd = ''login'' then
           (let (name, iss) = next_word iss; (password, iss) = next_word iss
            in run_then (client_sendB env (LoginRequestB \<lparr>cr_username = name, cr_password = password\<rparr>) s)
                 (\<lambda>s. Some (Inr (s\<lparr>user := name\<rparr>))))
         else if cmd = ''send'' then
           client_sendB env (TextMessageB \<lparr>bt_sender = user s, bt_content = getline iss\<rparr>) s
         else if cmd = ''search'' then
           (let (keyword, iss) = next_word iss in client_sendB env (SearchRequestB keyword) s)
         else Some (Inr s))"

definition client_lineB :: "broadcast_codec \<Rightarrow> string \<Rightarrow> bclient_step" where
  "client_lineB env line s = (if link s \<noteq> None then processCommandB env line s else Some (Inr s))"

section \<open>Messages of the server\<close>

definition client_onConnectionB :: "conn \<Rightarrow> bool \<Rightarrow> bclient_step" where
  "client_onConnectionB conn connected s = Some (Inr (s\<lparr>link := (if connected then Some conn else None)\<rparr>))"

definition onLoginResponseB :: "status_response \<Rightarrow> bclient_step" where
  "onLoginResponseB message s = Some (Inr s)"

definition onRegisterResponseB :: "status_response \<Rightarrow> bclient_step" where
  "onRegisterResponseB message s = Some (Inr s)"

definition onSearchResponseB :: "string list \<Rightarrow> bclient_step" where
  "onSearchResponseB usernames s =
     Some (Inr (fold (\<lambda>name. printB (''>>> - '' @ c_str name)) usernames
       (printB ''>>> Search Result:'' s)))"

definition client_onTextMessageB :: "broadcast_text \<Rightarrow> bclient_step" where
  "client_onTextMessageB message s =
     Some (Inr (printB (''<<< ['' @ c_str (bt_sender message) @ ''] '' @ c_str (bt_content message)) s))"

definition client_onUnknownMessageTypeB :: "conn \<Rightarrow> broadcast_msg \<Rightarrow> bclient_step" where
  "client_onUnknownMessageTypeB conn message s =
     Some (Inr (s\<lparr>effects_out := effects_out s @ [Shutdown conn]\<rparr>))"

definition client_dispatcherB :: "conn \<Rightarrow> (broadcast_msg, broadcast_type, broadcast_client) dispatcher" where
  "client_dispatcherB conn =
     registerMessageCallback TSearchResponseB as_SearchResponseB onSearchResponseB
     (registerMessageCallback TTextMessageB as_TextMessageB client_onTextMessageB
     (registerMessageCallback TRegisterResponseB as_RegisterResponseB onRegisterResponseB
     (registerMessageCallback TLoginResponseB as_LoginResponseB onLoginResponseB
     (new_dispatcher (client_onUnknownMessageTypeB conn)))))"

definition client_messageB :: "conn \<Rightarrow> broadcast_msg \<Rightarrow> bclient_step" where
  "client_messageB conn message s = onProtobufMessage descriptorB (client_dispatcherB conn) message s"

fun client_linesB :: "broadcast_codec \<Rightarrow> string list \<Rightarrow> bclient_step" where
  "client_linesB env [] s = Some (Inr s)"
| "client_linesB env (line # rest) s = run_then (client_lineB env line s) (client_linesB env rest)"

lemma client_messageB_cases:
  "client_messageB c m s =
     (case m of
        LoginResponseB x \<Rightarrow> onLoginResponseB x s
      | RegisterResponseB x \<Rightarrow> onRegisterResponseB x s
      | TextMessageB x \<Rightarrow> client_onTextMessageB x s
      | SearchResponseB x \<Rightarrow> onSearchResponseB x s
      | _ \<Rightarrow> client_onUnknownMessageTypeB c m s)"
  by (cases m) (simp_all add: client_messageB_def client_dispatcherB_def onProtobufMessage_register
      CallbackT_onMessage_def cast_defsB)

end
