(* ===== verification/Broadcast_Server.thy ===== *)
theory Broadcast_Server
  imports Broadcast_Messages
begin

text \<open>
  The server of \<^verbatim>\<open>simple_broadcast/server.cc\<close>. Each loop's thread keeps its connections in a
  thread-local set; the users live in one map behind a shared pointer. A reader copies the pointer
  under the lock and reads without it; a writer holds the lock throughout and replaces the map by a
  copy when a reader holds it. The maps are cells of \<open>users_heap\<close>; a cell is freed when the last
  pointer to it goes. A handler that reads is two steps, so that others can run in between.
\<close>

section \<open>State\<close>

type_synonym user_map = "(string \<times> string) list"

record broadcast_server =
  local_set :: "nat \<Rightarrow> conn list option"
  loop_set :: "nat list"
  users_heap :: "nat \<Rightarrow> user_map option"
  users_ptr :: nat
  held_ptrs :: "(nat \<times> nat) list"
  next_cell :: nat
  tasks :: "(nat \<times> broadcast_text) list"
  sent :: "effect list"

type_synonym broadcast_step = "broadcast_server \<Rightarrow> broadcast_server run"

definition codec_sendB :: "broadcast_codec \<Rightarrow> conn \<Rightarrow> broadcast_msg \<Rightarrow> broadcast_step" where
  "codec_sendB env conn message s =
     run_then (send env conn message (sent s)) (\<lambda>out. Some (Inr (s\<lparr>sent := out\<rparr>)))"

definition ChatServerB :: broadcast_server where
  "ChatServerB = \<lparr>local_set = (\<lambda>_. None), loop_set = [], users_heap = (\<lambda>_. None)(0 := Some []),
     users_ptr = 0, held_ptrs = [], next_cell = 1, tasks = [], sent = []\<rparr>"

section \<open>Shared pointers\<close>

text \<open>\<^verbatim>\<open>users_ptr_.unique()\<close>: no thread holds a copy of the pointer.\<close>

definition unique :: "broadcast_server \<Rightarrow> bool" where
  "unique s \<longleftrightarrow> users_ptr s \<notin> set (map snd (held_ptrs s))"

definition getUsersPtr :: "nat \<Rightarrow> broadcast_server \<Rightarrow> broadcast_server" where
  "getUsersPtr t s = s\<lparr>held_ptrs := (t, users_ptr s) # held_ptrs s\<rparr>"

text \<open>The pointer of thread \<open>t\<close> goes out of scope.\<close>

definition releasePtr :: "nat \<Rightarrow> broadcast_server \<Rightarrow> broadcast_server" where
  "releasePtr t s =
     (case map_of (held_ptrs s) t of
        None \<Rightarrow> s
      | Some a \<Rightarrow>
          (let s' = s\<lparr>held_ptrs := AList.delete t (held_ptrs s)\<rparr>
           in if a \<noteq> users_ptr s' \<and> a \<notin> set (map snd (held_ptrs s'))
              then s'\<lparr>users_heap := (users_heap s')(a := None)\<rparr> else s'))"

definition cell_at :: "nat option \<Rightarrow> broadcast_server \<Rightarrow> user_map run" where
  "cell_at p s =
     (case p of
        None \<Rightarrow> Some (Inl NullDeref)
      | Some a \<Rightarrow> (case users_heap s a of None \<Rightarrow> Some (Inl NullDeref) | Some m \<Rightarrow> Some (Inr m)))"

text \<open>\<^verbatim>\<open>if (!users_ptr_.unique()) users_ptr_.reset(new UserMap(*users_ptr_));\<close>\<close>

definition copy_if_shared :: broadcast_step where
  "copy_if_shared s =
     (if \<not> unique s then
        run_then (cell_at (Some (users_ptr s)) s) (\<lambda>m.
          Some (Inr (s\<lparr>users_heap := (users_heap s)(next_cell s := Some m),
            users_ptr := next_cell s, next_cell := next_cell s + 1\<rparr>)))
      else Some (Inr s))"

text \<open>\<^verbatim>\<open>emplace\<close>: the map, and whether the pair was inserted.\<close>

definition emplace :: "string \<Rightarrow> string \<Rightarrow> user_map \<Rightarrow> user_map \<times> bool" where
  "emplace k v m = (if map_of m k = None then ((k, v) # m, True) else (m, False))"

section \<open>Connections and messages\<close>

definition threadInitB :: "nat \<Rightarrow> broadcast_step" where
  "threadInitB loop s =
     (if local_set s loop \<noteq> None then Some (Inl AssertFailed)
      else Some (Inr (s\<lparr>local_set := (local_set s)(loop := Some []),
        loop_set := List.insert loop (loop_set s)\<rparr>)))"

text \<open>\<^verbatim>\<open>LocalConnections::instance()\<close> makes the set when the thread has none.\<close>

definition local_instance :: "nat \<Rightarrow> broadcast_server \<Rightarrow> conn list" where
  "local_instance t s = (case local_set s t of None \<Rightarrow> [] | Some cs \<Rightarrow> cs)"

definition onConnectionB :: "conn \<Rightarrow> bool \<Rightarrow> broadcast_step" where
  "onConnectionB conn connected s =
     (let cs = local_instance (getLoop conn) s;
          cs' = (if connected then List.insert conn cs else removeAll conn cs)
      in Some (Inr (s\<lparr>local_set := (local_set s)(getLoop conn := Some cs')\<rparr>)))"

definition onTextMessageB :: "conn \<Rightarrow> broadcast_text \<Rightarrow> broadcast_step" where
  "onTextMessageB conn message s =
     Some (Inr (s\<lparr>tasks := tasks s @ map (\<lambda>loop. (loop, message)) (loop_set s)\<rparr>))"

fun send_eachB :: "broadcast_codec \<Rightarrow> broadcast_text \<Rightarrow> conn list \<Rightarrow> broadcast_step" where
  "send_eachB env message [] s = Some (Inr s)"
| "send_eachB env message (connection # rest) s =
     run_then (codec_sendB env connection (TextMessageB message) s) (send_eachB env message rest)"

definition distributeTextMessage :: "broadcast_codec \<Rightarrow> nat \<Rightarrow> broadcast_text \<Rightarrow> broadcast_step" where
  "distributeTextMessage env t message s =
     (let cs = local_instance t s
      in send_eachB env message cs (s\<lparr>local_set := (local_set s)(t := Some cs)\<rparr>))"

section \<open>Users\<close>

definition login_end :: "broadcast_codec \<Rightarrow> conn \<Rightarrow> credentials \<Rightarrow> broadcast_step" where
  "login_end env conn message s =
     run_then (cell_at (map_of (held_ptrs s) (getLoop conn)) s) (\<lambda>users.
       (let storedPassword =
              (case map_of users (cr_username message) of Some p \<Rightarrow> p | None \<Rightarrow> '''')
        in codec_sendB env conn (LoginResponseB
             (if storedPassword = cr_password message
              then \<lparr>st_success = True, st_error_message = ''''\<rparr>
              else \<lparr>st_success = False, st_error_message = ''Invalid username or password.''\<rparr>))
             (releasePtr (getLoop conn) s)))"

definition onLoginRequestB :: "broadcast_codec \<Rightarrow> conn \<Rightarrow> credentials \<Rightarrow> broadcast_step" where
  "onLoginRequestB env conn message s = login_end env conn message (getUsersPtr (getLoop conn) s)"

definition onRegisterRequestB :: "broadcast_codec \<Rightarrow> conn \<Rightarrow> credentials \<Rightarrow> broadcast_step" where
  "onRegisterRequestB env conn message s =
     run_then (copy_if_shared s) (\<lambda>s.
       if \<not> unique s then Some (Inl AssertFailed)
       else run_then (cell_at (Some (users_ptr s)) s) (\<lambda>users.
         (case emplace (cr_username message) (cr_password message) users of (users', inserted) \<Rightarrow>
            codec_sendB env conn (RegisterResponseB
              (if inserted then \<lparr>st_success = True, st_error_message = ''''\<rparr>
               else \<lparr>st_success = False, st_error_message = ''Username already exists.''\<rparr>))
              (s\<lparr>users_heap := (users_heap s)(users_ptr s := Some users')\<rparr>))))"

definition search_end :: "broadcast_codec \<Rightarrow> conn \<Rightarrow> string \<Rightarrow> broadcast_step" where
  "search_end env conn keyword s =
     run_then (cell_at (map_of (held_ptrs s) (getLoop conn)) s) (\<lambda>users.
       codec_sendB env conn (SearchResponseB
         (filter (\<lambda>name. keyword = '''' \<or> str_find keyword name \<noteq> None) (map fst users)))
         (releasePtr (getLoop conn) s))"

definition onSearchRequestB :: "broadcast_codec \<Rightarrow> conn \<Rightarrow> string \<Rightarrow> broadcast_step" where
  "onSearchRequestB env conn keyword s = search_end env conn keyword (getUsersPtr (getLoop conn) s)"

section \<open>Routing\<close>

definition onUnknownMessageTypeB :: "conn \<Rightarrow> broadcast_msg \<Rightarrow> broadcast_step" where
  "onUnknownMessageTypeB conn message s = Some (Inr (s\<lparr>sent := sent s @ [Shutdown conn]\<rparr>))"

definition dispatcherB ::
  "broadcast_codec \<Rightarrow> conn \<Rightarrow> (broadcast_msg, broadcast_type, broadcast_server) dispatcher" where
  "dispatcherB env conn =
     registerMessageCallback TSearchRequestB as_SearchRequestB (onSearchRequestB env conn)
     (registerMessageCallback TTextMessageB as_TextMessageB (onTextMessageB conn)
     (registerMessageCallback TRegisterRequestB as_RegisterRequestB (onRegisterRequestB env conn)
     (registerMessageCallback TLoginRequestB as_LoginRequestB (onLoginRequestB env conn)
     (new_dispatcher (onUnknownMessageTypeB conn)))))"

definition broadcast_message :: "broadcast_codec \<Rightarrow> conn \<Rightarrow> broadcast_msg \<Rightarrow> broadcast_step" where
  "broadcast_message env conn message s =
     onProtobufMessage descriptorB (dispatcherB env conn) message s"

lemma broadcast_message_cases:
  "broadcast_message env c m s =
     (case m of
        LoginRequestB x \<Rightarrow> onLoginRequestB env c x s
      | RegisterRequestB x \<Rightarrow> onRegisterRequestB env c x s
      | TextMessageB x \<Rightarrow> onTextMessageB c x s
      | SearchRequestB x \<Rightarrow> onSearchRequestB env c x s
      | _ \<Rightarrow> onUnknownMessageTypeB c m s)"
  by (cases m) (simp_all add: broadcast_message_def dispatcherB_def onProtobufMessage_register
      CallbackT_onMessage_def cast_defsB)

end
