(* ===== verification/Broadcast_Properties.thy ===== *)
theory Broadcast_Properties
  imports Broadcast_Server
begin

text \<open>
  The shared user map refines a plain map with snapshots: a writer changes the map in place or in a
  copy, and what a reader sees stays what it was when the reader took its pointer. Then the
  broadcast: a message reaches every connection once.
\<close>

section \<open>Steps of the server\<close>

text \<open>
  A handler that reads takes its pointer in one step and finishes in another; until then its thread
  does nothing else. Everything else is one step.
\<close>

definition busy :: "nat \<Rightarrow> broadcast_server \<Rightarrow> bool" where
  "busy t s \<longleftrightarrow> map_of (held_ptrs s) t \<noteq> None"

inductive broadcast_moves :: "broadcast_codec \<Rightarrow> broadcast_server \<Rightarrow> broadcast_server \<Rightarrow> bool" for env where
  start_loop: "threadInitB t s = Some (Inr s') \<Longrightarrow> broadcast_moves env s s'"
| up_or_down: "\<not> busy (getLoop c) s \<Longrightarrow> getLoop c \<in> set (loop_set s) \<Longrightarrow>
     onConnectionB c connected s = Some (Inr s') \<Longrightarrow> broadcast_moves env s s'"
| read_begin: "\<not> busy t s \<Longrightarrow> broadcast_moves env s (getUsersPtr t s)"
| login: "login_end env c m s = Some (Inr s') \<Longrightarrow> broadcast_moves env s s'"
| search: "search_end env c k s = Some (Inr s') \<Longrightarrow> broadcast_moves env s s'"
| register: "\<not> busy (getLoop c) s \<Longrightarrow> onRegisterRequestB env c m s = Some (Inr s') \<Longrightarrow>
     broadcast_moves env s s'"
| message: "\<not> busy (getLoop c) s \<Longrightarrow> onTextMessageB c x s = Some (Inr s') \<Longrightarrow> broadcast_moves env s s'"
| other: "\<not> busy (getLoop c) s \<Longrightarrow> onUnknownMessageTypeB c y s = Some (Inr s') \<Longrightarrow> broadcast_moves env s s'"
| task: "\<not> busy t s \<Longrightarrow> tasks s = before @ (t, x) # after \<Longrightarrow> t \<notin> fst ` set before \<Longrightarrow>
     distributeTextMessage env t x (s\<lparr>tasks := before @ after\<rparr>) = Some (Inr s') \<Longrightarrow>
     broadcast_moves env s s'"

inductive broadcast_reachable :: "broadcast_codec \<Rightarrow> broadcast_server \<Rightarrow> bool" for env where
  initial: "broadcast_reachable env ChatServerB"
| moves: "broadcast_reachable env s \<Longrightarrow> broadcast_moves env s s' \<Longrightarrow> broadcast_reachable env s'"

text \<open>The two steps make the handler.\<close>

lemma read_handlers:
  assumes "\<not> busy (getLoop c) s" "broadcast_reachable env s"
  shows "onLoginRequestB env c m s = Some (Inr s') \<Longrightarrow> broadcast_reachable env s'"
    "onSearchRequestB env c k s = Some (Inr s') \<Longrightarrow> broadcast_reachable env s'"
proof -
  have "broadcast_reachable env (getUsersPtr (getLoop c) s)"
    using assms broadcast_moves.read_begin by (blast intro: broadcast_reachable.moves)
  then show "onLoginRequestB env c m s = Some (Inr s') \<Longrightarrow> broadcast_reachable env s'"
    "onSearchRequestB env c k s = Some (Inr s') \<Longrightarrow> broadcast_reachable env s'"
    unfolding onLoginRequestB_def onSearchRequestB_def
    by (blast intro: broadcast_reachable.moves broadcast_moves.login broadcast_moves.search)+
qed

section \<open>The cells\<close>

text \<open>
  The cells are exactly those some pointer points to: nothing dangles and nothing leaks.
\<close>

definition cells_ok :: "broadcast_server \<Rightarrow> bool" where
  "cells_ok s \<longleftrightarrow> dom (users_heap s) = insert (users_ptr s) (ran (map_of (held_ptrs s)))
     \<and> distinct (map fst (held_ptrs s)) \<and> (\<forall>a \<in> dom (users_heap s). a < next_cell s)"

text \<open>What the server's map and the readers' maps hold.\<close>

definition users :: "broadcast_server \<Rightarrow> string \<rightharpoonup> string" where
  "users s = (case users_heap s (users_ptr s) of None \<Rightarrow> Map.empty | Some m \<Rightarrow> map_of m)"

definition snapshots :: "broadcast_server \<Rightarrow> nat \<rightharpoonup> (string \<rightharpoonup> string)" where
  "snapshots s t = Option.bind (map_of (held_ptrs s) t) (\<lambda>a. map_option map_of (users_heap s a))"

lemma cells_okD:
  assumes "cells_ok s"
  shows "\<exists>m. users_heap s (users_ptr s) = Some m"
    "map_of (held_ptrs s) t = Some a \<Longrightarrow> \<exists>m. users_heap s a = Some m"
    "users_heap s (next_cell s) = None"
    "map_of (held_ptrs s) t = Some a \<Longrightarrow> a \<noteq> next_cell s"
    "unique s \<longleftrightarrow> users_ptr s \<notin> ran (map_of (held_ptrs s))"
proof -
  have d: "users_heap s a \<noteq> None \<longleftrightarrow> a = users_ptr s \<or> a \<in> ran (map_of (held_ptrs s))" for a
    using assms by (auto simp: cells_ok_def dom_def)
  have n: "users_heap s a \<noteq> None \<Longrightarrow> a < next_cell s" for a
    using assms by (auto simp: cells_ok_def)
  show "\<exists>m. users_heap s (users_ptr s) = Some m" using d by blast
  show m: "\<exists>m. users_heap s a = Some m" if "map_of (held_ptrs s) t = Some a"
    using d [of a] ranI [of "map_of (held_ptrs s)", OF that] by auto
  show e: "users_heap s (next_cell s) = None" using n by blast
  show "a \<noteq> next_cell s" if "map_of (held_ptrs s) t = Some a" using m [OF that] e by auto
  show "unique s \<longleftrightarrow> users_ptr s \<notin> ran (map_of (held_ptrs s))"
    using assms by (simp add: unique_def cells_ok_def ran_distinct)
qed

lemma busy_iff: "cells_ok s \<Longrightarrow> snapshots s t = None \<longleftrightarrow> \<not> busy t s"
  using cells_okD(2) [of s t] by (cases "map_of (held_ptrs s) t") (auto simp: snapshots_def busy_def)

lemma getUsersPtr_ok:
  assumes "cells_ok s" "\<not> busy t s"
  shows "cells_ok (getUsersPtr t s)" "users (getUsersPtr t s) = users s"
    "snapshots (getUsersPtr t s) = (snapshots s)(t \<mapsto> users s)"
proof -
  have "ran ((map_of (held_ptrs s))(t \<mapsto> users_ptr s)) = insert (users_ptr s) (ran (map_of (held_ptrs s)))"
    using assms(2) by (intro ran_map_upd) (simp add: busy_def)
  then show "cells_ok (getUsersPtr t s)"
    using assms by (simp add: cells_ok_def getUsersPtr_def busy_def map_of_eq_None_iff)
  show "users (getUsersPtr t s) = users s" by (simp add: users_def getUsersPtr_def)
  show "snapshots (getUsersPtr t s) = (snapshots s)(t \<mapsto> users s)"
    using cells_okD(1) [OF assms(1)]
    by (auto simp: getUsersPtr_def users_def snapshots_def fun_eq_iff)
qed

lemma releasePtr_ok:
  assumes "cells_ok s"
  shows "cells_ok (releasePtr t s)" "users (releasePtr t s) = users s"
    "snapshots (releasePtr t s) = (snapshots s)(t := None)"
proof -
  let ?H = "map_of (held_ptrs s)"
  have d: "distinct (map fst (AList.delete t (held_ptrs s)))" "distinct (map fst (held_ptrs s))"
    using assms by (simp_all add: cells_ok_def distinct_delete)
  have r: "snd ` set (AList.delete t (held_ptrs s)) = ran (?H(t := None))"
    using ran_distinct [OF d(1)] by (simp add: delete_conv')
  have i: "ran ?H = insert a (ran (?H(t := None)))" if "?H t = Some a" for a
  proof -
    have "?H = (?H(t := None))(t \<mapsto> a)" using that by (simp add: fun_upd_idem)
    then show ?thesis using ran_map_upd [of "?H(t := None)" t a] by simp
  qed
  show "cells_ok (releasePtr t s)"
  proof (cases "?H t")
    case None
    then show ?thesis using assms by (simp add: releasePtr_def)
  next
    case (Some a)
    then show ?thesis
      using assms d i [OF Some] by (auto simp: cells_ok_def releasePtr_def Let_def r delete_conv')
  qed
  show "users (releasePtr t s) = users s"
    by (auto simp: users_def releasePtr_def Let_def split: option.split)
  have k: "a' \<in> ran (?H(t := None))" if "?H x = Some a'" "x \<noteq> t" for x a'
    using that by (auto simp: ran_def)
  show "snapshots (releasePtr t s) = (snapshots s)(t := None)"
  proof
    fix x
    show "snapshots (releasePtr t s) x = ((snapshots s)(t := None)) x"
    proof (cases "?H t")
      case None
      then show ?thesis by (simp add: releasePtr_def snapshots_def)
    next
      case (Some a)
      then show ?thesis
        using k [of x] by (cases "?H x") (auto simp: releasePtr_def snapshots_def Let_def delete_conv' r)
    qed
  qed
qed

lemma cell_at_held:
  assumes "cells_ok s" and "snapshots s t = Some B"
  obtains m where "cell_at (map_of (held_ptrs s) t) s = Some (Inr m)" "map_of m = B"
  using assms(2) by (auto simp: snapshots_def cell_at_def bind_eq_Some_conv)

lemma cell_at_free:
  "cells_ok s \<Longrightarrow> snapshots s t = None \<Longrightarrow> cell_at (map_of (held_ptrs s) t) s = Some (Inl NullDeref)"
  by (simp add: busy_iff busy_def cell_at_def)

lemma copy_if_shared_ok:
  assumes "cells_ok s"
  shows "\<exists>s'. copy_if_shared s = Some (Inr s') \<and> cells_ok s' \<and> unique s' \<and> users s' = users s
     \<and> snapshots s' = snapshots s \<and> sent s' = sent s"
proof (cases "unique s")
  case True
  then show ?thesis using assms by (simp add: copy_if_shared_def)
next
  case False
  let ?H = "map_of (held_ptrs s)"
  note D = cells_okD [OF assms]
  obtain m where m: "users_heap s (users_ptr s) = Some m" using D(1) by blast
  let ?s = "s\<lparr>users_heap := (users_heap s)(next_cell s := Some m), users_ptr := next_cell s,
    next_cell := next_cell s + 1\<rparr>"
  have run: "copy_if_shared s = Some (Inr ?s)" using False m by (simp add: copy_if_shared_def cell_at_def)
  have h: "users_ptr s \<in> ran ?H" using False D(5) by simp
  have n: "next_cell s \<notin> ran ?H" using D(4) by (auto simp: ran_def)
  have ok: "cells_ok ?s" using assms h by (auto simp: cells_ok_def less_SucI)
  moreover have "unique ?s" using cells_okD(5) [OF ok] n by simp
  moreover have "users ?s = users s" using m by (simp add: users_def)
  moreover have "snapshots ?s = snapshots s"
    using D(4) by (auto simp: snapshots_def fun_eq_iff intro!: Option.bind_cong)
  ultimately show ?thesis using run by simp
qed

lemma emplace_map: "map_of (fst (emplace k v m)) = (if map_of m k = None then (map_of m)(k \<mapsto> v) else map_of m)"
  "snd (emplace k v m) \<longleftrightarrow> map_of m k = None"
  by (auto simp: emplace_def)

section \<open>The directory of users\<close>

text \<open>The answers, over the users a reader or the writer sees.\<close>

definition login_answer :: "(string \<rightharpoonup> string) \<Rightarrow> credentials \<Rightarrow> broadcast_msg" where
  "login_answer B m = LoginResponseB
     (if (case B (cr_username m) of Some p \<Rightarrow> p | None \<Rightarrow> '''') = cr_password m
      then \<lparr>st_success = True, st_error_message = ''''\<rparr>
      else \<lparr>st_success = False, st_error_message = ''Invalid username or password.''\<rparr>)"

definition register_answer :: "(string \<rightharpoonup> string) \<Rightarrow> credentials \<Rightarrow> broadcast_msg" where
  "register_answer A m = RegisterResponseB
     (if A (cr_username m) = None then \<lparr>st_success = True, st_error_message = ''''\<rparr>
      else \<lparr>st_success = False, st_error_message = ''Username already exists.''\<rparr>)"

definition registered_in :: "(string \<rightharpoonup> string) \<Rightarrow> credentials \<Rightarrow> (string \<rightharpoonup> string)" where
  "registered_in A m = (if A (cr_username m) = None then A(cr_username m \<mapsto> cr_password m) else A)"

text \<open>
  The abstract service: one map of users, and for each thread that reads the map as it was when the
  read began.
\<close>

type_synonym directory = "(string \<rightharpoonup> string) \<times> (nat \<rightharpoonup> (string \<rightharpoonup> string)) \<times> effect list"

inductive directory_step :: "broadcast_codec \<Rightarrow> directory \<Rightarrow> directory \<Rightarrow> bool" for env where
  begin_read: "V t = None \<Longrightarrow> directory_step env (A, V, out) (A, V(t \<mapsto> A), out)"
| answer_login: "V (getLoop c) = Some B \<Longrightarrow>
     directory_step env (A, V, out) (A, V(getLoop c := None), out @ framed env c [login_answer B m])"
| answer_search: "V (getLoop c) = Some B \<Longrightarrow> set us = {u \<in> dom B. sublist k u} \<Longrightarrow>
     directory_step env (A, V, out) (A, V(getLoop c := None), out @ framed env c [SearchResponseB us])"
| do_register: "directory_step env (A, V, out)
     (registered_in A m, V, out @ framed env c [register_answer A m])"
| messages: "directory_step env (A, V, out) (A, V, out @ out')"

definition directory_of :: "broadcast_server \<Rightarrow> directory" where
  "directory_of s = (users s, snapshots s, sent s)"

lemma codec_sendB_returns:
  "codec_sendB env c m s = Some (Inr s') \<Longrightarrow> s' = s\<lparr>sent := sent s @ framed env c [m]\<rparr>"
  by (auto simp: codec_sendB_def run_then_Inr_iff dest: send_returns)

lemma frame_simps [simp]:
  "cells_ok (s\<lparr>sent := x1\<rparr>) = cells_ok s" "users (s\<lparr>sent := x1\<rparr>) = users s"
  "snapshots (s\<lparr>sent := x1\<rparr>) = snapshots s"
  "cells_ok (s\<lparr>tasks := x2\<rparr>) = cells_ok s" "users (s\<lparr>tasks := x2\<rparr>) = users s"
  "snapshots (s\<lparr>tasks := x2\<rparr>) = snapshots s"
  "cells_ok (s\<lparr>local_set := x3\<rparr>) = cells_ok s" "users (s\<lparr>local_set := x3\<rparr>) = users s"
  "snapshots (s\<lparr>local_set := x3\<rparr>) = snapshots s"
  "cells_ok (s\<lparr>local_set := x3, loop_set := x4\<rparr>) = cells_ok s"
  "users (s\<lparr>local_set := x3, loop_set := x4\<rparr>) = users s"
  "snapshots (s\<lparr>local_set := x3, loop_set := x4\<rparr>) = snapshots s"
  by (simp_all add: cells_ok_def users_def snapshots_def fun_eq_iff)

lemma releasePtr_sent [simp]: "sent (releasePtr t s) = sent s"
  by (simp add: releasePtr_def Let_def split: option.split)

lemma onRegisterRequestB_ok:
  assumes "cells_ok s"
  shows "\<exists>s1. onRegisterRequestB env c m s = codec_sendB env c (register_answer (users s) m) s1
     \<and> cells_ok s1 \<and> users s1 = registered_in (users s) m \<and> snapshots s1 = snapshots s \<and> sent s1 = sent s"
proof -
  from copy_if_shared_ok [OF assms] obtain s0 where 0: "copy_if_shared s = Some (Inr s0)" "cells_ok s0"
    "unique s0" "users s0 = users s" "snapshots s0 = snapshots s" "sent s0 = sent s" by blast
  note D = cells_okD [OF 0(2)]
  obtain um where um: "users_heap s0 (users_ptr s0) = Some um" using D(1) by blast
  then have u: "map_of um = users s" using 0(4) by (simp add: users_def)
  let ?e = "emplace (cr_username m) (cr_password m) um"
  let ?s = "s0\<lparr>users_heap := (users_heap s0)(users_ptr s0 := Some (fst ?e))\<rparr>"
  have "onRegisterRequestB env c m s = codec_sendB env c (register_answer (users s) m) ?s"
    using 0(1,3) um u
    by (simp add: onRegisterRequestB_def cell_at_def case_prod_unfold emplace_map register_answer_def)
  moreover have "cells_ok ?s" using 0(2) um by (auto simp: cells_ok_def dom_def)
  moreover have "users ?s = registered_in (users s) m" by (simp add: users_def emplace_map registered_in_def u)
  moreover have "snapshots ?s = snapshots s0"
    using D(5) 0(3) by (auto simp: snapshots_def fun_eq_iff ran_def intro!: Option.bind_cong)
  ultimately show ?thesis using 0(5,6) by (intro exI [of _ ?s]) simp
qed

lemma send_eachB_returns:
  "send_eachB env m cs s = Some (Inr s') \<Longrightarrow> \<exists>out. s' = s\<lparr>sent := sent s @ out\<rparr>"
proof (induction cs arbitrary: s)
  case (Cons c cs)
  from Cons.prems obtain s1 where 1: "codec_sendB env c (TextMessageB m) s = Some (Inr s1)"
    "send_eachB env m cs s1 = Some (Inr s')" by (auto simp: run_then_Inr_iff)
  from codec_sendB_returns [OF 1(1)] Cons.IH [OF 1(2)] show ?case by auto
qed (simp add: exI [of _ "[]"])

lemma read_ends:
  assumes "cells_ok s"
  shows "login_end env c m s = Some (Inr s') \<Longrightarrow> \<exists>B. snapshots s (getLoop c) = Some B
      \<and> s' = (releasePtr (getLoop c) s)\<lparr>sent := sent s @ framed env c [login_answer B m]\<rparr>"
    and "search_end env c k s = Some (Inr s') \<Longrightarrow> \<exists>B us. snapshots s (getLoop c) = Some B
      \<and> set us = {u \<in> dom B. sublist k u}
      \<and> s' = (releasePtr (getLoop c) s)\<lparr>sent := sent s @ framed env c [SearchResponseB us]\<rparr>"
proof -
  let ?t = "getLoop c"
  show "\<exists>B. snapshots s ?t = Some B \<and> s' = (releasePtr ?t s)\<lparr>sent := sent s @ framed env c [login_answer B m]\<rparr>"
    if r: "login_end env c m s = Some (Inr s')"
  proof (cases "snapshots s ?t")
    case None
    then show ?thesis using r cell_at_free [OF assms None] by (simp add: login_end_def)
  next
    case (Some B)
    from cell_at_held [OF assms Some] obtain um where
      "cell_at (map_of (held_ptrs s) ?t) s = Some (Inr um)" "map_of um = B" .
    then show ?thesis
      using r Some by (auto simp: login_end_def Let_def login_answer_def
          dest!: codec_sendB_returns simp del: framed_simps)
  qed
  show "\<exists>B us. snapshots s ?t = Some B \<and> set us = {u \<in> dom B. sublist k u}
      \<and> s' = (releasePtr ?t s)\<lparr>sent := sent s @ framed env c [SearchResponseB us]\<rparr>"
    if r: "search_end env c k s = Some (Inr s')"
  proof (cases "snapshots s ?t")
    case None
    then show ?thesis using r cell_at_free [OF assms None] by (simp add: search_end_def)
  next
    case (Some B)
    from cell_at_held [OF assms Some] obtain um where
      u: "cell_at (map_of (held_ptrs s) ?t) s = Some (Inr um)" "map_of um = B" .
    let ?us = "filter (\<lambda>name. k = '''' \<or> str_find k name \<noteq> None) (map fst um)"
    have "set ?us = {u \<in> dom B. sublist k u}"
      unfolding u(2) [symmetric] dom_map_of_conv_image_fst by (auto simp: str_find_None_iff)
    moreover have "s' = (releasePtr ?t s)\<lparr>sent := sent s @ framed env c [SearchResponseB ?us]\<rparr>"
      using r u(1) by (auto simp: search_end_def dest!: codec_sendB_returns simp del: framed_simps)
    ultimately show ?thesis using Some by blast
  qed
qed

lemma broadcast_moves_directory:
  assumes "cells_ok s" and "broadcast_moves env s s'"
  shows "cells_ok s' \<and> directory_step env (directory_of s) (directory_of s')"
  using assms(2)
proof cases
  case (start_loop t)
  then show ?thesis using assms(1) directory_step.messages [of env "users s" "snapshots s" "sent s" "[]"]
    by (auto simp: threadInitB_def directory_of_def split: if_splits)
next
  case (up_or_down c connected)
  then show ?thesis using assms(1) directory_step.messages [of env "users s" "snapshots s" "sent s" "[]"]
    by (auto simp: onConnectionB_def Let_def directory_of_def)
next
  case (read_begin t)
  have "snapshots s t = None" using busy_iff [OF assms(1)] read_begin(2) by simp
  then show ?thesis
    using getUsersPtr_ok [OF assms(1) read_begin(2)]
      directory_step.begin_read [of "snapshots s" t env "users s" "sent s"]
    unfolding directory_of_def read_begin(1) by (simp add: getUsersPtr_def)
next
  case (login c m)
  from read_ends(1) [OF assms(1) login] releasePtr_ok [OF assms(1)] show ?thesis
    by (auto simp: directory_of_def simp del: framed_simps intro: directory_step.answer_login)
next
  case (search c k)
  from read_ends(2) [OF assms(1) search] obtain B us where r: "snapshots s (getLoop c) = Some B"
    "set us = {u \<in> dom B. sublist k u}"
    "s' = (releasePtr (getLoop c) s)\<lparr>sent := sent s @ framed env c [SearchResponseB us]\<rparr>" by blast
  show ?thesis
    using directory_step.answer_search [of "snapshots s" c B us k env "users s" "sent s", OF r(1,2)]
      releasePtr_ok [OF assms(1), of "getLoop c"]
    by (simp add: directory_of_def r(3) del: framed_simps)
next
  case (register c m)
  from onRegisterRequestB_ok [OF assms(1), of env c m] obtain s1 where
    s1: "onRegisterRequestB env c m s = codec_sendB env c (register_answer (users s) m) s1" "cells_ok s1"
      "users s1 = registered_in (users s) m" "snapshots s1 = snapshots s" "sent s1 = sent s" by blast
  have "s' = s1\<lparr>sent := sent s1 @ framed env c [register_answer (users s) m]\<rparr>"
    using register(2) s1(1) by (intro codec_sendB_returns) simp
  with s1 show ?thesis
    by (simp add: directory_of_def directory_step.do_register del: framed_simps)
next
  case (message c x)
  then show ?thesis using assms(1) directory_step.messages [of env "users s" "snapshots s" "sent s" "[]"]
    by (auto simp: onTextMessageB_def directory_of_def)
next
  case (other c y)
  then show ?thesis using assms(1)
    by (auto simp: onUnknownMessageTypeB_def directory_of_def intro: directory_step.messages)
next
  case (task t "before" x "after")
  from task(4) show ?thesis using assms(1)
    by (auto simp: distributeTextMessage_def Let_def directory_of_def dest!: send_eachB_returns
        intro: directory_step.messages)
qed

lemma cells_ok_initial: "cells_ok ChatServerB"
  by (simp add: cells_ok_def ChatServerB_def)

lemma broadcast_cells_ok: "broadcast_reachable env s \<Longrightarrow> cells_ok s"
proof (induction rule: broadcast_reachable.induct)
  case initial
  then show ?case by (rule cells_ok_initial)
next
  case (moves s s')
  then show ?case using broadcast_moves_directory by blast
qed

section \<open>Connections\<close>

definition conns_ok :: "broadcast_server \<Rightarrow> bool" where
  "conns_ok s \<longleftrightarrow> distinct (loop_set s) \<and> (\<forall>t. distinct (local_instance t s)
     \<and> (\<forall>c \<in> set (local_instance t s). getLoop c = t \<and> t \<in> set (loop_set s)))"

lemma conns_ok_cong:
  "conns_ok s \<Longrightarrow> local_set s' = local_set s \<Longrightarrow> loop_set s' = loop_set s \<Longrightarrow> conns_ok s'"
  by (simp add: conns_ok_def local_instance_def)

lemma releasePtr_sets [simp]:
  "local_set (releasePtr t s) = local_set s" "loop_set (releasePtr t s) = loop_set s"
  by (simp_all add: releasePtr_def Let_def split: option.split)

lemma register_sets:
  "onRegisterRequestB env c m s = Some (Inr s') \<Longrightarrow> local_set s' = local_set s \<and> loop_set s' = loop_set s"
  by (auto simp: onRegisterRequestB_def copy_if_shared_def run_then_Inr_iff case_prod_unfold
      split: if_splits dest!: codec_sendB_returns)

lemma ends_sets:
  "login_end env c m s = Some (Inr s') \<Longrightarrow> local_set s' = local_set s \<and> loop_set s' = loop_set s"
  "search_end env c k s = Some (Inr s') \<Longrightarrow> local_set s' = local_set s \<and> loop_set s' = loop_set s"
  by (auto simp: login_end_def search_end_def run_then_Inr_iff Let_def dest!: codec_sendB_returns)

lemma local_instance_simps [simp]:
  "local_instance t (s\<lparr>local_set := (local_set s)(t' := Some cs)\<rparr>) = (if t = t' then cs else local_instance t s)"
  "local_instance t (s\<lparr>local_set := (local_set s)(t' := Some cs), loop_set := ls\<rparr>) =
     (if t = t' then cs else local_instance t s)"
  "local_instance t (s\<lparr>sent := out\<rparr>) = local_instance t s"
  "local_instance t (s\<lparr>tasks := ts\<rparr>) = local_instance t s"
  by (simp_all add: local_instance_def)

lemma broadcast_moves_conns:
  assumes "conns_ok s" and "broadcast_moves env s s'"
  shows "conns_ok s'"
  using assms(2)
proof cases
  case (start_loop t)
  then have s': "s' = s\<lparr>local_set := (local_set s)(t := Some []), loop_set := List.insert t (loop_set s)\<rparr>"
    by (simp add: threadInitB_def split: if_splits)
  show ?thesis unfolding s' using assms(1) by (auto simp: conns_ok_def)
next
  case (up_or_down c connected)
  let ?cs = "local_instance (getLoop c) s"
  have s': "s' = s\<lparr>local_set := (local_set s)(getLoop c :=
      Some (if connected then List.insert c ?cs else removeAll c ?cs))\<rparr>"
    using up_or_down(3) by (simp add: onConnectionB_def Let_def)
  show ?thesis unfolding s' using assms(1) up_or_down(2) by (auto simp: conns_ok_def distinct_removeAll)
next
  case (read_begin t)
  then show ?thesis using assms(1) by (simp add: getUsersPtr_def conns_ok_def local_instance_def)
next
  case (task t "before" x "after")
  let ?s = "s\<lparr>tasks := before @ after\<rparr>"
  obtain out where "s' = (?s\<lparr>local_set := (local_set ?s)(t := Some (local_instance t ?s))\<rparr>)
      \<lparr>sent := sent s @ out\<rparr>"
    using task(4) send_eachB_returns by (fastforce simp: distributeTextMessage_def Let_def)
  then have "local_instance t' s' = local_instance t' s" "loop_set s' = loop_set s" for t'
    by (auto simp: local_instance_def)
  then show ?thesis using assms(1) by (simp add: conns_ok_def)
next
  case (message c x)
  then show ?thesis using assms(1) by (auto simp: onTextMessageB_def intro: conns_ok_cong)
next
  case (other c y)
  then show ?thesis using assms(1) by (auto simp: onUnknownMessageTypeB_def intro: conns_ok_cong)
qed (use assms(1) in \<open>auto dest!: ends_sets register_sets intro: conns_ok_cong\<close>)

lemma broadcast_conns_ok: "broadcast_reachable env s \<Longrightarrow> conns_ok s"
proof (induction rule: broadcast_reachable.induct)
  case initial
  then show ?case by (simp add: conns_ok_def local_instance_def ChatServerB_def)
qed (rule broadcast_moves_conns)

section \<open>Distribution\<close>

fun distribute_all :: "broadcast_codec \<Rightarrow> (nat \<times> broadcast_text) list \<Rightarrow> broadcast_step" where
  "distribute_all env [] s = Some (Inr s)"
| "distribute_all env ((t, x) # ts) s =
     run_then (distributeTextMessage env t x s) (distribute_all env ts)"

lemma send_eachB_framed:
  assumes "can_frame env (TextMessageB x)"
  shows "send_eachB env x cs s =
     Some (Inr (s\<lparr>sent := sent s @ map (\<lambda>c. Send c (frame_of env (TextMessageB x))) cs\<rparr>))"
  using assms by (induction cs arbitrary: s) (simp_all add: codec_sendB_def)

lemma distribute_all_framed:
  assumes "can_frame env (TextMessageB x)"
  shows "\<exists>s'. distribute_all env (map (\<lambda>t. (t, x)) ts) s = Some (Inr s')
     \<and> sent s' = sent s @ map (\<lambda>c. Send c (frame_of env (TextMessageB x)))
         (concat (map (\<lambda>t. local_instance t s) ts))"
proof (induction ts arbitrary: s)
  case (Cons t ts)
  let ?s = "(s\<lparr>local_set := (local_set s)(t := Some (local_instance t s))\<rparr>)
    \<lparr>sent := sent s @ map (\<lambda>c. Send c (frame_of env (TextMessageB x))) (local_instance t s)\<rparr>"
  have "distributeTextMessage env t x s = Some (Inr ?s)"
    by (simp add: distributeTextMessage_def Let_def send_eachB_framed [OF assms])
  moreover have "local_instance t' ?s = local_instance t' s" for t' by (simp add: local_instance_def)
  ultimately show ?case using Cons.IH [of ?s] by simp
qed simp

section \<open>Properties\<close>


text \<open>Thread 2 is reading when a connection of loop 1 registers a user.\<close>

definition sample_reading :: broadcast_server where
  "sample_reading = getUsersPtr 2 ChatServerB"

lemma sample_reading_reachable: "broadcast_reachable env sample_reading"
  unfolding sample_reading_def
  by (rule broadcast_reachable.moves [OF broadcast_reachable.initial broadcast_moves.read_begin])
    (simp add: busy_def ChatServerB_def)



text \<open>A connection of loop 1 is up.\<close>

definition sample_up :: "broadcast_server run" where
  "sample_up = run_then (threadInitB 1 ChatServerB) (onConnectionB (Conn 7 1) True)"

lemma sample_up_reachable:
  assumes "sample_up = Some (Inr s)"
  shows "broadcast_reachable env s" "local_instance t s = (if t = 1 then [Conn 7 1] else [])" "sent s = []"
proof -
  let ?s1 = "ChatServerB\<lparr>local_set := (\<lambda>_. None)(1 := Some []), loop_set := [1]\<rparr>"
  have 1: "threadInitB 1 ChatServerB = Some (Inr ?s1)" by (simp add: threadInitB_def ChatServerB_def)
  have 2: "onConnectionB (Conn 7 1) True ?s1 = Some (Inr s)" using assms 1 by (simp add: sample_up_def)
  have "broadcast_reachable env ?s1"
    by (rule broadcast_reachable.moves [OF broadcast_reachable.initial broadcast_moves.start_loop [OF 1]])
  then show "broadcast_reachable env s"
    by (rule broadcast_reachable.moves) (rule broadcast_moves.up_or_down [OF _ _ 2],
        simp_all add: busy_def ChatServerB_def)
  show "local_instance t s = (if t = 1 then [Conn 7 1] else [])" "sent s = []"
    using 2 by (auto simp: onConnectionB_def local_instance_def ChatServerB_def)
qed


end
