(* ===== verification/Broadcast_Session.thy ===== *)
theory Broadcast_Session
  imports Broadcast_Client Broadcast_Properties
begin

text \<open>
  What the broadcast client says, against an abstract session over the typed lines alone.
\<close>

section \<open>The abstract session\<close>

definition says :: "string \<Rightarrow> string \<Rightarrow> broadcast_msg list \<times> string" where
  "says me line =
     (let (cmd, rest) = next_word line; (a, r1) = next_word rest; (b, r2) = next_word r1
      in if cmd = ''register'' then ([RegisterRequestB \<lparr>cr_username = a, cr_password = b\<rparr>], me)
         else if cmd = ''login'' then ([LoginRequestB \<lparr>cr_username = a, cr_password = b\<rparr>], a)
         else if cmd = ''send'' then ([TextMessageB \<lparr>bt_sender = me, bt_content = getline rest\<rparr>], me)
         else if cmd = ''search'' then ([SearchRequestB a], me)
         else ([], me))"

fun says_all :: "string \<Rightarrow> string list \<Rightarrow> broadcast_msg list \<times> string" where
  "says_all me [] = ([], me)"
| "says_all me (line # lines) =
     (let (ms, me') = says me line; (ms', me'') = says_all me' lines in (ms @ ms', me''))"

definition doesB :: "broadcast_codec \<Rightarrow> conn \<Rightarrow> broadcast_msg list \<times> string \<Rightarrow> broadcast_client \<Rightarrow> broadcast_client" where
  "doesB env c r s = s\<lparr>user := snd r, effects_out := effects_out s @ framed env c (fst r)\<rparr>"

lemma client_sendB_framed:
  "link s = Some c \<Longrightarrow> can_frame env m \<Longrightarrow>
     client_sendB env m s = Some (Inr (s\<lparr>effects_out := effects_out s @ framed env c [m]\<rparr>))"
  by (simp add: client_sendB_def)

lemma client_lineB_says:
  assumes "link s = Some c" and "\<forall>m \<in> set (fst (says (user s) line)). can_frame env m"
  shows "client_lineB env line s = Some (Inr (doesB env c (says (user s) line) s))"
proof -
  obtain cmd r where n1: "next_word line = (cmd, r)" by fastforce
  obtain a r1 where n2: "next_word r = (a, r1)" by fastforce
  obtain b r2 where n3: "next_word r1 = (b, r2)" by fastforce
  show ?thesis using assms n1 n2 n3
    by (auto simp: client_lineB_def processCommandB_def says_def doesB_def client_sendB_framed split: if_splits)
qed

lemma doesB_simps [simp]: "link (doesB env c r s) = link s" "user (doesB env c r s) = snd r"
  by (simp_all add: doesB_def)

lemma client_linesB_says:
  "link s = Some c \<Longrightarrow> \<forall>m \<in> set (fst (says_all (user s) lines)). can_frame env m \<Longrightarrow>
     client_linesB env lines s = Some (Inr (doesB env c (says_all (user s) lines) s))"
proof (induction lines arbitrary: s)
  case Nil
  then show ?case by (simp add: doesB_def)
next
  case (Cons line lines)
  let ?s = "doesB env c (says (user s) line) s"
  have 1: "client_lineB env line s = Some (Inr ?s)"
    using Cons.prems by (intro client_lineB_says) (auto simp: case_prod_unfold Let_def)
  have 2: "client_linesB env lines ?s = Some (Inr (doesB env c (says_all (user ?s) lines) ?s))"
    using Cons.prems by (intro Cons.IH) (auto simp: case_prod_unfold Let_def)
  show ?case using 1 2 by (simp add: doesB_def case_prod_unfold Let_def)
qed

text \<open>
  The client speaks in the name typed last. Over a connection every line is sent as the abstract
  session says: a login changes the name at once, the content of a text is the rest of its line with
  all its spaces; and no message of the server, not even a refused login, changes the name.
\<close>

lemma client_speaks_as_typed:
  assumes "link s = Some c" and "\<forall>m \<in> set (fst (says_all (user s) lines)). can_frame env m"
  shows "client_linesB env lines s = Some (Inr (doesB env c (says_all (user s) lines) s))
     \<and> (\<forall>c' m. \<exists>s'. client_messageB c' m s = Some (Inr s') \<and> user s' = user s \<and> link s' = link s)"
proof -
  have "user (fold (\<lambda>n. printB (f n)) ns s) = user s \<and> link (fold (\<lambda>n. printB (f n)) ns s) = link s"
    for f :: "string \<Rightarrow> string" and ns and s :: broadcast_client
    by (induction ns arbitrary: s) (simp_all add: printB_def)
  then have "\<exists>s'. client_messageB c' m s = Some (Inr s') \<and> user s' = user s \<and> link s' = link s" for c' m
    by (cases m) (simp_all add: client_messageB_cases onLoginResponseB_def onRegisterResponseB_def
        onSearchResponseB_def client_onTextMessageB_def client_onUnknownMessageTypeB_def printB_def)
  with client_linesB_says [OF assms] show ?thesis by blast
qed

end
