(* ===== verification/Serving.thy ===== *)
theory Serving
  imports Codec_Properties Network
begin

text \<open>
  Runs that serve: the calculus by which the programs are shown to handle every input. A rule for
  sequences, the framing of a message, and what the decoder hands on.
\<close>

section \<open>Runs that serve\<close>

text \<open>
  A run serves when it returns with \<open>Q\<close>. The one fault allowed is the abort of Protocol Buffers on a
  message whose serialization has 2 GiB or more.
\<close>

definition serves :: "('m, 'd) codec_env \<Rightarrow> 'a run \<Rightarrow> ('a \<Rightarrow> bool) \<Rightarrow> bool" where
  "serves env r Q \<longleftrightarrow> returns r Q
     \<or> r = Some (Inl LibraryAbort) \<and> (\<exists>m. 2 ^ 31 \<le> length (pb_serialize env m))"

lemma serves_Inr [simp]: "serves env (Some (Inr v)) Q = Q v"
  by (simp add: serves_def)

lemma serves_returns: "returns r Q \<Longrightarrow> serves env r Q"
  by (simp add: serves_def)

lemma serves_then:
  "serves env r P \<Longrightarrow> (\<And>v. P v \<Longrightarrow> serves env (f v) Q) \<Longrightarrow> serves env (run_then r f) Q"
  unfolding serves_def by (fastforce elim: returnsE)

lemma serves_mono: "serves env r P \<Longrightarrow> (\<And>v. P v \<Longrightarrow> Q v) \<Longrightarrow> serves env r Q"
  by (auto simp: serves_def returns_def)

text \<open>The type names of the schema are short.\<close>

definition short_names :: "('m, 'd) codec_env \<Rightarrow> bool" where
  "short_names env \<longleftrightarrow> (\<forall>m. length (pb_type_name env m) < 1000)"

lemma fill_fails:
  assumes "protobuf_env env valid" and "short_names env" and "\<not> can_frame env m"
  shows "fillEmptyBuffer env [] m = Inl LibraryAbort \<and> 2 ^ 31 \<le> length (pb_serialize env m)"
proof -
  have n: "length (pb_type_name env m) + 1 < 2 ^ 31" using assms(2) [unfolded short_names_def, rule_format, of m] by simp
  then have nat: "unat (of_nat (length (pb_type_name env m) + 1) :: int32) = length (pb_type_name env m) + 1"
    by (simp only: unat_of_nat) simp
  show ?thesis
  proof (cases "length (pb_serialize env m) < 2 ^ 31")
    case True
    then have "sint (pb_byte_size env m) = int (length (pb_serialize env m))"
      by (rule protobuf_env.size [OF assms(1)])
    moreover from this have "unat (pb_byte_size env m) = length (pb_serialize env m)"
      using True by (rule unat_of_sint)
    ultimately have "can_frame env m"
      using protobuf_env.initialized [OF assms(1), of m] nat
      by (simp add: can_frame_def frame_of_def fillEmptyBuffer_def Let_def)
    with assms(3) show ?thesis by blast
  next
    case False
    have "sint (pb_byte_size env m) < 2 ^ 31" using sint_lt [of "pb_byte_size env m"] by simp
    moreover have "2 ^ 31 \<le> int (length (pb_serialize env m))" using False by simp
    ultimately have "int (length (pb_serialize env m)) \<noteq> sint (pb_byte_size env m)" by linarith
    then show ?thesis using False protobuf_env.initialized [OF assms(1), of m]
      by (simp add: fillEmptyBuffer_def Let_def)
  qed
qed

lemma send_serves:
  assumes "protobuf_env env valid" and "short_names env"
  shows "serves env (send env c m out) (\<lambda>_. True)"
proof (cases "can_frame env m")
  case False
  from fill_fails [OF assms this] show ?thesis by (auto simp: serves_def send_def)
qed simp

lemma serves_post: "serves env r P \<Longrightarrow> post r Q \<Longrightarrow> serves env r (\<lambda>v. P v \<and> Q v)"
  by (auto simp: serves_def returns_def)

lemma serves_eq: "serves env r P \<Longrightarrow> serves env r (\<lambda>v. r = Some (Inr v) \<and> P v)"
  by (auto simp: serves_def returns_def)

lemma short_names_chat: "short_names chat_env"
  unfolding short_names_def
proof
  fix m :: chat_msg
  show "length (pb_type_name chat_env m) < 1000"
    by (cases "descriptor_of m") (simp_all add: chat_env_def str_bytes_def)
qed

end
