(* ===== verification/Broadcast_Service.thy ===== *)
theory Broadcast_Service
  imports Broadcast_Session Serving
begin

text \<open>
  The whole broadcast server, from its command line on: bytes and connections come in any order, and
  a scheduler lets any thread take its next step, also between the two halves of a read. Whatever it
  chooses, every step ends, no assertion fails and no pointer dangles.
\<close>

section \<open>The program\<close>

fun thread_init_eachB :: "nat list \<Rightarrow> broadcast_step" where
  "thread_init_eachB [] s = Some (Inr s)"
| "thread_init_eachB (loop # rest) s = run_then (threadInitB loop s) (thread_init_eachB rest)"

text \<open>
  \<^verbatim>\<open>main\<close>: the port and the started server; \<open>None\<close> is the usage message. A negative number of threads
  fails an assertion of the library's \<^verbatim>\<open>setThreadNum\<close>.
\<close>

definition thread_arg :: "string list \<Rightarrow> int" where
  "thread_arg argv = (if 2 < length argv then atoi (argv ! 2) else 0)"

definition broadcast_main :: "string list \<Rightarrow> (int \<times> broadcast_server) option run" where
  "broadcast_main argv =
     (if 1 < length argv then
        if thread_arg argv < 0 then Some (Inl AssertFailed)
        else run_then (thread_init_eachB (io_loops (nat (thread_arg argv))) ChatServerB) (\<lambda>server.
          Some (Inr (Some (uint (word_of_int (atoi (argv ! 1)) :: 16 word), server))))
      else Some (Inr None))"

text \<open>
  Each thread runs its jobs in order: the changes of its connections and what the codec calls back
  for their bytes, and, when it has none, the tasks queued in its loop. A login or a search is two
  turns: the handler takes the pointer, then it reads and answers.
\<close>

datatype job = Change conn bool | Event conn "broadcast_msg codec_event"

record program =
  unread :: "conn \<Rightarrow> byte list"
  jobs :: "nat \<Rightarrow> job list"
  reading :: "nat \<Rightarrow> (conn \<times> broadcast_msg) option"
  server :: broadcast_server

definition start_program :: "broadcast_server \<Rightarrow> program" where
  "start_program s = \<lparr>unread = (\<lambda>_. []), jobs = (\<lambda>_. []), reading = (\<lambda>_. None), server = s\<rparr>"

datatype occurrence = Up conn | Down conn | Arrives conn "byte list" | Turn nat

definition add_jobs :: "nat \<Rightarrow> job list \<Rightarrow> program \<Rightarrow> program" where
  "add_jobs t js w = w\<lparr>jobs := (jobs w)(t := jobs w t @ js)\<rparr>"

text \<open>The handlers that read the users take two turns.\<close>

fun is_read :: "broadcast_msg \<Rightarrow> bool" where
  "is_read (LoginRequestB _) = True"
| "is_read (SearchRequestB _) = True"
| "is_read _ = False"

fun read_end :: "broadcast_codec \<Rightarrow> conn \<Rightarrow> broadcast_msg \<Rightarrow> broadcast_step" where
  "read_end env c (LoginRequestB m) s = login_end env c m s"
| "read_end env c (SearchRequestB k) s = search_end env c k s"
| "read_end env c _ s = Some (Inr s)"

fun run_job :: "broadcast_codec \<Rightarrow> nat \<Rightarrow> job \<Rightarrow> program \<Rightarrow> program run" where
  "run_job env t (Change c up) w =
     run_then (onConnectionB c up (server w)) (\<lambda>s. Some (Inr (w\<lparr>server := s\<rparr>)))"
| "run_job env t (Event c (Deliver m)) w =
     (if is_read m
      then Some (Inr (w\<lparr>reading := (reading w)(t \<mapsto> (c, m)), server := getUsersPtr t (server w)\<rparr>))
      else run_then (broadcast_message env c m (server w)) (\<lambda>s. Some (Inr (w\<lparr>server := s\<rparr>))))"
| "run_job env t (Event c (ErrorCb e)) w =
     Some (Inr (if defaultErrorCallback (Some Connected) e = Some Disconnecting
       then w\<lparr>server := (server w)\<lparr>sent := sent (server w) @ [Shutdown c]\<rparr>\<rparr> else w))"

definition run_task :: "broadcast_codec \<Rightarrow> nat \<Rightarrow> program \<Rightarrow> program run" where
  "run_task env t w =
     (case List.extract (\<lambda>task. fst task = t) (tasks (server w)) of
        None \<Rightarrow> Some (Inr w)
      | Some (before, (_, x), after) \<Rightarrow>
          run_then (distributeTextMessage env t x ((server w)\<lparr>tasks := before @ after\<rparr>)) (\<lambda>s.
            Some (Inr (w\<lparr>server := s\<rparr>))))"

definition turn :: "broadcast_codec \<Rightarrow> nat \<Rightarrow> program \<Rightarrow> program run" where
  "turn env t w =
     (case reading w t of
        Some (c, m) \<Rightarrow>
          run_then (read_end env c m (server w)) (\<lambda>s.
            Some (Inr (w\<lparr>reading := (reading w)(t := None), server := s\<rparr>)))
      | None \<Rightarrow>
          (case jobs w t of
             [] \<Rightarrow> run_task env t w
           | j # js \<Rightarrow> run_job env t j (w\<lparr>jobs := (jobs w)(t := js)\<rparr>)))"

fun occurs :: "broadcast_codec \<Rightarrow> occurrence \<Rightarrow> program \<Rightarrow> program run" where
  "occurs env (Up c) w = Some (Inr (add_jobs (getLoop c) [Change c True] (w\<lparr>unread := (unread w)(c := [])\<rparr>)))"
| "occurs env (Down c) w = Some (Inr (add_jobs (getLoop c) [Change c False] (w\<lparr>unread := (unread w)(c := [])\<rparr>)))"
| "occurs env (Arrives c bytes) w =
     run_then (Some (onMessage env (unread w c @ bytes))) (\<lambda>(evs, rest).
       Some (Inr (add_jobs (getLoop c) (map (Event c) evs) (w\<lparr>unread := (unread w)(c := rest)\<rparr>))))"
| "occurs env (Turn t) w = turn env t w"

fun run_program :: "broadcast_codec \<Rightarrow> occurrence list \<Rightarrow> program \<Rightarrow> program run" where
  "run_program env [] w = Some (Inr w)"
| "run_program env (i # is) w = run_then (occurs env i w) (run_program env is)"

text \<open>The two turns make the handler.\<close>

lemma read_turns:
  "is_read m \<Longrightarrow> broadcast_message env c m s = read_end env c m (getUsersPtr (getLoop c) s)"
  by (cases m) (simp_all add: broadcast_message_cases onLoginRequestB_def onSearchRequestB_def)

section \<open>The pieces\<close>

lemma busy_simps [simp]:
  "busy t' (getUsersPtr t s) \<longleftrightarrow> t' = t \<or> busy t' s"
  "busy t' (releasePtr t s) \<longleftrightarrow> t' \<noteq> t \<and> busy t' s"
  "busy t (s\<lparr>sent := out\<rparr>) = busy t s" "busy t (s\<lparr>tasks := ts\<rparr>) = busy t s"
  "busy t (s\<lparr>local_set := l\<rparr>) = busy t s"
  by (auto simp: busy_def getUsersPtr_def releasePtr_def Let_def delete_conv' split: option.splits)

lemma loop_set_simps [simp]:
  "loop_set (getUsersPtr t s) = loop_set s"
  by (simp add: getUsersPtr_def)

lemma register_held: "onRegisterRequestB env c m s = Some (Inr s') \<Longrightarrow> held_ptrs s' = held_ptrs s"
  by (auto simp: onRegisterRequestB_def copy_if_shared_def run_then_Inr_iff case_prod_unfold
      split: if_splits dest!: codec_sendB_returns)

locale broadcast_service = protobuf_env env valid
  for env :: broadcast_codec and valid :: "broadcast_msg \<Rightarrow> bool" +
  assumes short: "short_names env"
begin

lemma codec_sendB_serves:
  "serves env (codec_sendB env c m s) (\<lambda>s'. s' = s\<lparr>sent := sent s @ framed env c [m]\<rparr>)"
proof -
  have "serves env (codec_sendB env c m s) (\<lambda>_. True)"
    unfolding codec_sendB_def by (rule serves_then [OF send_serves [OF protobuf_env_axioms short]]) simp
  from serves_eq [OF this] show ?thesis
    by (rule serves_mono) (auto dest: codec_sendB_returns)
qed

lemma read_end_serves:
  assumes "cells_ok s" and "busy (getLoop c) s" and "is_read m"
  shows "serves env (read_end env c m s) (\<lambda>s'. \<exists>out. s' = (releasePtr (getLoop c) s)\<lparr>sent := out\<rparr>)"
proof -
  obtain B where "snapshots s (getLoop c) = Some B"
    using busy_iff [OF assms(1)] assms(2) by (metis option.exhaust)
  from cell_at_held [OF assms(1) this] obtain um where
    "cell_at (map_of (held_ptrs s) (getLoop c)) s = Some (Inr um)" by blast
  with assms(3) show ?thesis
    by (cases m) (auto simp: login_end_def search_end_def Let_def
        intro!: serves_mono [OF codec_sendB_serves] simp del: framed_simps)
qed

lemma register_serves:
  assumes "cells_ok s"
  shows "serves env (onRegisterRequestB env c m s) (\<lambda>s'. held_ptrs s' = held_ptrs s \<and> loop_set s' = loop_set s)"
proof -
  from onRegisterRequestB_ok [OF assms, of env c m] obtain s1 where
    "onRegisterRequestB env c m s = codec_sendB env c (register_answer (users s) m) s1" by blast
  then have "serves env (onRegisterRequestB env c m s) (\<lambda>_. True)"
    by (auto intro: serves_mono [OF codec_sendB_serves])
  from serves_eq [OF this] show ?thesis
    by (rule serves_mono) (auto dest: register_held register_sets)
qed

lemma send_eachB_serves: "serves env (send_eachB env x cs s) (\<lambda>s'. \<exists>out. s' = s\<lparr>sent := out\<rparr>)"
proof -
  have "serves env (send_eachB env x cs s) (\<lambda>_. True)"
    by (induction cs arbitrary: s) (auto intro: serves_then [OF codec_sendB_serves])
  from serves_eq [OF this] show ?thesis
    by (rule serves_mono) (auto dest: send_eachB_returns)
qed

end


section \<open>The invariant\<close>

fun job_conn :: "job \<Rightarrow> conn" where
  "job_conn (Change c _) = c"
| "job_conn (Event c _) = c"

text \<open>
  The server is in a reachable state, a thread holds a pointer exactly while it is in a read, and
  every job and every read belongs to the thread of its connection.
\<close>

definition running :: "broadcast_codec \<Rightarrow> nat set \<Rightarrow> program \<Rightarrow> bool" where
  "running env T w \<longleftrightarrow> broadcast_reachable env (server w) \<and> T \<subseteq> set (loop_set (server w))
     \<and> (\<forall>t. busy t (server w) \<longleftrightarrow> reading w t \<noteq> None)
     \<and> (\<forall>t c m. reading w t = Some (c, m) \<longrightarrow> getLoop c = t \<and> is_read m)
     \<and> (\<forall>t. \<forall>j \<in> set (jobs w t). getLoop (job_conn j) = t \<and> t \<in> T)"

lemma running_jobs:
  "running env T w \<Longrightarrow> (\<forall>j \<in> set js. getLoop (job_conn j) = t \<and> t \<in> T) \<Longrightarrow>
     running env T (add_jobs t js (w\<lparr>unread := u\<rparr>))"
  by (auto simp: running_def add_jobs_def)

lemma running_tail: "running env T w \<Longrightarrow> jobs w t = j # js \<Longrightarrow> running env T (w\<lparr>jobs := (jobs w)(t := js)\<rparr>)"
  unfolding running_def by (auto, metis list.set_intros(1))

lemma running_server:
  assumes "running env T w" and "broadcast_moves env (server w) s"
    and "loop_set s = loop_set (server w)" and "\<And>t. busy t s = busy t (server w)"
  shows "running env T (w\<lparr>server := s\<rparr>)"
  using assms by (auto simp: running_def intro: broadcast_reachable.moves)

lemma busy_cong: "held_ptrs s' = held_ptrs s \<Longrightarrow> busy t s' = busy t s"
  by (simp add: busy_def)

context broadcast_service
begin

lemma read_end_running:
  assumes "running env T w" and "reading w t = Some (c, m)"
  shows "serves env (turn env t w) (running env T)"
proof -
  let ?s = "server w"
  from assms have t: "getLoop c = t" "is_read m" "busy t ?s" and r: "broadcast_reachable env ?s"
    by (auto simp: running_def)
  have "serves env (read_end env c m ?s)
      (\<lambda>s'. read_end env c m ?s = Some (Inr s') \<and> (\<exists>out. s' = (releasePtr t ?s)\<lparr>sent := out\<rparr>))"
    using read_end_serves [OF broadcast_cells_ok [OF r], of c m] t by (intro serves_eq) simp
  then have "serves env (read_end env c m ?s)
      (\<lambda>s'. broadcast_moves env ?s s' \<and> (\<exists>out. s' = (releasePtr t ?s)\<lparr>sent := out\<rparr>))"
    by (rule serves_mono) (use t(2) in \<open>cases m; auto intro: broadcast_moves.intros\<close>)
  then show ?thesis using assms
    by (auto simp: turn_def running_def intro: broadcast_reachable.moves intro!: serves_then)
qed

lemma run_task_running:
  assumes "running env T w" and "reading w t = None"
  shows "serves env (run_task env t w) (running env T)"
proof (cases "List.extract (\<lambda>task. fst task = t) (tasks (server w))")
  case (Some r)
  let ?s = "server w"
  obtain before l x "after" where x: "r = (before, (l, x), after)" by (cases r) auto
  have e: "tasks ?s = before @ (t, x) # after" "t \<notin> fst ` set before"
    using Some by (force simp: x dest!: extract_SomeE)+
  let ?r = "distributeTextMessage env t x (?s\<lparr>tasks := before @ after\<rparr>)"
  have "serves env ?r (\<lambda>s'. loop_set s' = loop_set ?s \<and> held_ptrs s' = held_ptrs ?s)"
    unfolding distributeTextMessage_def Let_def by (rule serves_mono [OF send_eachB_serves]) auto
  moreover have "broadcast_moves env ?s s'" if "?r = Some (Inr s')" for s'
    using assms by (intro broadcast_moves.task [OF _ e that]) (simp add: running_def)
  ultimately have "serves env ?r (\<lambda>s'. running env T (w\<lparr>server := s'\<rparr>))"
    using serves_eq by (auto intro!: running_server [OF assms(1)] busy_cong elim!: serves_mono [OF serves_eq])
  then show ?thesis using Some by (auto simp: run_task_def x intro!: serves_then)
qed (use assms in \<open>simp add: run_task_def\<close>)

lemma run_job_running:
  assumes "running env T w" and "reading w t = None" and "getLoop (job_conn j) = t" and "t \<in> T"
  shows "serves env (run_job env t j w) (running env T)"
proof -
  let ?s = "server w"
  from assms have r: "broadcast_reachable env ?s" and b: "\<not> busy t ?s" and l: "t \<in> set (loop_set ?s)"
    by (auto simp: running_def)
  show ?thesis
  proof (cases j)
    case (Change c up)
    obtain s' where s': "onConnectionB c up ?s = Some (Inr s')" "loop_set s' = loop_set ?s"
      "held_ptrs s' = held_ptrs ?s" by (simp add: onConnectionB_def Let_def)
    have "broadcast_moves env ?s s'"
      using Change assms(3) b l by (intro broadcast_moves.up_or_down [OF _ _ s'(1)]) auto
    then have "running env T (w\<lparr>server := s'\<rparr>)"
      by (rule running_server [OF assms(1)]) (rule s'(2), rule busy_cong [OF s'(3)])
    with Change s'(1) show ?thesis by simp
  next
    case (Event c ev)
    show ?thesis
    proof (cases ev)
      case (Deliver m)
      note 2 = Event Deliver
      show ?thesis
      proof (cases "is_read m")
        case True
        have "broadcast_reachable env (getUsersPtr t ?s)"
          using r broadcast_moves.read_begin [OF b] by (rule broadcast_reachable.moves)
        with True show ?thesis using 2 assms by (auto simp: running_def)
      next
        case False
        have "serves env (broadcast_message env c m ?s)
            (\<lambda>s'. broadcast_moves env ?s s' \<and> loop_set s' = loop_set ?s \<and> held_ptrs s' = held_ptrs ?s)"
        proof (cases m)
          case (RegisterRequestB x)
          from serves_eq [OF register_serves [OF broadcast_cells_ok [OF r], of c x]] show ?thesis
            unfolding RegisterRequestB by (simp only: broadcast_message_cases broadcast_msg.case)
              (rule serves_mono, assumption, use 2 assms(3) b in \<open>auto intro: broadcast_moves.register\<close>)
        qed (use False 2 assms(3) b in \<open>auto simp: broadcast_message_cases onTextMessageB_def
            onUnknownMessageTypeB_def intro: broadcast_moves.message broadcast_moves.other\<close>)
        then have "serves env (broadcast_message env c m ?s) (\<lambda>s'. running env T (w\<lparr>server := s'\<rparr>))"
          by (rule serves_mono) (auto intro!: running_server [OF assms(1)] busy_cong)
        with 2 False show ?thesis by (auto intro!: serves_then)
      qed
    next
      case (ErrorCb e)
      have "broadcast_moves env ?s (?s\<lparr>sent := sent ?s @ [Shutdown c]\<rparr>)"
        using Event assms(3) b by (intro broadcast_moves.other [of c]) (auto simp: onUnknownMessageTypeB_def)
      then have "running env T (w\<lparr>server := ?s\<lparr>sent := sent ?s @ [Shutdown c]\<rparr>\<rparr>)"
        by (rule running_server [OF assms(1)]) simp_all
      with Event ErrorCb show ?thesis by (simp add: defaultErrorCallback_def)
    qed
  qed
qed

lemma occurs_running:
  assumes "running env T w" and "\<And>c. i = Up c \<or> i = Down c \<or> (\<exists>bs. i = Arrives c bs) \<Longrightarrow> getLoop c \<in> T"
  shows "serves env (occurs env i w) (running env T)"
proof (cases i)
  case (Arrives c bytes)
  obtain evs rest where "onMessage env (unread w c @ bytes) = Inr (evs, rest)"
    using onMessage_total by blast
  with Arrives assms show ?thesis by (auto intro!: running_jobs)
next
  case (Turn t)
  show ?thesis
  proof (cases "reading w t")
    case None
    show ?thesis
    proof (cases "jobs w t")
      case Nil
      with Turn None run_task_running [OF assms(1) None] show ?thesis by (simp add: turn_def)
    next
      case (Cons j js)
      then have "j \<in> set (jobs w t)" by simp
      then have "getLoop (job_conn j) = t" "t \<in> T" using assms(1) by (auto simp: running_def)
      with run_job_running [OF running_tail [OF assms(1) Cons]] None Cons Turn show ?thesis
        by (simp add: turn_def)
    qed
  next
    case (Some p)
    with Turn read_end_running [OF assms(1), of t "fst p" "snd p"] show ?thesis by simp
  qed
qed (use assms in \<open>auto intro!: running_jobs\<close>)

end


context broadcast_service
begin

lemma run_program_running:
  "running env T w \<Longrightarrow>
     (\<And>i c. i \<in> set is \<Longrightarrow> i = Up c \<or> i = Down c \<or> (\<exists>bs. i = Arrives c bs) \<Longrightarrow> getLoop c \<in> T) \<Longrightarrow>
     serves env (run_program env is w) (running env T)"
proof (induction "is" arbitrary: w)
  case (Cons i "is")
  have "serves env (occurs env i w) (running env T)"
    by (rule occurs_running [OF Cons.prems(1)]) (use Cons.prems(2) in auto)
  then show ?case using Cons.prems(2) by (auto intro!: serves_then Cons.IH)
qed simp

end

text \<open>The start.\<close>

lemma thread_init_eachB_starts:
  "broadcast_reachable env s \<Longrightarrow> held_ptrs s = [] \<Longrightarrow> distinct ts \<Longrightarrow> (\<forall>t \<in> set ts. local_set s t = None) \<Longrightarrow>
     \<exists>s'. thread_init_eachB ts s = Some (Inr s') \<and> broadcast_reachable env s' \<and> held_ptrs s' = []
       \<and> set (loop_set s') = set (loop_set s) \<union> set ts"
proof (induction ts arbitrary: s)
  case (Cons t ts)
  let ?s = "s\<lparr>local_set := (local_set s)(t := Some []), loop_set := List.insert t (loop_set s)\<rparr>"
  have i: "threadInitB t s = Some (Inr ?s)" using Cons.prems(4) by (simp add: threadInitB_def)
  have "broadcast_reachable env ?s"
    by (rule broadcast_reachable.moves [OF Cons.prems(1) broadcast_moves.start_loop [OF i]])
  moreover have "\<forall>t' \<in> set ts. local_set ?s t' = None" using Cons.prems(3,4) by auto
  ultimately obtain s' where "thread_init_eachB ts ?s = Some (Inr s')" "broadcast_reachable env s'"
    "held_ptrs s' = []" "set (loop_set s') = set (loop_set ?s) \<union> set ts"
    using Cons.IH [of ?s] Cons.prems(2,3) by auto
  with i show ?case by auto
qed simp

section \<open>Properties\<close>

definition loops_of :: "string list \<Rightarrow> nat set" where
  "loops_of argv = set (io_loops (nat (thread_arg argv)))"


lemma short_names_broadcast: "short_names broadcast_env"
  unfolding short_names_def
proof
  fix m :: broadcast_msg
  show "length (pb_type_name broadcast_env m) < 1000"
    by (cases "descriptorB m") (simp_all add: broadcast_env_def str_bytes_def)
qed

interpretation sample_broadcast: broadcast_service broadcast_env "\<lambda>_. True"
  by (intro broadcast_service.intro broadcast_service_axioms.intro broadcast.protobuf_env_axioms
      short_names_broadcast)


end
