(* ===== verification/SSL_Helper.thy ===== *)
theory SSL_Helper
  imports Network
begin

text \<open>
  The TLS layer of \<^verbatim>\<open>SSL_Helper.cpp\<close>: a session of OpenSSL between two memory BIOs, fed with the bytes
  of a connection and drained into it. OpenSSL is not part of the repository: its session, context
  and BIOs are one state \<open>'o\<close> with the calls of the sources on it. Sizes are 64-bit words, and a
  size passed for an \<^verbatim>\<open>int\<close> is cut to 32 bits as the conversion does. The debug build is modelled;
  log lines are not.
\<close>

section \<open>The calls\<close>

datatype SSL_TYPE = CLIENT | SERVER

datatype ssl_error =
  SSL_ERROR_NONE | SSL_ERROR_SSL | SSL_ERROR_WANT_READ | SSL_ERROR_WANT_WRITE
| SSL_ERROR_WANT_X509_LOOKUP | SSL_ERROR_SYSCALL | SSL_ERROR_ZERO_RETURN
| SSL_ERROR_WANT_CONNECT | SSL_ERROR_WANT_ACCEPT

record 'o openssl =
  library_init :: "'o \<Rightarrow> 'o"
  SSL_CTX_new :: "SSL_TYPE \<Rightarrow> 'o \<Rightarrow> 'o"
  SSL_CTX_set_verify_none :: "'o \<Rightarrow> 'o"
  SSL_CTX_use_certificate :: "'o \<Rightarrow> int \<times> 'o"
  SSL_CTX_use_PrivateKey :: "'o \<Rightarrow> int \<times> 'o"
  SSL_new_with_bios :: "'o \<Rightarrow> 'o"
  SSL_set_state :: "SSL_TYPE \<Rightarrow> 'o \<Rightarrow> 'o"
  SSL_read :: "int \<Rightarrow> 'o \<Rightarrow> int \<times> byte list \<times> 'o"
  SSL_write :: "byte list \<Rightarrow> int \<Rightarrow> 'o \<Rightarrow> int \<times> 'o"
  SSL_get_error :: "int \<Rightarrow> 'o \<Rightarrow> ssl_error"
  SSL_is_init_finished :: "'o \<Rightarrow> bool"
  BIO_pending_send :: "'o \<Rightarrow> nat"
  BIO_read_send :: "int \<Rightarrow> 'o \<Rightarrow> int \<times> byte list \<times> 'o"
  BIO_write_recv :: "byte list \<Rightarrow> int \<Rightarrow> 'o \<Rightarrow> int \<times> 'o"

section \<open>State\<close>

text \<open>
  A vector is its storage and its size; \<^verbatim>\<open>clear()\<close> makes the size 0 and leaves the storage. The
  effects are what the helper does to its connection, in order.
\<close>

datatype ssl_effect = ConnSend "byte list" | ForceClose

type_synonym size_t = "64 word"

record 'o ssl_helper =
  ssl :: 'o
  m_Handshaked :: bool
  m_EncryptedSendData_size :: size_t
  m_DecryptedRecvData :: "byte list"
  m_DecryptedRecvData_size :: size_t
  m_BytesSizeRecieved :: size_t
  m_TotalRecived :: size_t
  m_CurrRecived :: size_t
  m_type :: SSL_TYPE
  on_conn :: "ssl_effect list"

type_synonym 'o ssl_step = "'o ssl_helper \<Rightarrow> 'o ssl_helper run"

record 'o callbacks =
  m_SSL_connected_callback :: "'o ssl_step option"
  m_SSL_receive_callback :: "(byte list \<Rightarrow> size_t \<Rightarrow> 'o ssl_step) option"

definition new_SSL_Helper :: "SSL_TYPE \<Rightarrow> 'o \<Rightarrow> 'o ssl_helper" where
  "new_SSL_Helper type o0 = \<lparr>ssl = o0, m_Handshaked = False, m_EncryptedSendData_size = 1024 * 10,
     m_DecryptedRecvData = replicate (1024 * 10) 0, m_DecryptedRecvData_size = 1024 * 10,
     m_BytesSizeRecieved = 0, m_TotalRecived = 0, m_CurrRecived = 0, m_type = type, on_conn = []\<rparr>"

text \<open>
  The setters. The constructor leaves \<^verbatim>\<open>m_type\<close> as the memory has it; it is set before it is read.
\<close>

definition set_type :: "SSL_TYPE \<Rightarrow> 'o ssl_helper \<Rightarrow> 'o ssl_helper" where
  "set_type type h = h\<lparr>m_type := type\<rparr>"

definition no_callbacks :: "'o callbacks" where
  "no_callbacks = \<lparr>m_SSL_connected_callback = None, m_SSL_receive_callback = None\<rparr>"

definition set_connected_callback :: "'o ssl_step \<Rightarrow> 'o callbacks \<Rightarrow> 'o callbacks" where
  "set_connected_callback f cbs = cbs\<lparr>m_SSL_connected_callback := Some f\<rparr>"

definition set_receive_callback ::
  "(byte list \<Rightarrow> size_t \<Rightarrow> 'o ssl_step) \<Rightarrow> 'o callbacks \<Rightarrow> 'o callbacks" where
  "set_receive_callback f cbs = cbs\<lparr>m_SSL_receive_callback := Some f\<rparr>"

lemma set_type_new [simp]: "set_type type (new_SSL_Helper type' o0) = new_SSL_Helper type o0"
  by (simp add: set_type_def new_SSL_Helper_def)

lemmas callback_defs = no_callbacks_def set_connected_callback_def set_receive_callback_def

text \<open>A \<^verbatim>\<open>size_t\<close> passed for an \<^verbatim>\<open>int\<close>.\<close>

definition int_of_size :: "size_t \<Rightarrow> int" where
  "int_of_size n = sint (ucast n :: int32)"

text \<open>What a call wrote at an offset of the storage; leaving the storage is a fault.\<close>

definition written_at :: "nat \<Rightarrow> byte list \<Rightarrow> byte list \<Rightarrow> byte list outcome" where
  "written_at off bs mem =
     (if bs = [] then Inr mem
      else if off + length bs \<le> length mem
      then Inr (take off mem @ bs @ drop (off + length bs) mem)
      else Inl OutOfRange)"

section \<open>Sending\<close>

definition close_session :: "'o ssl_helper \<Rightarrow> 'o ssl_helper" where
  "close_session h = h\<lparr>on_conn := on_conn h @ [ForceClose]\<rparr>"

fun IsSSLError :: "ssl_error \<Rightarrow> bool" where
  "IsSSLError SSL_ERROR_NONE = False"
| "IsSSLError SSL_ERROR_WANT_READ = False"
| "IsSSLError SSL_ERROR_WANT_WRITE = False"
| "IsSSLError SSL_ERROR_WANT_CONNECT = False"
| "IsSSLError SSL_ERROR_WANT_ACCEPT = False"
| "IsSSLError _ = True"

definition close_on_error :: "'o openssl \<Rightarrow> int \<Rightarrow> 'o ssl_helper \<Rightarrow> 'o ssl_helper" where
  "close_on_error ops ret h = (if IsSSLError (SSL_get_error ops ret (ssl h)) then close_session h else h)"

partial_function (option) SSLProcessingSend :: "'o openssl \<Rightarrow> 'o ssl_step" where
  [code]: "SSLProcessingSend ops h =
     (if BIO_pending_send ops (ssl h) \<noteq> 0 then
        (case BIO_read_send ops (int_of_size (m_EncryptedSendData_size h)) (ssl h) of (ret, bs, o1) \<Rightarrow>
           SSLProcessingSend ops
             (if 0 < ret then h\<lparr>ssl := o1, on_conn := on_conn h @ [ConnSend (take (nat ret) bs)]\<rparr>
              else close_on_error ops ret (h\<lparr>ssl := o1\<rparr>)))
      else Some (Inr h))"

definition SSLSendData :: "'o openssl \<Rightarrow> byte list \<Rightarrow> 'o ssl_step" where
  "SSLSendData ops data h =
     (case SSL_write ops data (int_of_size (of_nat (length data))) (ssl h) of (ret, o1) \<Rightarrow>
        SSLProcessingSend ops (close_on_error ops ret (h\<lparr>ssl := o1\<rparr>)))"

section \<open>Receiving\<close>

definition SSLReceiveData :: "'o callbacks \<Rightarrow> 'o ssl_step" where
  "SSLReceiveData cb h =
     run_then
       (case m_SSL_receive_callback cb of
          Some f \<Rightarrow> f (m_DecryptedRecvData h) (m_DecryptedRecvData_size h) h
        | None \<Rightarrow> Some (Inr h))
       (\<lambda>h. Some (Inr (h\<lparr>m_DecryptedRecvData_size := 0\<rparr>)))"

definition SSLConnected :: "'o callbacks \<Rightarrow> 'o ssl_step" where
  "SSLConnected cb h = (case m_SSL_connected_callback cb of Some f \<Rightarrow> f h | None \<Rightarrow> Some (Inr h))"

text \<open>
  The loop of \<^verbatim>\<open>SSLProcessingAccept\<close> and \<^verbatim>\<open>SSLProcessingConnect\<close>; the byte count they keep is not used.
\<close>

partial_function (option) handshake_loop :: "'o openssl \<Rightarrow> 'o ssl_step" where
  [code]: "handshake_loop ops h =
     (case SSL_read ops (int_of_size (m_DecryptedRecvData_size h)) (ssl h) of (ret, bs, o1) \<Rightarrow>
        run_then (Some (written_at 0 (take (nat ret) bs) (m_DecryptedRecvData h))) (\<lambda>mem.
          let h = close_on_error ops ret (h\<lparr>ssl := o1, m_DecryptedRecvData := mem\<rparr>)
          in if 0 < ret then handshake_loop ops h else Some (Inr h)))"

definition SSLProcessingAccept :: "'o openssl \<Rightarrow> 'o callbacks \<Rightarrow> 'o ssl_step" where
  "SSLProcessingAccept ops cb h =
     run_then (handshake_loop ops h) (\<lambda>h.
     run_then (if SSL_is_init_finished ops (ssl h) then SSLReceiveData cb (h\<lparr>m_Handshaked := True\<rparr>)
               else Some (Inr h))
       (SSLProcessingSend ops))"

definition SSLProcessingConnect :: "'o openssl \<Rightarrow> 'o callbacks \<Rightarrow> 'o ssl_step" where
  "SSLProcessingConnect ops cb h =
     run_then (handshake_loop ops h) (\<lambda>h.
     run_then (if SSL_is_init_finished ops (ssl h) then SSLReceiveData cb (h\<lparr>m_Handshaked := True\<rparr>)
               else Some (Inr h))
       (SSLProcessingSend ops))"

text \<open>The bytes of the connection go into the receiving BIO.\<close>

definition feed_bio :: "'o openssl \<Rightarrow> byte list \<Rightarrow> 'o ssl_helper \<Rightarrow> 'o ssl_helper" where
  "feed_bio ops RecvBuffer h =
     (let h = h\<lparr>m_BytesSizeRecieved := m_BytesSizeRecieved h + of_nat (length RecvBuffer)\<rparr>
      in if 0 < m_BytesSizeRecieved h then
           (case BIO_write_recv ops RecvBuffer (int_of_size (of_nat (length RecvBuffer))) (ssl h) of
              (ret, o1) \<Rightarrow>
                let h = h\<lparr>ssl := o1\<rparr> in
                if 0 < ret then
                  (let h = (if m_BytesSizeRecieved h < word_of_int ret then close_session h else h)
                   in h\<lparr>m_BytesSizeRecieved := m_BytesSizeRecieved h - word_of_int ret\<rparr>)
                else close_on_error ops ret h)
         else h)"

text \<open>
  The read loop. With \<open>collect\<close> it also appends the whole buffer to the vector of its caller, as
  \<^verbatim>\<open>SSLProcessingRecvAndGetDecryptedData\<close> does.
\<close>

partial_function (option) recv_loop ::
  "'o openssl \<Rightarrow> 'o callbacks \<Rightarrow> bool \<Rightarrow> byte list \<Rightarrow> 'o ssl_helper \<Rightarrow> (byte list \<times> 'o ssl_helper) run" where
  [code]: "recv_loop ops cb collect decryptedData h =
     (let room = m_DecryptedRecvData_size h - m_CurrRecived h in
      if \<not> 0 < room then Some (Inl AssertFailed)
      else case SSL_read ops (int_of_size room) (ssl h) of (ret, bs, o1) \<Rightarrow>
        run_then (Some (written_at (unat (m_CurrRecived h)) (take (nat ret) bs) (m_DecryptedRecvData h))) (\<lambda>mem.
          let h = h\<lparr>ssl := o1, m_DecryptedRecvData := mem\<rparr> in
          if 0 < ret then
            let h = h\<lparr>m_CurrRecived := m_CurrRecived h + word_of_int ret,
                      m_TotalRecived := m_TotalRecived h + word_of_int ret\<rparr> in
            if m_Handshaked h then
              run_then (SSLReceiveData cb h)
                (recv_loop ops cb collect
                  (if collect
                   then decryptedData @ take (unat (m_DecryptedRecvData_size h)) (m_DecryptedRecvData h)
                   else decryptedData))
            else recv_loop ops cb collect decryptedData h
          else Some (Inr (decryptedData, close_on_error ops ret h))))"

definition finish_handshake :: "'o openssl \<Rightarrow> 'o callbacks \<Rightarrow> 'o ssl_step" where
  "finish_handshake ops cb h =
     (if \<not> m_Handshaked h \<and> SSL_is_init_finished ops (ssl h)
      then SSLConnected cb (h\<lparr>m_Handshaked := True\<rparr>) else Some (Inr h))"

definition SSLProcessingRecv :: "'o openssl \<Rightarrow> 'o callbacks \<Rightarrow> byte list \<Rightarrow> 'o ssl_step" where
  "SSLProcessingRecv ops cb RecvBuffer h =
     run_then (recv_loop ops cb False [] (feed_bio ops RecvBuffer h)) (\<lambda>(_, h).
     run_then (finish_handshake ops cb h) (SSLProcessingSend ops))"

definition SSLProcessingRecvAndGetDecryptedData ::
  "'o openssl \<Rightarrow> 'o callbacks \<Rightarrow> byte list \<Rightarrow> byte list \<Rightarrow> 'o ssl_helper \<Rightarrow> (byte list \<times> 'o ssl_helper) run" where
  "SSLProcessingRecvAndGetDecryptedData ops cb RecvBuffer decryptedData h =
     run_then (recv_loop ops cb True decryptedData (feed_bio ops RecvBuffer h)) (\<lambda>(decryptedData, h).
     run_then (finish_handshake ops cb h) (\<lambda>h. Some (Inr (decryptedData, h))))"

text \<open>The buffer of the connection is empty afterwards.\<close>

definition SSL_onMessage :: "'o openssl \<Rightarrow> 'o callbacks \<Rightarrow> byte list \<Rightarrow> 'o ssl_step" where
  "SSL_onMessage ops cb buf h = SSLProcessingRecv ops cb buf h"

section \<open>Starting a session\<close>

definition SetSSLCertificate :: "'o openssl \<Rightarrow> 'o ssl_helper \<Rightarrow> 'o ssl_helper" where
  "SetSSLCertificate ops h =
     (case SSL_CTX_use_certificate ops (ssl h) of (ret, o1) \<Rightarrow>
        let h = (if ret \<noteq> 1 then close_session (h\<lparr>ssl := o1\<rparr>) else h\<lparr>ssl := o1\<rparr>) in
        (case SSL_CTX_use_PrivateKey ops (ssl h) of (ret, o2) \<Rightarrow>
           if ret \<noteq> 1 then close_session (h\<lparr>ssl := o2\<rparr>) else h\<lparr>ssl := o2\<rparr>))"

definition CreateClientSSLContext :: "'o openssl \<Rightarrow> 'o ssl_helper \<Rightarrow> 'o ssl_helper" where
  "CreateClientSSLContext ops h = h\<lparr>ssl := SSL_new_with_bios ops (SSL_CTX_new ops CLIENT (ssl h))\<rparr>"

definition CreateServerSSLContext :: "'o openssl \<Rightarrow> 'o ssl_helper \<Rightarrow> 'o ssl_helper" where
  "CreateServerSSLContext ops h =
     (let h = SetSSLCertificate ops
            (h\<lparr>ssl := SSL_CTX_set_verify_none ops (SSL_CTX_new ops SERVER (ssl h))\<rparr>)
      in h\<lparr>ssl := SSL_new_with_bios ops (ssl h)\<rparr>)"

definition init_ssl :: "'o openssl \<Rightarrow> 'o ssl_helper \<Rightarrow> 'o ssl_helper" where
  "init_ssl ops h = h\<lparr>ssl := library_init ops (ssl h)\<rparr>"

definition do_ssl_accept :: "'o openssl \<Rightarrow> 'o callbacks \<Rightarrow> 'o ssl_step" where
  "do_ssl_accept ops cb h =
     (let h = CreateServerSSLContext ops (init_ssl ops h)
      in SSLProcessingAccept ops cb (h\<lparr>ssl := SSL_set_state ops SERVER (ssl h)\<rparr>))"

definition do_ssl_connect :: "'o openssl \<Rightarrow> 'o callbacks \<Rightarrow> 'o ssl_step" where
  "do_ssl_connect ops cb h =
     (let h = CreateClientSSLContext ops (init_ssl ops h)
      in SSLProcessingConnect ops cb (h\<lparr>ssl := SSL_set_state ops CLIENT (ssl h)\<rparr>))"

definition SSL_onConnection :: "'o openssl \<Rightarrow> 'o callbacks \<Rightarrow> bool \<Rightarrow> 'o ssl_step" where
  "SSL_onConnection ops cb connected h =
     (if connected then
        (if m_type h = SERVER then do_ssl_accept ops cb h else do_ssl_connect ops cb h)
      else Some (Inr h))"

end
