(* ===== verification/SSL_Programs.thy ===== *)
theory SSL_Programs
  imports SSL_Helper
begin

text \<open>
  The two programs over the TLS layer, \<^verbatim>\<open>ssl_server.cpp\<close> and \<^verbatim>\<open>ssl_client.cpp\<close>: the server keeps a
  helper per connection and answers whatever arrives with a fixed page; the client asks for a page
  once its session is connected. The state of OpenSSL a helper starts from is \<open>o0\<close>. Console output
  and the socket option \<^verbatim>\<open>setTcpNoDelay\<close> are not modelled.
\<close>

section \<open>Texts\<close>

definition crlf :: string where
  "crlf = [CHR 0x0D, CHR 0x0A]"

text \<open>\<^verbatim>\<open>%ld\<close> of a length.\<close>

fun decimal :: "nat \<Rightarrow> string" where
  "decimal n = (if n < 10 then [char_of (48 + n)] else decimal (n div 10) @ [char_of (48 + n mod 10)])"

declare decimal.simps [simp del]

definition html :: string where
  "html = ''<h1>this message is from ssl server</h1>''"

definition http_response :: string where
  "http_response = ''HTTP/1.1 200 OK'' @ crlf @ ''Content-Length: '' @ decimal (length html) @ crlf
     @ ''Connection: keep-alive'' @ crlf @ crlf @ html"

definition http_request :: string where
  "http_request = ''GET / HTTP/1.1'' @ crlf @ ''Accept: */*'' @ crlf @ ''Accept-Encoding: identity'' @ crlf
     @ ''Accept-Language: zh-CN,zh;q=0.9,en;q=0.8'' @ crlf @ ''Host: '' @ ''localhost'' @ crlf
     @ ''Connection: Close'' @ crlf @ crlf"

section \<open>The server\<close>

record 'o ssl_server =
  m_connMap :: "conn \<Rightarrow> 'o ssl_helper option"

definition server_handledata :: "'o openssl \<Rightarrow> byte list \<Rightarrow> size_t \<Rightarrow> 'o ssl_step" where
  "server_handledata ops data datalen ssl_conn = SSLSendData ops (str_bytes http_response) ssl_conn"

definition server_callbacks :: "'o openssl \<Rightarrow> 'o callbacks" where
  "server_callbacks ops = set_receive_callback (server_handledata ops) no_callbacks"

definition onServerConnection ::
  "'o openssl \<Rightarrow> 'o \<Rightarrow> conn \<Rightarrow> bool \<Rightarrow> 'o ssl_server \<Rightarrow> 'o ssl_server run" where
  "onServerConnection ops o0 conn connected s =
     (if connected then
        run_then (SSL_onConnection ops (server_callbacks ops) connected
            (set_type SERVER (new_SSL_Helper CLIENT o0))) (\<lambda>h.
          Some (Inr (s\<lparr>m_connMap := (m_connMap s)(conn := Some h)\<rparr>)))
      else Some (Inr (s\<lparr>m_connMap := (m_connMap s)(conn := None)\<rparr>)))"

text \<open>\<^verbatim>\<open>m_connMap[conn]\<close> is a null pointer for a connection that is not in the map.\<close>

definition server_onMessage ::
  "'o openssl \<Rightarrow> conn \<Rightarrow> byte list \<Rightarrow> 'o ssl_server \<Rightarrow> 'o ssl_server run" where
  "server_onMessage ops conn buf s =
     run_then (deref (m_connMap s conn)) (\<lambda>h.
     run_then (SSL_onMessage ops (server_callbacks ops) buf h) (\<lambda>h.
       Some (Inr (s\<lparr>m_connMap := (m_connMap s)(conn := Some h)\<rparr>))))"

section \<open>The client\<close>

record 'o ssl_client =
  ssl_helper :: "'o ssl_helper option"

definition onSSLConnected :: "'o openssl \<Rightarrow> 'o ssl_step" where
  "onSSLConnected ops h = SSLSendData ops (str_bytes http_request) h"

definition client_handledata :: "byte list \<Rightarrow> size_t \<Rightarrow> 'o ssl_step" where
  "client_handledata data datalen ssl_conn = Some (Inr ssl_conn)"

definition client_callbacks :: "'o openssl \<Rightarrow> 'o callbacks" where
  "client_callbacks ops =
     set_receive_callback client_handledata (set_connected_callback (onSSLConnected ops) no_callbacks)"

definition onClientConnection ::
  "'o openssl \<Rightarrow> 'o \<Rightarrow> bool \<Rightarrow> 'o ssl_client \<Rightarrow> 'o ssl_client run" where
  "onClientConnection ops o0 connected s =
     (if connected then
        run_then (SSL_onConnection ops (client_callbacks ops) connected
            (set_type CLIENT (new_SSL_Helper CLIENT o0))) (\<lambda>h.
          Some (Inr (s\<lparr>ssl_helper := Some h\<rparr>)))
      else Some (Inr s))"

definition client_onMessage :: "'o openssl \<Rightarrow> byte list \<Rightarrow> 'o ssl_client \<Rightarrow> 'o ssl_client run" where
  "client_onMessage ops buf s =
     run_then (deref (ssl_helper s)) (\<lambda>h.
     run_then (SSL_onMessage ops (client_callbacks ops) buf h) (\<lambda>h. Some (Inr (s\<lparr>ssl_helper := Some h\<rparr>))))"

end
