(* ===== verification/SSL_Session.thy ===== *)
theory SSL_Session
  imports SSL_Programs
begin

text \<open>
  What the helper relies on in OpenSSL, as a locale over four readings of its state: the bytes that
  wait in the sending BIO, the decrypted bytes not yet read, whether the session is open in both
  directions, and the records that writing some data produces. The lemmas follow a helper through a
  flush, a send and the arrival of data.
\<close>

section \<open>The laws\<close>

text \<open>
  A memory BIO gives up to as many bytes as asked for, in order, and is never short of room. Reading
  from an open session that has decrypted bytes yields at least one of them and at most as many as
  asked for. A negative length is an error of the library.
\<close>

locale openssl_laws =
  fixes ops :: "'o openssl"
    and pending :: "'o \<Rightarrow> byte list"
    and plain :: "'o \<Rightarrow> byte list"
    and opened :: "'o \<Rightarrow> bool"
    and seal :: "'o \<Rightarrow> byte list \<Rightarrow> byte list"
  assumes pending_count: "BIO_pending_send ops x = length (pending x)"
    and drain: "0 < n \<Longrightarrow> pending x \<noteq> [] \<Longrightarrow>
      \<exists>x'. BIO_read_send ops n x = (int (min (nat n) (length (pending x))), take (nat n) (pending x), x')
        \<and> pending x' = drop (nat n) (pending x) \<and> plain x' = plain x \<and> (opened x \<longrightarrow> opened x')"
    and opened_init: "opened x \<Longrightarrow> SSL_is_init_finished ops x"
    and write_sealed: "opened x \<Longrightarrow> data \<noteq> [] \<Longrightarrow> length data < 2 ^ 31 \<Longrightarrow>
      \<exists>x'. SSL_write ops data (int (length data)) x = (int (length data), x')
        \<and> pending x' = pending x @ seal x data \<and> plain x' = plain x \<and> opened x'
        \<and> SSL_get_error ops (int (length data)) x' = SSL_ERROR_NONE"
    and read_some: "opened x \<Longrightarrow> 0 < n \<Longrightarrow> plain x \<noteq> [] \<Longrightarrow>
      \<exists>k x'. SSL_read ops n x = (int k, take k (plain x), x') \<and> 0 < k \<and> k \<le> nat n \<and> k \<le> length (plain x)
        \<and> pending x' = pending x \<and> plain x' = drop k (plain x) \<and> opened x'"
    and read_negative: "n < 0 \<Longrightarrow>
      \<exists>x'. SSL_read ops n x = (-1, [], x') \<and> SSL_get_error ops (-1) x' = SSL_ERROR_SSL
        \<and> pending x' = pending x"

section \<open>Sizes\<close>

lemma int_of_size_small: "n < 2 ^ 31 \<Longrightarrow> int_of_size (of_nat n) = int n"
  by (simp add: int_of_size_def unsigned_of_nat take_bit_nat_eq_self sint_of_nat_small)

text \<open>After the first data the room left is negative as an \<^verbatim>\<open>int\<close>.\<close>

lemma int_of_size_minus:
  assumes "0 < k" "k < 2 ^ 31" shows "int_of_size (0 - of_nat k) = - int k" "(0 :: size_t) < 0 - of_nat k"
proof -
  have "(0 - of_nat k :: size_t) = word_of_int (- int k)" by simp
  then have "int_of_size (0 - of_nat k) = sint (word_of_int (take_bit 64 (- int k)) :: int32)"
    by (simp only: int_of_size_def unsigned_of_int) simp
  also have "\<dots> = signed_take_bit 31 (- int k)"
    by (simp add: sint_sbintrunc' signed_take_bit_take_bit)
  finally have "int_of_size (0 - of_nat k) = signed_take_bit 31 (- int k)" .
  then show "int_of_size (0 - of_nat k) = - int k"
    using assms by (simp add: signed_take_bit_int_eq_self)
  have "(of_nat k :: size_t) \<noteq> 0"
    using assms by (simp add: word_of_nat_eq_0_iff nat_dvd_not_less)
  then show "(0 :: size_t) < 0 - of_nat k" by (simp add: word_neq_0_conv [symmetric])
qed

section \<open>Flushing\<close>

text \<open>The sending buffer keeps the size the constructor gives it.\<close>

definition buffer_size :: nat where
  "buffer_size = 1024 * 10"

function chunks :: "byte list \<Rightarrow> byte list list" where
  "chunks [] = []"
| "chunks (b # bs) = take buffer_size (b # bs) # chunks (drop buffer_size (b # bs))"
  by pat_completeness auto
termination by (relation "measure length") (simp_all add: buffer_size_def)

lemma chunks_concat: "concat (chunks bs) = bs"
  by (induction bs rule: chunks.induct) simp_all

lemma chunks_size: "c \<in> set (chunks bs) \<Longrightarrow> c \<noteq> [] \<and> length c \<le> buffer_size"
  by (induction bs rule: chunks.induct) (auto simp: buffer_size_def)

lemma chunks_step: "bs \<noteq> [] \<Longrightarrow> chunks bs = take buffer_size bs # chunks (drop buffer_size bs)"
  by (cases bs) simp_all

lemma take_min_length: "take (min n (length xs)) xs = take n xs"
  by (simp add: min_def)

context openssl_laws
begin

lemma flush:
  assumes "m_EncryptedSendData_size h = of_nat buffer_size"
  shows "\<exists>x. SSLProcessingSend ops h =
       Some (Inr (h\<lparr>ssl := x, on_conn := on_conn h @ map ConnSend (chunks (pending (ssl h)))\<rparr>))
     \<and> pending x = [] \<and> plain x = plain (ssl h) \<and> (opened (ssl h) \<longrightarrow> opened x)"
  using assms
proof (induction "length (pending (ssl h))" arbitrary: h rule: less_induct)
  case less
  show ?case
  proof (cases "pending (ssl h) = []")
    case True
    then show ?thesis
      by (intro exI [of _ "ssl h"]) (simp add: SSLProcessingSend.simps pending_count)
  next
    case False
    have n: "int_of_size (m_EncryptedSendData_size h) = int buffer_size"
      using int_of_size_small [of buffer_size] less.prems by (simp add: buffer_size_def)
    have "(0 :: int) < int buffer_size" by (simp add: buffer_size_def)
    from drain [OF this False] obtain x where
      x: "BIO_read_send ops (int buffer_size) (ssl h) =
            (int (min buffer_size (length (pending (ssl h)))), take buffer_size (pending (ssl h)), x)"
        "pending x = drop buffer_size (pending (ssl h))" "plain x = plain (ssl h)"
        "opened (ssl h) \<longrightarrow> opened x" by auto
    let ?h = "h\<lparr>ssl := x, on_conn := on_conn h @ [ConnSend (take buffer_size (pending (ssl h)))]\<rparr>"
    have "SSLProcessingSend ops h = SSLProcessingSend ops ?h"
      using False n x(1) by (subst SSLProcessingSend.simps) (simp add: pending_count buffer_size_def take_min_length)
    moreover have "length (pending (ssl ?h)) < length (pending (ssl h))"
      using False x(2) by (simp add: buffer_size_def)
    ultimately show ?thesis using less.hyps [of ?h] less.prems x(2-4) chunks_step [OF False] by auto
  qed
qed

lemma send_data:
  assumes "m_EncryptedSendData_size h = of_nat buffer_size" and "opened (ssl h)"
    and "data \<noteq> []" and "length data < 2 ^ 31"
  shows "\<exists>x. SSLSendData ops data h =
       Some (Inr (h\<lparr>ssl := x, on_conn := on_conn h
         @ map ConnSend (chunks (pending (ssl h) @ seal (ssl h) data))\<rparr>))
     \<and> pending x = [] \<and> plain x = plain (ssl h) \<and> opened x"
proof -
  from write_sealed [OF assms(2-4)] obtain x where
    x: "SSL_write ops data (int (length data)) (ssl h) = (int (length data), x)"
      "pending x = pending (ssl h) @ seal (ssl h) data" "plain x = plain (ssl h)" "opened x"
      "SSL_get_error ops (int (length data)) x = SSL_ERROR_NONE" by blast
  then have "SSLSendData ops data h = SSLProcessingSend ops (h\<lparr>ssl := x\<rparr>)"
    using int_of_size_small [OF assms(4)] by (simp add: SSLSendData_def close_on_error_def)
  then show ?thesis using flush [of "h\<lparr>ssl := x\<rparr>"] assms(1) x(2-4) by auto
qed

end

section \<open>The first data\<close>

text \<open>A helper after the handshake, before any data: its buffers are as the constructor made them.\<close>

definition ready :: "'o ssl_helper \<Rightarrow> bool" where
  "ready h \<longleftrightarrow> m_Handshaked h \<and> m_DecryptedRecvData_size h = of_nat buffer_size
     \<and> length (m_DecryptedRecvData h) = buffer_size \<and> m_EncryptedSendData_size h = of_nat buffer_size
     \<and> m_CurrRecived h = 0 \<and> m_BytesSizeRecieved h = 0"

text \<open>The bytes \<open>bs\<close> at the start of the buffer, whose rest stays as it was.\<close>

definition received_first :: "byte list \<Rightarrow> 'o \<Rightarrow> 'o ssl_helper \<Rightarrow> 'o ssl_helper" where
  "received_first bs x h = h\<lparr>ssl := x,
     m_DecryptedRecvData := bs @ drop (length bs) (m_DecryptedRecvData h),
     m_CurrRecived := of_nat (length bs), m_TotalRecived := m_TotalRecived h + of_nat (length bs)\<rparr>"

text \<open>The helper before the end of the handshake, with the same buffers.\<close>

definition shaking :: "'o ssl_helper \<Rightarrow> bool" where
  "shaking h \<longleftrightarrow> \<not> m_Handshaked h \<and> ready (h\<lparr>m_Handshaked := True\<rparr>)"

lemma received_first_simps [simp]:
  "ssl (received_first bs x h) = x" "on_conn (received_first bs x h) = on_conn h"
  "m_EncryptedSendData_size (received_first bs x h) = m_EncryptedSendData_size h"
  "m_CurrRecived (received_first bs x h) = of_nat (length bs)"
  "(received_first bs x h)\<lparr>ssl := y, on_conn := es\<rparr> = (received_first bs y h)\<lparr>on_conn := es\<rparr>"
  by (cases h; simp add: received_first_def)+

lemma feed_bio_all:
  assumes "ready h \<or> shaking h" and "buf \<noteq> []" and "length buf < 2 ^ 31"
    and "BIO_write_recv ops buf (int (length buf)) (ssl h) = (int (length buf), x)"
  shows "feed_bio ops buf h = h\<lparr>ssl := x\<rparr>"
proof -
  have "(of_nat (length buf) :: size_t) \<noteq> 0"
    using assms(2,3) by (simp add: word_of_nat_eq_0_iff nat_dvd_not_less)
  then show ?thesis
    using assms int_of_size_small [OF assms(3)]
    by (auto simp: feed_bio_def ready_def shaking_def Let_def word_neq_0_conv [symmetric])
qed

context openssl_laws
begin

lemma second_read:
  assumes "m_DecryptedRecvData_size h = 0" and "m_CurrRecived h = of_nat k" and "0 < k" and "k < 2 ^ 31"
  shows "\<exists>x. recv_loop ops cb collect d h =
       Some (Inr (d, h\<lparr>ssl := x, on_conn := on_conn h @ [ForceClose]\<rparr>)) \<and> pending x = pending (ssl h)"
proof -
  have "- int k < 0" using assms(3) by simp
  from read_negative [OF this] obtain x where
    "SSL_read ops (- int k) (ssl h) = (-1, [], x)" "SSL_get_error ops (-1) x = SSL_ERROR_SSL"
    "pending x = pending (ssl h)" by blast
  then show ?thesis
    using assms(1,2) int_of_size_minus [OF assms(3,4)]
    by (intro exI [of _ x], subst recv_loop.simps)
      (simp add: written_at_def close_on_error_def close_session_def)
qed

lemma first_data:
  assumes "ready h" and "buf \<noteq> []" and "length buf < 2 ^ 31"
    and "BIO_write_recv ops buf (int (length buf)) (ssl h) = (int (length buf), x1)"
    and "SSL_read ops (int buffer_size) x1 = (int (length bs), bs, x2)"
    and "bs \<noteq> []" and "length bs \<le> buffer_size"
    and "m_SSL_receive_callback cb = Some f"
    and "f (bs @ drop (length bs) (m_DecryptedRecvData h)) (of_nat buffer_size) (received_first bs x2 h)
       = Some (Inr ((received_first bs x3 h)\<lparr>on_conn := on_conn h @ es\<rparr>))"
    and "pending x3 = []"
  shows "\<exists>x4. SSL_onMessage ops cb buf h = Some (Inr ((received_first bs x4 h)\<lparr>
     on_conn := on_conn h @ es @ [ForceClose], m_DecryptedRecvData_size := 0\<rparr>))"
proof -
  let ?h3 = "(received_first bs x3 h)\<lparr>on_conn := on_conn h @ es, m_DecryptedRecvData_size := 0\<rparr>"
  let ?c = "\<lambda>x. (received_first bs x h)\<lparr>on_conn := on_conn h @ es @ [ForceClose], m_DecryptedRecvData_size := 0\<rparr>"
  have norm: "?h3\<lparr>ssl := x, on_conn := on_conn ?h3 @ [ForceClose]\<rparr> = ?c x" for x
    by (cases h) (simp add: received_first_def)
  have n: "int_of_size (of_nat buffer_size) = int buffer_size"
    by (rule int_of_size_small) (simp add: buffer_size_def)
  have "recv_loop ops cb False [] (h\<lparr>ssl := x1\<rparr>) = recv_loop ops cb False [] ?h3"
    using assms(1,5-9) n
    by (subst recv_loop.simps)
      (simp add: ready_def written_at_def SSLReceiveData_def received_first_def buffer_size_def)
  moreover have "0 < length bs" "length bs < 2 ^ 31" using assms(6,7) by (auto simp: buffer_size_def)
  then obtain x where "recv_loop ops cb False [] ?h3 =
      Some (Inr ([], ?h3\<lparr>ssl := x, on_conn := on_conn ?h3 @ [ForceClose]\<rparr>))" "pending x = pending x3"
    using second_read [of ?h3 "length bs" cb False "[]"] by (auto simp: received_first_def)
  ultimately have recv: "recv_loop ops cb False [] (feed_bio ops buf h) = Some (Inr ([], ?c x))"
    using norm [of x] by (simp add: feed_bio_all [OF disjI1 [OF assms(1)] assms(2-4)] received_first_def)
  have "SSLProcessingSend ops (?c x) = Some (Inr (?c x4)) \<longleftrightarrow>
      SSLProcessingSend ops (?c x) = Some (Inr ((?c x)\<lparr>ssl := x4,
        on_conn := on_conn (?c x) @ map ConnSend (chunks (pending (ssl (?c x))))\<rparr>))" for x4
    using \<open>pending x = _\<close> assms(10) norm [of x4] by (cases h) (simp add: received_first_def)
  then obtain x4 where "SSLProcessingSend ops (?c x) = Some (Inr (?c x4))"
    using flush [of "?c x"] assms(1) by (auto simp: ready_def received_first_def)
  then show ?thesis
    using recv assms(1)
    by (intro exI [of _ x4]) (simp add: SSL_onMessage_def SSLProcessingRecv_def finish_handshake_def
        ready_def received_first_def)
qed

end

section \<open>The end of the handshake\<close>

context openssl_laws
begin

text \<open>
  The bytes of a message complete the handshake and carry no data: the helper is ready afterwards,
  the connected callback has run once, and what it left in the BIO has gone out.
\<close>

lemma handshake_ends:
  assumes "shaking h" and "buf \<noteq> []" and "length buf < 2 ^ 31"
    and "BIO_write_recv ops buf (int (length buf)) (ssl h) = (int (length buf), x1)"
    and "SSL_read ops (int buffer_size) x1 = (ret, [], x2)" and "ret \<le> 0"
    and "\<not> IsSSLError (SSL_get_error ops ret x2)" and "SSL_is_init_finished ops x2"
    and "SSLConnected cb (h\<lparr>ssl := x2, m_Handshaked := True\<rparr>) =
      Some (Inr (h\<lparr>m_Handshaked := True, ssl := x3, on_conn := on_conn h @ es\<rparr>))"
  shows "\<exists>x4. SSL_onMessage ops cb buf h = Some (Inr (h\<lparr>m_Handshaked := True, ssl := x4,
       on_conn := on_conn h @ es @ map ConnSend (chunks (pending x3))\<rparr>))
     \<and> ready (h\<lparr>m_Handshaked := True, ssl := x4,
         on_conn := on_conn h @ es @ map ConnSend (chunks (pending x3))\<rparr>)
     \<and> pending x4 = [] \<and> plain x4 = plain x3 \<and> (opened x3 \<longrightarrow> opened x4)"
proof -
  let ?h = "h\<lparr>m_Handshaked := True, ssl := x3, on_conn := on_conn h @ es\<rparr>"
  have n: "int_of_size (of_nat buffer_size) = int buffer_size"
    by (rule int_of_size_small) (simp add: buffer_size_def)
  have "recv_loop ops cb False [] (h\<lparr>ssl := x1\<rparr>) = Some (Inr ([], h\<lparr>ssl := x2\<rparr>))"
    using assms(1,5-7) n
    by (subst recv_loop.simps)
      (simp add: shaking_def ready_def written_at_def close_on_error_def buffer_size_def)
  then have "SSL_onMessage ops cb buf h = SSLProcessingSend ops ?h"
    using assms(1,8,9)
    by (simp add: SSL_onMessage_def SSLProcessingRecv_def feed_bio_all [OF disjI2 [OF assms(1)] assms(2-4)]
        finish_handshake_def shaking_def)
  moreover from assms(1) flush [of ?h] obtain x4 where "SSLProcessingSend ops ?h =
      Some (Inr (?h\<lparr>ssl := x4, on_conn := on_conn ?h @ map ConnSend (chunks (pending x3))\<rparr>))"
    "pending x4 = []" "plain x4 = plain x3" "opened x3 \<longrightarrow> opened x4"
    by (auto simp: shaking_def ready_def)
  moreover have "?h\<lparr>ssl := x4, on_conn := on_conn ?h @ map ConnSend (chunks (pending x3))\<rparr> =
      h\<lparr>m_Handshaked := True, ssl := x4, on_conn := on_conn h @ es @ map ConnSend (chunks (pending x3))\<rparr>"
    by simp
  ultimately show ?thesis using assms(1) by (intro exI [of _ x4]) (simp add: shaking_def ready_def)
qed

end

end
