(* ===== verification/SSL_Properties.thy ===== *)
theory SSL_Properties
  imports SSL_Session
begin

text \<open>
  An OpenSSL to evaluate with, and the properties of the TLS layer. The instance speaks a null
  cipher: either side sends one byte 22 to shake hands and the data follow as they are.
\<close>

section \<open>A null cipher\<close>

record mem_ssl =
  t_recv :: "byte list"
  t_send :: "byte list"
  t_greeted :: bool
  t_opened :: bool
  t_error :: bool

definition mem_ssl_new :: mem_ssl where
  "mem_ssl_new = \<lparr>t_recv = [], t_send = [], t_greeted = False, t_opened = False, t_error = False\<rparr>"

definition mem_handshake :: "mem_ssl \<Rightarrow> mem_ssl" where
  "mem_handshake x =
     (if t_opened x then x
      else (let x = (if t_greeted x then x else x\<lparr>t_send := t_send x @ [22], t_greeted := True\<rparr>)
        in case t_recv x of
             [] \<Rightarrow> x
           | b # bs \<Rightarrow> (if b = 22 then x\<lparr>t_recv := bs, t_opened := True\<rparr> else x\<lparr>t_error := True\<rparr>)))"

definition mem_read :: "int \<Rightarrow> mem_ssl \<Rightarrow> int \<times> byte list \<times> mem_ssl" where
  "mem_read n x =
     (if n < 0 then (-1, [], x\<lparr>t_error := True\<rparr>)
      else (let x = mem_handshake x; bs = take (nat n) (t_recv x) in
        if t_opened x \<and> bs \<noteq> [] then (int (length bs), bs, x\<lparr>t_recv := drop (nat n) (t_recv x)\<rparr>)
        else (-1, [], x)))"

definition mem_openssl :: "mem_ssl openssl" where
  "mem_openssl = \<lparr>
     library_init = (\<lambda>x. x), SSL_CTX_new = (\<lambda>_ x. x), SSL_CTX_set_verify_none = (\<lambda>x. x),
     SSL_CTX_use_certificate = (\<lambda>x. (1, x)), SSL_CTX_use_PrivateKey = (\<lambda>x. (1, x)),
     SSL_new_with_bios = (\<lambda>_. mem_ssl_new), SSL_set_state = (\<lambda>_ x. x),
     SSL_read = mem_read,
     SSL_write = (\<lambda>data n x. if t_opened x then (n, x\<lparr>t_send := t_send x @ data\<rparr>) else (-1, x)),
     SSL_get_error = (\<lambda>ret x. if 0 < ret then SSL_ERROR_NONE
        else if t_error x then SSL_ERROR_SSL else SSL_ERROR_WANT_READ),
     SSL_is_init_finished = t_opened,
     BIO_pending_send = (\<lambda>x. length (t_send x)),
     BIO_read_send = (\<lambda>n x. (int (min (nat n) (length (t_send x))), take (nat n) (t_send x),
        x\<lparr>t_send := drop (nat n) (t_send x)\<rparr>)),
     BIO_write_recv = (\<lambda>bs n x. (n, x\<lparr>t_recv := t_recv x @ bs\<rparr>))\<rparr>"

interpretation null_cipher: openssl_laws mem_openssl t_send t_recv t_opened "\<lambda>_ data. data"
proof
  show "\<exists>k x'. SSL_read mem_openssl n x = (int k, take k (t_recv x), x') \<and> 0 < k \<and> k \<le> nat n
      \<and> k \<le> length (t_recv x) \<and> t_send x' = t_send x \<and> t_recv x' = drop k (t_recv x) \<and> t_opened x'"
    if "t_opened x" "0 < n" "t_recv x \<noteq> []" for n x
    using that
    by (intro exI [of _ "min (nat n) (length (t_recv x))"]
        exI [of _ "x\<lparr>t_recv := drop (nat n) (t_recv x)\<rparr>"])
      (simp add: mem_openssl_def mem_read_def mem_handshake_def take_min_length min_def)
  show "\<exists>x'. SSL_read mem_openssl n x = (-1, [], x') \<and> SSL_get_error mem_openssl (-1) x' = SSL_ERROR_SSL
      \<and> t_send x' = t_send x" if "n < 0" for n x
    using that by (simp add: mem_openssl_def mem_read_def)
qed (simp_all add: mem_openssl_def)

section \<open>Properties\<close>

text \<open>
  C38: flushing ends and sends everything. Whatever number of bytes waits in the sending BIO, the
  loop returns; the bytes have gone out on the connection in order, in pieces that are not empty and
  fit the buffer, and none is left.
\<close>

theorem flush_sends_all:
  assumes "openssl_laws ops pending plain opened seal"
    and "m_EncryptedSendData_size h = of_nat buffer_size"
  shows "\<exists>h' cs. SSLProcessingSend ops h = Some (Inr h') \<and> on_conn h' = on_conn h @ map ConnSend cs
     \<and> concat cs = pending (ssl h) \<and> (\<forall>c \<in> set cs. c \<noteq> [] \<and> length c \<le> buffer_size)
     \<and> pending (ssl h') = []"
  using openssl_laws.flush [OF assms] chunks_concat chunks_size by fastforce

theorem flush_sends_all_witness:
  "\<exists>h'. SSLProcessingSend mem_openssl (new_SSL_Helper CLIENT (mem_ssl_new\<lparr>t_send := replicate 20000 7\<rparr>))
       = Some (Inr h')
     \<and> length (on_conn h') \<ge> 2 \<and> t_send (ssl h') = []"
proof -
  let ?h = "new_SSL_Helper CLIENT (mem_ssl_new\<lparr>t_send := replicate 20000 7\<rparr>)"
  have "m_EncryptedSendData_size ?h = of_nat buffer_size" "on_conn ?h = []"
    by (simp_all add: new_SSL_Helper_def buffer_size_def)
  with flush_sends_all [OF null_cipher.openssl_laws_axioms, of ?h] obtain h' cs where
    h': "SSLProcessingSend mem_openssl ?h = Some (Inr h')" "on_conn h' = map ConnSend cs"
      "concat cs = replicate 20000 (7 :: byte)" "\<forall>c \<in> set cs. length c \<le> 10240" "t_send (ssl h') = []"
    by (auto simp: new_SSL_Helper_def buffer_size_def)
  have "length (concat cs) \<le> length cs * 10240" using h'(4) by (induction cs) auto
  then have "2 \<le> length cs" by (simp add: h'(3))
  then show ?thesis using h'(1,2,5) by simp
qed

text \<open>
  C39: the server answers the first data of a session and closes it. However few bytes arrive once
  the handshake is over, the page is sealed and sent behind what was waiting, and then the connection
  is closed by force: the buffer's size was made 0 while the count of received bytes stayed, so that
  the next read asks for a negative length.
\<close>

theorem first_data_closes_session:
  assumes "openssl_laws ops pending plain opened seal"
    and "m_connMap s c = Some h" and "ready h"
    and "buf \<noteq> []" and "length buf < 2 ^ 31"
    and "BIO_write_recv ops buf (int (length buf)) (ssl h) = (int (length buf), x)"
    and "opened x" and "plain x \<noteq> []"
  shows "\<exists>n bs x' h'. SSL_read ops (int buffer_size) x = (n, bs, x')
     \<and> server_onMessage ops c buf s = Some (Inr (s\<lparr>m_connMap := (m_connMap s)(c := Some h')\<rparr>))
     \<and> on_conn h' = on_conn h
         @ map ConnSend (chunks (pending x @ seal x' (str_bytes http_response))) @ [ForceClose]
     \<and> m_DecryptedRecvData_size h' = 0 \<and> m_CurrRecived h' = of_nat (length bs) \<and> bs \<noteq> []"
proof -
  have "0 < int buffer_size" by (simp add: buffer_size_def)
  from openssl_laws.read_some [OF assms(1,7) this assms(8)] obtain k x' where
    x': "SSL_read ops (int buffer_size) x = (int k, take k (plain x), x')" "0 < k" "k \<le> buffer_size"
      "k \<le> length (plain x)" "pending x' = pending x" "opened x'" by auto
  let ?bs = "take k (plain x)" and ?page = "str_bytes http_response"
  have bs: "length ?bs = k" "?bs \<noteq> []" using x'(2,4) assms(8) by auto
  have page: "?page \<noteq> []" "length ?page < 2 ^ 31"
    by (simp_all add: http_response_def html_def crlf_def str_bytes_def decimal.simps)
  from openssl_laws.send_data [OF assms(1) _ _ page, of "received_first ?bs x' h"] obtain x3 where
    sent: "server_handledata ops d n (received_first ?bs x' h) = Some (Inr ((received_first ?bs x3 h)\<lparr>
       on_conn := on_conn h @ map ConnSend (chunks (pending x @ seal x' ?page))\<rparr>))"
    "pending x3 = []" for d n
    using assms(3) x'(5,6) by (auto simp: server_handledata_def ready_def)
  have "\<exists>x4. SSL_onMessage ops (server_callbacks ops) buf h =
      Some (Inr ((received_first ?bs x4 h)\<lparr>on_conn := on_conn h
        @ map ConnSend (chunks (pending x @ seal x' ?page)) @ [ForceClose], m_DecryptedRecvData_size := 0\<rparr>))"
  proof (rule openssl_laws.first_data [OF assms(1,3-6)])
    show "m_SSL_receive_callback (server_callbacks ops) = Some (server_handledata ops)"
      by (simp add: server_callbacks_def callback_defs)
  qed (use x'(1,3) bs sent in simp_all)
  then show ?thesis using x'(1) bs assms(2) by (auto simp: server_onMessage_def)
qed

text \<open>A connection comes up, and the client's byte 22 ends the handshake.\<close>

definition sample_session :: "mem_ssl ssl_server run" where
  "sample_session =
     run_then (onServerConnection mem_openssl mem_ssl_new (Conn 1 1) True \<lparr>m_connMap = \<lambda>_. None\<rparr>)
       (server_onMessage mem_openssl (Conn 1 1) [22])"

lemmas mem_ssl_defs = mem_ssl_new_def mem_openssl_def mem_read_def mem_handshake_def

lemma greets_once:
  "handshake_loop mem_openssl (new_SSL_Helper SERVER mem_ssl_new) =
     Some (Inr (new_SSL_Helper SERVER (mem_ssl_new\<lparr>t_send := [22], t_greeted := True\<rparr>)))"
  by (subst handshake_loop.simps)
    (simp add: new_SSL_Helper_def mem_ssl_defs
      written_at_def close_on_error_def int_of_size_small [of 10240, simplified])

lemma sends_greeting:
  "SSLProcessingSend mem_openssl (new_SSL_Helper SERVER (mem_ssl_new\<lparr>t_send := [22], t_greeted := True\<rparr>)) =
     Some (Inr ((new_SSL_Helper SERVER (mem_ssl_new\<lparr>t_greeted := True\<rparr>))\<lparr>on_conn := [ConnSend [22]]\<rparr>))"
  by (subst SSLProcessingSend.simps, subst SSLProcessingSend.simps)
    (simp add: new_SSL_Helper_def mem_ssl_defs int_of_size_small [of 10240, simplified])

lemma accepts:
  "do_ssl_accept mem_openssl cb (new_SSL_Helper SERVER mem_ssl_new) =
     Some (Inr ((new_SSL_Helper SERVER (mem_ssl_new\<lparr>t_greeted := True\<rparr>))\<lparr>on_conn := [ConnSend [22]]\<rparr>))"
proof -
  have "(new_SSL_Helper SERVER mem_ssl_new)\<lparr>ssl := mem_ssl_new\<rparr> = new_SSL_Helper SERVER mem_ssl_new"
    by (simp add: new_SSL_Helper_def)
  then have "do_ssl_accept mem_openssl cb (new_SSL_Helper SERVER mem_ssl_new) =
      SSLProcessingAccept mem_openssl cb (new_SSL_Helper SERVER mem_ssl_new)"
    by (simp add: do_ssl_accept_def CreateServerSSLContext_def SetSSLCertificate_def init_ssl_def
        mem_openssl_def new_SSL_Helper_def)
  also have "\<dots> = SSLProcessingSend mem_openssl
      (new_SSL_Helper SERVER (mem_ssl_new\<lparr>t_send := [22], t_greeted := True\<rparr>))"
    by (simp add: SSLProcessingAccept_def greets_once)
      (simp add: mem_openssl_def mem_ssl_new_def new_SSL_Helper_def)
  finally show ?thesis by (simp add: sends_greeting)
qed

lemma sample_session_ready:
  "\<exists>s h. sample_session = Some (Inr s) \<and> m_connMap s (Conn 1 1) = Some h \<and> ready h
     \<and> on_conn h = [ConnSend [22]] \<and> t_opened (ssl h) \<and> t_recv (ssl h) = [] \<and> t_send (ssl h) = []"
proof -
  let ?h = "(new_SSL_Helper SERVER (mem_ssl_new\<lparr>t_greeted := True\<rparr>))\<lparr>on_conn := [ConnSend [22]]\<rparr>"
  let ?w = "mem_ssl_new\<lparr>t_greeted := True, t_recv := [22]\<rparr>"
    and ?o = "mem_ssl_new\<lparr>t_greeted := True, t_opened := True\<rparr>" and ?cb = "server_callbacks mem_openssl"
  have "shaking ?h" by (simp add: shaking_def ready_def new_SSL_Helper_def buffer_size_def)
  moreover have "BIO_write_recv mem_openssl [22] (int (length [22 :: byte])) (ssl ?h) = (int (length [22 :: byte]), ?w)"
    by (simp add: new_SSL_Helper_def mem_ssl_defs)
  moreover have "SSL_read mem_openssl (int buffer_size) ?w = (-1, [], ?o)"
    "\<not> IsSSLError (SSL_get_error mem_openssl (-1) ?o)" "SSL_is_init_finished mem_openssl ?o"
    by (simp_all add: mem_ssl_defs buffer_size_def)
  moreover have "SSLConnected ?cb (?h\<lparr>ssl := ?o, m_Handshaked := True\<rparr>) =
      Some (Inr (?h\<lparr>m_Handshaked := True, ssl := ?o, on_conn := on_conn ?h @ []\<rparr>))"
    by (simp add: SSLConnected_def server_callbacks_def callback_defs)
  ultimately obtain x where "SSL_onMessage mem_openssl ?cb [22] ?h =
      Some (Inr (?h\<lparr>m_Handshaked := True, ssl := x, on_conn := [ConnSend [22]]\<rparr>))"
    "ready (?h\<lparr>m_Handshaked := True, ssl := x, on_conn := [ConnSend [22]]\<rparr>)"
    "t_send x = []" "t_recv x = []" "t_opened x"
    using null_cipher.handshake_ends [where h = ?h and buf = "[22]" and ?x1.0 = ?w and ret = "-1"
        and ?x2.0 = ?o and cb = ?cb and ?x3.0 = ?o and es = "[]"]
    by (auto simp: mem_ssl_new_def)
  moreover have "m_type (new_SSL_Helper SERVER mem_ssl_new) = SERVER" by (simp add: new_SSL_Helper_def)
  ultimately show ?thesis
    by (simp add: sample_session_def onServerConnection_def SSL_onConnection_def accepts server_onMessage_def)
qed

theorem first_data_closes_session_witness:
  "\<exists>s s' h'. sample_session = Some (Inr s) \<and> server_onMessage mem_openssl (Conn 1 1) [71] s = Some (Inr s')
     \<and> m_connMap s' (Conn 1 1) = Some h'
     \<and> on_conn h' = [ConnSend [22], ConnSend (str_bytes http_response), ForceClose]
     \<and> m_CurrRecived h' = 1"
proof -
  from sample_session_ready obtain s h where
    s: "sample_session = Some (Inr s)" "m_connMap s (Conn 1 1) = Some h" "ready h"
      "on_conn h = [ConnSend [22]]" "t_opened (ssl h)" "t_recv (ssl h) = []" "t_send (ssl h) = []" by blast
  let ?x = "(ssl h)\<lparr>t_recv := [71]\<rparr>"
  have w: "BIO_write_recv mem_openssl [71] (int (length [71 :: byte])) (ssl h) = (int (length [71 :: byte]), ?x)"
    using s(6) by (simp add: mem_openssl_def)
  have r: "SSL_read mem_openssl (int buffer_size) ?x = (1, [71], ?x\<lparr>t_recv := []\<rparr>)"
    using s(5) by (simp add: mem_openssl_def mem_read_def mem_handshake_def buffer_size_def)
  have "chunks (str_bytes http_response) = [str_bytes http_response]"
    by (simp add: http_response_def html_def crlf_def str_bytes_def decimal.simps buffer_size_def)
  then show ?thesis
    using first_data_closes_session [OF null_cipher.openssl_laws_axioms s(2,3) _ _ w] s r by fastforce
qed

text \<open>
  C40: the client asks for its page when the handshake ends. The message that completes the handshake
  makes the client seal its request and send it, once, behind what the handshake left to send, and
  the helper is then ready for the answer.
\<close>

theorem handshake_sends_request:
  assumes "openssl_laws ops pending plain opened seal"
    and "ssl_helper s = Some h" and "shaking h"
    and "buf \<noteq> []" and "length buf < 2 ^ 31"
    and "BIO_write_recv ops buf (int (length buf)) (ssl h) = (int (length buf), x)"
    and "SSL_read ops (int buffer_size) x = (ret, [], x')" and "ret \<le> 0"
    and "\<not> IsSSLError (SSL_get_error ops ret x')" and "opened x'"
  shows "\<exists>h'. client_onMessage ops buf s = Some (Inr (s\<lparr>ssl_helper := Some h'\<rparr>)) \<and> ready h'
     \<and> on_conn h' = on_conn h @ map ConnSend (chunks (pending x' @ seal x' (str_bytes http_request)))"
proof -
  let ?req = "str_bytes http_request" and ?h = "h\<lparr>ssl := x', m_Handshaked := True\<rparr>"
  have req: "?req \<noteq> []" "length ?req < 2 ^ 31"
    by (simp_all add: http_request_def crlf_def str_bytes_def)
  from openssl_laws.send_data [OF assms(1) _ _ req, of ?h] obtain x3 where
    "SSLSendData ops ?req ?h = Some (Inr (?h\<lparr>ssl := x3,
       on_conn := on_conn h @ map ConnSend (chunks (pending x' @ seal x' ?req))\<rparr>))" "pending x3 = []"
    using assms(3,10) by (auto simp: shaking_def ready_def)
  then have "SSLConnected (client_callbacks ops) ?h = Some (Inr (h\<lparr>m_Handshaked := True, ssl := x3,
      on_conn := on_conn h @ map ConnSend (chunks (pending x' @ seal x' ?req))\<rparr>))" and x3: "pending x3 = []"
    by (simp_all add: SSLConnected_def client_callbacks_def callback_defs onSSLConnected_def)
  from openssl_laws.handshake_ends [OF assms(1,3-9) openssl_laws.opened_init [OF assms(1,10)] this(1)] x3
  show ?thesis using assms(2) by (auto simp: client_onMessage_def)
qed

theorem handshake_sends_request_witness:
  "\<exists>h'. client_onMessage mem_openssl [22]
       \<lparr>ssl_helper = Some (new_SSL_Helper CLIENT (mem_ssl_new\<lparr>t_greeted := True\<rparr>))\<rparr>
       = Some (Inr \<lparr>ssl_helper = Some h'\<rparr>)
     \<and> on_conn h' = [ConnSend (str_bytes http_request)]"
proof -
  let ?h = "new_SSL_Helper CLIENT (mem_ssl_new\<lparr>t_greeted := True\<rparr>)"
  let ?w = "mem_ssl_new\<lparr>t_greeted := True, t_recv := [22]\<rparr>"
    and ?o = "mem_ssl_new\<lparr>t_greeted := True, t_opened := True\<rparr>"
  have h: "shaking ?h" "on_conn ?h = []"
    by (simp_all add: shaking_def ready_def new_SSL_Helper_def buffer_size_def)
  have w: "BIO_write_recv mem_openssl [22] (int (length [22 :: byte])) (ssl ?h) = (int (length [22 :: byte]), ?w)"
    by (simp add: new_SSL_Helper_def mem_ssl_defs)
  have r: "SSL_read mem_openssl (int buffer_size) ?w = (-1, [], ?o)"
    "\<not> IsSSLError (SSL_get_error mem_openssl (-1) ?o)" "t_opened ?o" "t_send ?o = []"
    by (simp_all add: mem_ssl_defs buffer_size_def)
  have "chunks (str_bytes http_request) = [str_bytes http_request]"
    by (simp add: http_request_def crlf_def str_bytes_def buffer_size_def)
  then show ?thesis
    using handshake_sends_request [OF null_cipher.openssl_laws_axioms _ h(1) _ _ w r(1) _ r(2,3),
        of "\<lparr>ssl_helper = Some ?h\<rparr>", unfolded r(4) h(2)] by auto
qed

end
