(* ===== verification/Server_Messages.thy ===== *)
theory Server_Messages
  imports Server_Groups
begin

text \<open>
  Text messages: a message is published on the channel of its target, for a group on the channel of
  each member, through the instances in turn; a published message is handed to every loop that has
  connections of the user, and there to each of them.
\<close>

section \<open>Publishing in turn\<close>

text \<open>The thread's own connection to an instance works, or has failed.\<close>

definition working :: "('w \<Rightarrow> view) \<Rightarrow> nat \<Rightarrow> 'w server \<Rightarrow> pubsub \<Rightarrow> bool" where
  "working view t s ps \<longleftrightarrow> (\<exists>c. map_of (context_map (thread s t)) (this ps) = Some (Some c)
     \<and> c \<in> v_up (view (world s)) \<and> v_pending (view (world s)) c = [])"

definition broken :: "'w outside \<Rightarrow> nat \<Rightarrow> 'w server \<Rightarrow> pubsub \<Rightarrow> bool" where
  "broken hi t s ps \<longleftrightarrow> (\<exists>c. map_of (context_map (thread s t)) (this ps) = Some (Some c)
     \<and> redis_err hi (world s) c)"

definition publisher :: "nat \<Rightarrow> 'w server \<Rightarrow> pubsub \<Rightarrow> ctx" where
  "publisher t s ps = (case map_of (context_map (thread s t)) (this ps) of Some (Some c) \<Rightarrow> c | _ \<Rightarrow> 0)"

text \<open>The instance that is \<open>k\<close> turns away.\<close>

definition turn :: "nat \<Rightarrow> 'w server \<Rightarrow> nat \<Rightarrow> pubsub" where
  "turn t s k = redis_pubsubs s ! ((publish_index (thread s t) + k) mod length (redis_pubsubs s))"

text \<open>
  Publications of thread \<open>t\<close> lead from \<open>s\<close> to \<open>s'\<close>: the next instance is \<open>i\<close>, the log grew by \<open>log\<close>,
  and nothing else changed but the buffers of failed connections.
\<close>

definition published_to ::
  "('w \<Rightarrow> view) \<Rightarrow> nat \<Rightarrow> 'w server \<Rightarrow> 'w server \<Rightarrow> nat \<Rightarrow> (ctx \<times> redis_cmd) list \<Rightarrow> bool" where
  "published_to view t s s' i log \<longleftrightarrow> (\<exists>w.
     s' = (on_thread t (\<lambda>l. l\<lparr>publish_index := i\<rparr>) s)\<lparr>world := w\<rparr>
     \<and> v_db (view w) = v_db (view (world s)) \<and> v_up (view w) = v_up (view (world s))
     \<and> v_sent (view w) = v_sent (view (world s)) @ log
     \<and> (\<forall>c \<in> v_up (view (world s)). v_pending (view w) c = v_pending (view (world s)) c))"

lemma published_toI:
  "v_db (view w) = v_db (view (world s)) \<Longrightarrow> v_up (view w) = v_up (view (world s)) \<Longrightarrow>
     v_sent (view w) = v_sent (view (world s)) @ log \<Longrightarrow>
     (\<And>c. c \<in> v_up (view (world s)) \<Longrightarrow> v_pending (view w) c = v_pending (view (world s)) c) \<Longrightarrow>
     published_to view t s ((on_thread t (\<lambda>l. l\<lparr>publish_index := i\<rparr>) s)\<lparr>world := w\<rparr>) i log"
  unfolding published_to_def by blast

lemma published_toD:
  assumes "published_to view t s s' i log"
  shows "redis_pubsubs s' = redis_pubsubs s" "publish_index (thread s' t) = i"
    "context_map (thread s' t) = context_map (thread s t)" "same_sessions s s'"
    "outputs s' = outputs s" "db_of view s' = db_of view s" "redis_up view t s' = redis_up view t s"
    "v_sent (view (world s')) = v_sent (view (world s)) @ log"
    "working view t s' = working view t s" "publisher t s' = publisher t s"
  using assms by (auto simp: published_to_def db_of_def redis_up_def working_def publisher_def
      same_sessions_on_thread fun_eq_iff)

lemma published_to_trans:
  "published_to view t s s' i log \<Longrightarrow> published_to view t s' s'' j log' \<Longrightarrow>
     published_to view t s s'' j (log @ log')"
  by (auto simp: published_to_def on_thread_def)

lemma turn_next:
  assumes "published_to view t s s' ((publish_index (thread s t) + n) mod length (redis_pubsubs s)) log"
  shows "turn t s' k = turn t s (n + k)"
  using published_toD(1,2) [OF assms] by (simp add: turn_def mod_simps ac_simps)

context redis_laws
begin

lemma publish_broken:
  assumes "map_of cmap (this ps) = Some (Some c)" and "redis_err hi w c"
  shows "\<exists>w'. publish hi ps ch msg (cmap, w) = Some (Inr (False, cmap, w'))
     \<and> (\<forall>c'. redis_err hi w' c' = redis_err hi w c')
     \<and> view w' = (view w)\<lparr>v_pending := (v_pending (view w))(c := v_pending (view w) c
         @ [PUBLISH (c_str ch) (c_str msg)])\<rparr>"
  using assms by (simp add: publish_def getLocalContext_def write_loop_err append_err append)

lemma publish_round_up:
  assumes "\<forall>ps \<in> set (redis_pubsubs s). working view t s ps \<or> broken hi t s ps"
    and "publish_index (thread s t) < length (redis_pubsubs s)"
  shows "\<exists>sent s' j. publish_round hi t ch msg n s = Some (Inr (sent, s'))
     \<and> (sent \<longleftrightarrow> (\<exists>k<n. working view t s (turn t s k)))
     \<and> (if sent then j < n \<and> working view t s (turn t s j) \<and> (\<forall>k<j. \<not> working view t s (turn t s k))
          \<and> published_to view t s s' ((publish_index (thread s t) + Suc j) mod length (redis_pubsubs s))
              [(publisher t s (turn t s j), PUBLISH (c_str ch) (c_str msg))]
        else published_to view t s s' ((publish_index (thread s t) + n) mod length (redis_pubsubs s)) [])"
  using assms
proof (induction n arbitrary: s)
  case 0
  then have "published_to view t s s (publish_index (thread s t)) []"
    by (simp add: published_to_def on_thread_def exI [of _ "world s"])
  with 0 show ?case by (intro exI [of _ False] exI [of _ s]) simp
next
  case (Suc n)
  let ?i = "publish_index (thread s t)" and ?L = "length (redis_pubsubs s)"
  let ?cmap = "context_map (thread s t)"
  let ?next = "\<lambda>w. next_index t (set_channel t ?cmap w s)"
  have t0: "turn t s 0 = redis_pubsubs s ! ?i" using Suc.prems(2) by (simp add: turn_def)
  have nx: "?next w = (on_thread t (\<lambda>l. l\<lparr>publish_index := (?i + 1) mod ?L\<rparr>) s)\<lparr>world := w\<rparr>" for w
    by (simp add: next_index_def set_channel_def on_thread_def)
  show ?case
  proof (cases "working view t s (turn t s 0)")
    case True
    then obtain c where c: "map_of ?cmap (this (redis_pubsubs s ! ?i)) = Some (Some c)"
      "c \<in> v_up (view (world s))" "v_pending (view (world s)) c = []" by (auto simp: working_def t0)
    from publish_up [OF c(1,2), of ch msg] obtain w where w:
      "publish hi (redis_pubsubs s ! ?i) ch msg (?cmap, world s) = Some (Inr (True, ?cmap, w))"
      "view w = flushed c (PUBLISH (c_str ch) (c_str msg)) (view (world s))" by blast
    have "publish_round hi t ch msg (Suc n) s = Some (Inr (True, ?next w))"
      using w(1) Suc.prems(2) by simp
    moreover have "published_to view t s (?next w) ((?i + Suc 0) mod ?L)
        [(publisher t s (turn t s 0), PUBLISH (c_str ch) (c_str msg))]"
      using c w(2) flushed_sent [OF c(3)] published_toI [of view w s _ t "(?i + 1) mod ?L"]
      by (simp add: nx publisher_def t0)
    ultimately show ?thesis using True by (intro exI [of _ True] exI [of _ "?next w"] exI [of _ 0]) auto
  next
    case False
    then obtain c where c: "map_of ?cmap (this (redis_pubsubs s ! ?i)) = Some (Some c)"
      "redis_err hi (world s) c" using Suc.prems by (auto simp: t0 broken_def)
    from publish_broken [OF c, of ch msg] obtain w where w:
      "publish hi (redis_pubsubs s ! ?i) ch msg (?cmap, world s) = Some (Inr (False, ?cmap, w))"
      "\<forall>c'. redis_err hi w c' = redis_err hi (world s) c'"
      "view w = (view (world s))\<lparr>v_pending := (v_pending (view (world s)))(c :=
         v_pending (view (world s)) c @ [PUBLISH (c_str ch) (c_str msg)])\<rparr>" by blast
    have p: "published_to view t s (?next w) ((?i + 1) mod ?L) []"
      unfolding nx using up_no_err [of c "world s"] c(2) w(3) by (intro published_toI) auto
    define s1 where "s1 = ?next w"
    note p = p [folded s1_def]
    have T: "turn t s1 k = turn t s (Suc k)" for k using turn_next [OF p] by simp
    have M: "((?i + 1) mod ?L + m) mod ?L = (?i + Suc m) mod ?L" for m by (simp add: mod_simps)
    have "broken hi t s1 = broken hi t s"
      using w(2) by (simp add: broken_def nx s1_def fun_eq_iff)
    moreover have "Suc ?i mod ?L < ?L" using Suc.prems(2) by (intro mod_less_divisor) auto
    ultimately have "\<forall>ps \<in> set (redis_pubsubs s1). working view t s1 ps \<or> broken hi t s1 ps"
      "publish_index (thread s1 t) < length (redis_pubsubs s1)"
      using Suc.prems by (simp_all add: published_toD [OF p])
    from Suc.IH [OF this] obtain sent s' j where r:
      "publish_round hi t ch msg n s1 = Some (Inr (sent, s'))"
      "sent \<longleftrightarrow> (\<exists>k<n. working view t s (turn t s (Suc k)))"
      "if sent then j < n \<and> working view t s (turn t s (Suc j)) \<and> (\<forall>k<j. \<not> working view t s (turn t s (Suc k)))
          \<and> published_to view t s1 s' ((?i + Suc (Suc j)) mod ?L)
              [(publisher t s (turn t s (Suc j)), PUBLISH (c_str ch) (c_str msg))]
        else published_to view t s1 s' ((?i + Suc n) mod ?L) []"
      unfolding T M published_toD(1,2,9,10) [OF p] by blast
    have "publish_round hi t ch msg (Suc n) s = Some (Inr (sent, s'))"
      using w(1) r(1) Suc.prems(2) by (simp add: s1_def)
    moreover have "sent \<longleftrightarrow> (\<exists>k<Suc n. working view t s (turn t s k))"
      using False r(2) by (simp add: Ex_less_Suc2)
    moreover have "if sent then Suc j < Suc n \<and> working view t s (turn t s (Suc j))
          \<and> (\<forall>k<Suc j. \<not> working view t s (turn t s k))
          \<and> published_to view t s s' ((?i + Suc (Suc j)) mod ?L)
              [(publisher t s (turn t s (Suc j)), PUBLISH (c_str ch) (c_str msg))]
        else published_to view t s s' ((?i + Suc n) mod ?L) []"
      using r(3) False published_to_trans [OF p] by (cases sent) (fastforce simp: All_less_Suc2)+
    ultimately show ?thesis by blast
  qed
qed

end

lemma turn_of:
  assumes "publish_index (thread s t) < length (redis_pubsubs s)"
  shows "(\<exists>k < length (redis_pubsubs s). P (turn t s k)) \<longleftrightarrow> (\<exists>ps \<in> set (redis_pubsubs s). P ps)"
proof
  have "turn t s k \<in> set (redis_pubsubs s)" for k
    unfolding turn_def using assms by (intro nth_mem mod_less_divisor) auto
  then show "\<exists>ps \<in> set (redis_pubsubs s). P ps" if "\<exists>k < length (redis_pubsubs s). P (turn t s k)"
    using that by blast
next
  let ?i = "publish_index (thread s t)" and ?L = "length (redis_pubsubs s)"
  assume "\<exists>ps \<in> set (redis_pubsubs s). P ps"
  then obtain j where j: "j < ?L" "P (redis_pubsubs s ! j)" by (auto simp: in_set_conv_nth)
  let ?k = "(?L - ?i + j) mod ?L"
  have "(?i + ?k) mod ?L = (?i + (?L - ?i + j)) mod ?L" by (simp add: mod_simps)
  also have "\<dots> = j" using assms j(1) by simp
  finally have "turn t s ?k = redis_pubsubs s ! j" by (simp add: turn_def)
  moreover have "?k < ?L" using assms by (intro mod_less_divisor) auto
  ultimately show "\<exists>k < ?L. P (turn t s k)" using j(2) by metis
qed

text \<open>
  C32: publishing fails over. With an own connection to each instance, working or failed, a thread
  that publishes hands the message exactly once to the first instance with a working connection,
  counted from its turn, and the turn moves past that instance; only if none works it gives up,
  with nothing sent, and the turn is what it was.
\<close>

theorem publish_fails_over:
  assumes "redis_laws hi view unwritten"
    and "\<forall>ps \<in> set (redis_pubsubs s). working view t s ps \<or> broken hi t s ps"
    and "publish_index (thread s t) < length (redis_pubsubs s)"
  shows "\<exists>sent s' j. server_publish hi t ch msg s = Some (Inr (sent, s'))
     \<and> (sent \<longleftrightarrow> (\<exists>ps \<in> set (redis_pubsubs s). working view t s ps))
     \<and> (if sent then j < length (redis_pubsubs s) \<and> working view t s (turn t s j)
          \<and> (\<forall>k<j. \<not> working view t s (turn t s k))
          \<and> published_to view t s s' ((publish_index (thread s t) + Suc j) mod length (redis_pubsubs s))
              [(publisher t s (turn t s j), PUBLISH (c_str ch) (c_str msg))]
        else published_to view t s s' (publish_index (thread s t)) [])"
  using redis_laws.publish_round_up [OF assms, of ch msg "length (redis_pubsubs s)"] assms(3)
  by (simp add: server_publish_def turn_of cong: if_cong)

text \<open>Two instances; the connection of thread 1 to the first has failed.\<close>

definition sample_failover :: "mem server" where
  "sample_failover = (sample_server [])\<lparr>
     thread := (\<lambda>_. new_thread)(1 := \<lparr>redis_ctx = Some 0, LocalConnections = [], publish_index = 0,
       context_map = [(0, Some 1), (1, Some 4)]\<rparr>),
     redis_pubsubs := [sample_pubsub\<lparr>redis_context := 2\<rparr>, sample_pubsub\<lparr>this := 1, redis_context := 3\<rparr>],
     world := mem_fresh\<lparr>m_next := 5, m_broken := [1]\<rparr>\<rparr>"

theorem publish_fails_over_witness:
  "\<exists>s'. server_publish mem_hi 1 ''user.bob'' ''hi'' sample_failover = Some (Inr (True, s'))
     \<and> published_to mem_view 1 sample_failover s' 0 [(4, PUBLISH ''user.bob'' ''hi'')]"
proof -
  let ?s = sample_failover
  note d = sample_failover_def sample_server_def sample_pubsub_def working_def broken_def mem_view_def
    mem_fresh_def mem_ok_def mem_pending_def mem_hi_def
  have w: "\<not> working mem_view 1 ?s (turn 1 ?s 0)" "working mem_view 1 ?s (turn 1 ?s 1)"
    "publisher 1 ?s (turn 1 ?s 1) = 4"
    by (simp_all add: d turn_def publisher_def)
  have a: "\<forall>ps \<in> set (redis_pubsubs ?s). working mem_view 1 ?s ps \<or> broken mem_hi 1 ?s ps"
    and e: "\<exists>ps \<in> set (redis_pubsubs ?s). working mem_view 1 ?s ps"
    and i: "publish_index (thread ?s 1) = 0" "length (redis_pubsubs ?s) = 2"
    by (simp_all add: d)
  from publish_fails_over [OF memory.redis_laws_axioms a, of "''user.bob''" "''hi''"] i e
  obtain s' j where r: "server_publish mem_hi 1 ''user.bob'' ''hi'' ?s = Some (Inr (True, s'))"
    "j < 2" "\<forall>k<j. \<not> working mem_view 1 ?s (turn 1 ?s k)" "working mem_view 1 ?s (turn 1 ?s j)"
    "published_to mem_view 1 ?s s' (Suc j mod 2)
       [(publisher 1 ?s (turn 1 ?s j), PUBLISH (c_str ''user.bob'') (c_str ''hi''))]"
    by auto
  have "j = 1" using r(2,4) w(1) by (cases j) auto
  then show ?thesis using r(1,5) w(3) by (auto simp: c_str_Cons)
qed

section \<open>Group messages\<close>

text \<open>What publishing one message for each user of a list sends: each through the next instance.\<close>

definition fan_out :: "nat \<Rightarrow> 'w server \<Rightarrow> string list \<Rightarrow> string \<Rightarrow> (ctx \<times> redis_cmd) list" where
  "fan_out t s us payload = map (\<lambda>k. (publisher t s (turn t s k),
     PUBLISH (c_str (''user.'' @ us ! k)) (c_str payload))) [0..<length us]"

lemma fan_out_Cons:
  assumes "published_to view t s s' ((publish_index (thread s t) + 1) mod length (redis_pubsubs s)) log"
  shows "fan_out t s (u # us) payload =
     (publisher t s (turn t s 0), PUBLISH (c_str (''user.'' @ u)) (c_str payload)) # fan_out t s' us payload"
  unfolding fan_out_def length_Cons map_upt_Suc turn_next [OF assms] published_toD(10) [OF assms]
  by simp

context redis_laws
begin

lemma server_publish_up:
  assumes "\<forall>ps \<in> set (redis_pubsubs s). working view t s ps"
    and "publish_index (thread s t) < length (redis_pubsubs s)"
  shows "\<exists>s'. server_publish hi t ch msg s = Some (Inr (True, s'))
     \<and> published_to view t s s' ((publish_index (thread s t) + 1) mod length (redis_pubsubs s))
         [(publisher t s (turn t s 0), PUBLISH (c_str ch) (c_str msg))]"
proof -
  have a: "\<forall>ps \<in> set (redis_pubsubs s). working view t s ps \<or> broken hi t s ps" using assms(1) by blast
  have "turn t s 0 = redis_pubsubs s ! publish_index (thread s t)" using assms(2) by (simp add: turn_def)
  then have w: "working view t s (turn t s 0)" using assms by simp
  from publish_round_up [OF a assms(2), of ch msg "length (redis_pubsubs s)"]
  obtain sent s' j where r: "server_publish hi t ch msg s = Some (Inr (sent, s'))"
    "sent \<longleftrightarrow> (\<exists>k<length (redis_pubsubs s). working view t s (turn t s k))"
    "if sent then j < length (redis_pubsubs s) \<and> working view t s (turn t s j)
          \<and> (\<forall>k<j. \<not> working view t s (turn t s k))
          \<and> published_to view t s s' ((publish_index (thread s t) + Suc j) mod length (redis_pubsubs s))
              [(publisher t s (turn t s j), PUBLISH (c_str ch) (c_str msg))]
        else published_to view t s s' ((publish_index (thread s t) + length (redis_pubsubs s))
              mod length (redis_pubsubs s)) []"
    unfolding server_publish_def by blast
  have sent using r(2) w assms(2) by (intro r(2) [THEN iffD2] exI [of _ 0]) auto
  moreover from this have "j = 0" using r(3) w by (metis neq0_conv)
  ultimately show ?thesis using r(1,3) by auto
qed

lemma publish_to_each_up:
  assumes "\<forall>ps \<in> set (redis_pubsubs s). working view t s ps"
    and "publish_index (thread s t) < length (redis_pubsubs s)" and "\<forall>u \<in> set us. nul_free u"
  shows "\<exists>s'. publish_to_each env hi t m (map bulk_reply us) s = Some (Inr s')
     \<and> published_to view t s s' ((publish_index (thread s t) + length us) mod length (redis_pubsubs s))
         (fan_out t s us (SerializeAsString env m))"
  using assms
proof (induction us arbitrary: s)
  case Nil
  then have "published_to view t s s (publish_index (thread s t)) []"
    by (simp add: published_to_def on_thread_def exI [of _ "world s"])
  with Nil show ?case by (simp add: fan_out_def)
next
  case (Cons u us)
  let ?i = "publish_index (thread s t)" and ?L = "length (redis_pubsubs s)"
  from server_publish_up [OF Cons.prems(1,2), of "''user.'' @ u" "SerializeAsString env m"]
  obtain s1 where 1: "server_publish hi t (''user.'' @ u) (SerializeAsString env m) s = Some (Inr (True, s1))"
    "published_to view t s s1 ((?i + 1) mod ?L) [(publisher t s (turn t s 0),
       PUBLISH (c_str (''user.'' @ u)) (c_str (SerializeAsString env m)))]" by blast
  have "\<forall>ps \<in> set (redis_pubsubs s1). working view t s1 ps"
    "publish_index (thread s1 t) < length (redis_pubsubs s1)"
    using Cons.prems(1,2) mod_less_divisor [of ?L "Suc ?i"] gr_implies_not0 [OF Cons.prems(2)]
    by (auto simp: published_toD [OF 1(2)])
  from Cons.IH [OF this] Cons.prems(3) obtain s2 where 2:
    "publish_to_each env hi t m (map bulk_reply us) s1 = Some (Inr s2)"
    "published_to view t s1 s2 ((?i + Suc (length us)) mod ?L) (fan_out t s1 us (SerializeAsString env m))"
    by (auto simp: published_toD [OF 1(2)] mod_simps)
  show ?case
    using 1(1) 2(1) Cons.prems(3) published_to_trans [OF 1(2) 2(2)]
    by (simp add: fan_out_Cons [OF 1(2)])
qed

end

abbreviation text_sent :: chat_msg where
  "text_sent \<equiv> TextMessageResponse \<lparr>st_success = True, st_error_message = ''''\<rparr>"

abbreviation group_not_found :: chat_msg where
  "group_not_found \<equiv> TextMessageResponse \<lparr>st_success = False, st_error_message = ''Target group not found''\<rparr>"

lemma same_view:
  assumes "with_db view s (db_of view s) s'"
  shows "view (world s') = view (world s)" "thread s' = thread s" "redis_pubsubs s' = redis_pubsubs s"
    "working view t s' = working view t s" "fan_out t s' = fan_out t s"
  using assms by (auto simp: with_db_def db_of_def working_def fan_out_def publisher_def turn_def fun_eq_iff)

lemma channels_up_working: "channels_up view t s \<Longrightarrow> \<forall>ps \<in> set (redis_pubsubs s). working view t s ps"
  by (fastforce simp: channels_up_def working_def)

text \<open>
  C31: a message for a group is published exactly once on the channel of every member, each time
  through the next instance, and the sender is told once: that it was sent, or, for a group without
  members, that there is no such group. The data and the sessions stay as they are.
\<close>

theorem group_message_fans_out:
  assumes "redis_laws hi view unwritten"
    and "redis_up view t s" and "channels_up view t s" and "groups_ok (db_of view s)"
    and "publish_index (thread s t) < length (redis_pubsubs s)"
    and "can_frame env text_sent" and "can_frame env group_not_found"
  shows "\<exists>s' us. processGroupMessage env hi t c g m s = Some (Inr s')
     \<and> distinct us \<and> set us = {u. (c_str g, u) \<in> membership (db_of view s)}
     \<and> v_sent (view (world s')) = v_sent (view (world s)) @ fan_out t s us (SerializeAsString env m)
     \<and> outputs s' = outputs s @ framed env c [if us \<noteq> [] then text_sent else group_not_found]
     \<and> db_of view s' = db_of view s \<and> same_sessions s s'"
proof -
  let ?d = "db_of view s"
  have w: "with_db view s ?d s" by (auto simp: with_db_def db_of_def intro!: exI [of _ "world s"])
  have k: "well_keyed (SMEMBERS (group_key g))" by simp
  from redis_laws.redis_command_with_db [OF assms(1,2) w k] obtain us s1 where
    1: "redis_command hi t (SMEMBERS (group_key g)) s = Some (Inr (Some (array_reply (map bulk_reply us)), s1))"
      "distinct us" "set us = db_set ?d (group_key g)" "with_db view s ?d s1" by auto
  note v = same_view [OF 1(4)] and d = with_dbD [OF 1(4)]
  have n: "\<forall>u \<in> set us. nul_free u" using groups_okD(3) [OF assms(4)] 1(3) by auto
  have "(c_str g, u) \<in> membership ?d \<longleftrightarrow> u \<in> db_set ?d (group_key g)" for u
    using groups_okD(3) [OF assms(4), of u g] by (auto simp: membership_def simp del: keys)
  then have us: "distinct us \<and> set us = {u. (c_str g, u) \<in> membership ?d}" using 1(2,3) by auto
  have "\<forall>ps \<in> set (redis_pubsubs s1). working view t s1 ps" "publish_index (thread s1 t) < length (redis_pubsubs s1)"
    using channels_up_working [OF assms(3)] assms(5) by (simp_all add: v)
  from redis_laws.publish_to_each_up [OF assms(1) this n, of env m] obtain s2 where
    2: "publish_to_each env hi t m (map bulk_reply us) s1 = Some (Inr s2)" and
    p: "published_to view t s1 s2 ((publish_index (thread s1 t) + length us) mod length (redis_pubsubs s1))
         (fan_out t s1 us (SerializeAsString env m))" by blast
  note D = published_toD [OF p]
  let ?r = "if us \<noteq> [] then text_sent else group_not_found"
  let ?s = "(if us \<noteq> [] then s2 else s1)\<lparr>outputs := outputs s @ framed env c [?r]\<rparr>"
  have "processGroupMessage env hi t c g m s = Some (Inr ?s)"
    using 1(1) 2 D(5) d(3) assms(6,7)
    by (auto simp: processGroupMessage_def codec_send_framed simp del: framed_simps)
  moreover have "v_sent (view (world ?s)) = v_sent (view (world s)) @ fan_out t s us (SerializeAsString env m)"
    using D(8) v(1,5) by (cases us) (simp_all add: fan_out_def)
  moreover have "db_of view ?s = ?d" "same_sessions s ?s"
    using D(4,6) d(1,4) by (auto simp: db_of_def intro: same_sessions_trans)
  ultimately show ?thesis using us by (intro exI [of _ ?s] exI [of _ us]) (simp del: framed_simps)
qed

text \<open>Two members, of the one group there is.\<close>

definition sample_group :: "mem server" where
  "sample_group = (sample_server [])\<lparr>world := mem_fresh\<lparr>m_next := 3,
     m_sets := [(''group:dev:users'', [''ann'', ''bob'']), (''user:ann:groups'', [''dev'']),
       (''user:bob:groups'', [''dev''])]\<rparr>\<rparr>"

lemma sample_group_db:
  "db_of mem_view sample_group = db_join ''dev'' ''ann'' (db_join ''dev'' ''bob'' (db_of mem_view (sample_server [])))"
proof -
  have "db_hash (db_of mem_view sample_group) = (\<lambda>_. Map.empty)"
    by (simp add: sample_group_def db_of_def mem_view_def mem_fresh_def fields_at_def fun_eq_iff)
  moreover have "db_set (db_of mem_view sample_group) = (\<lambda>_. {})(
      ''group:dev:users'' := {''ann'', ''bob''}, ''user:ann:groups'' := {''dev''}, ''user:bob:groups'' := {''dev''})"
    by (auto simp: sample_group_def db_of_def mem_view_def mem_fresh_def reg_members_def fun_eq_iff)
  moreover have "group_key ''dev'' = ''group:dev:users''" "groups_key ''ann'' = ''user:ann:groups''"
    "groups_key ''bob'' = ''user:bob:groups''"
    by (simp_all add: group_key_def groups_key_def c_str_Cons)
  ultimately show ?thesis
    by (intro redis_db.equality) (auto simp: db_join_simps sample_server_db c_str_Cons fun_eq_iff)
qed

lemma sample_group_up:
  "redis_up mem_view 1 sample_group" "channels_up mem_view 1 sample_group"
  "publish_index (thread sample_group 1) < length (redis_pubsubs sample_group)"
  by (simp_all add: sample_group_def sample_server_def redis_up_def channels_up_def mem_view_def
      mem_fresh_def mem_ok_def mem_pending_def sample_pubsub_def)

theorem group_message_fans_out_witness:
  "\<exists>s' us. processGroupMessage chat_env mem_hi 1 sample_conn ''dev'' empty_TextMessage sample_group = Some (Inr s')
     \<and> distinct us \<and> set us = {''ann'', ''bob''}
     \<and> v_sent (mem_view (world s')) = fan_out 1 sample_group us (SerializeAsString chat_env empty_TextMessage)
     \<and> outputs s' = framed chat_env sample_conn [text_sent]"
proof -
  have f: "can_frame chat_env text_sent" "can_frame chat_env group_not_found" by code_simp+
  have g: "groups_ok (db_of mem_view sample_group)"
    unfolding sample_group_db by (intro db_join_ok sample_no_groups)
  have "membership (db_of mem_view sample_group) = {(''dev'', ''ann''), (''dev'', ''bob'')}"
    unfolding sample_group_db db_join_membership sample_no_groups by (simp add: c_str_Cons)
  then have m: "{u. (c_str ''dev'', u) \<in> membership (db_of mem_view sample_group)} = {''ann'', ''bob''}"
    by (auto simp: c_str_Cons)
  have o: "outputs sample_group = []" "v_sent (mem_view (world sample_group)) = []"
    by (simp_all add: sample_group_def sample_server_def mem_view_def mem_fresh_def)
  from group_message_fans_out [OF memory.redis_laws_axioms sample_group_up(1,2) g sample_group_up(3) f,
      of sample_conn "''dev''" empty_TextMessage, unfolded m o append_Nil]
  show ?thesis
  proof (elim exE conjE)
    fix s' :: "mem server" and us :: "string list"
    assume us: "set us = {''ann'', ''bob''}"
      and out: "outputs s' = framed chat_env sample_conn [if us \<noteq> [] then text_sent else group_not_found]"
    have "us \<noteq> []" using us by (metis insert_not_empty list.set(1))
    then have "outputs s' = framed chat_env sample_conn [text_sent]" unfolding out by (simp del: framed_simps)
    moreover assume "processGroupMessage chat_env mem_hi 1 sample_conn ''dev'' empty_TextMessage sample_group = Some (Inr s')"
      "distinct us" "v_sent (mem_view (world s')) =
        fan_out 1 sample_group us (SerializeAsString chat_env empty_TextMessage)"
    ultimately show ?thesis using us by (intro exI conjI)
  qed
qed

section \<open>Delivery\<close>

text \<open>The tasks a published message leaves with the loops, run in order.\<close>

fun run_tasks :: "chat_codec \<Rightarrow> (nat \<times> string \<times> text_message) list \<Rightarrow> 'w handler" where
  "run_tasks env [] s = Some (Inr s)"
| "run_tasks env ((loop, user, message) # tasks) s =
     run_then (sendTextMessage env loop user message s) (run_tasks env tasks)"

lemma send_each_framed:
  assumes "can_frame env (TextMessage m)"
  shows "send_each env m cs s =
     Some (Inr (s\<lparr>outputs := outputs s @ map (\<lambda>c. Send c (frame_of env (TextMessage m))) cs\<rparr>))"
  by (induction cs arbitrary: s) (simp_all add: codec_send_framed [OF assms])

lemma sendTextMessage_framed:
  assumes "can_frame env (TextMessage m)"
  shows "sendTextMessage env t u m s = Some (Inr (s\<lparr>outputs := outputs s @
     map (\<lambda>c. Send c (frame_of env (TextMessage m))) (reg_members (local_conns s t) u)\<rparr>))"
  by (auto simp: sendTextMessage_def local_conns_def reg_members_def send_each_framed [OF assms]
      split: option.split)

lemma run_tasks_framed:
  assumes "can_frame env (TextMessage m)"
  shows "run_tasks env (map (\<lambda>l. (l, u, m)) ls) s = Some (Inr (s\<lparr>outputs := outputs s @
     map (\<lambda>c. Send c (frame_of env (TextMessage m)))
       (concat (map (\<lambda>l. reg_members (local_conns s l) u) ls))\<rparr>))"
  by (induction ls arbitrary: s) (simp_all add: sendTextMessage_framed [OF assms])

text \<open>The connections of a user, loop by loop.\<close>

definition connections_of :: "string \<Rightarrow> 'w server \<Rightarrow> conn list" where
  "connections_of u s =
     concat (map (\<lambda>l. reg_members (local_conns s l) u) (reg_members (online_users s) u))"

lemma connections_of_all:
  assumes "sessions_ok s"
  shows "distinct (connections_of u s)"
    "set (connections_of u s) = {c. c \<in> set (reg_members (local_conns s (getLoop c)) u)}"
proof -
  note D = sessions_okD [OF assms]
  have "distinct (reg_members (online_users s) u)" by (rule reg_ok_distinct [OF D(1)])
  moreover have "distinct (reg_members (local_conns s l) u)" for l by (rule reg_ok_distinct [OF D(2)])
  ultimately show "distinct (connections_of u s)"
    unfolding connections_of_def using D(4) by (intro distinct_concat_owner [where g = getLoop]) auto
  show "set (connections_of u s) = {c. c \<in> set (reg_members (local_conns s (getLoop c)) u)}"
    unfolding connections_of_def using D(3,4) by auto (metis empty_iff list.set(1))
qed

lemma published_delivered:
  assumes "sessions_ok s" and "u \<noteq> ''''"
    and "ParseFromString env msg = Some m" and "can_frame env (TextMessage m)"
  shows "\<exists>s1 s2 tasks cs. onRedisPubSubMessage env (''user.'' @ u) msg s = Some (Inr s1)
     \<and> loop_tasks s1 = loop_tasks s @ tasks \<and> run_tasks env tasks s1 = Some (Inr s2)
     \<and> distinct cs \<and> set cs = {c. c \<in> set (reg_members (local_conns s (getLoop c)) u)}
     \<and> outputs s2 = outputs s @ map (\<lambda>c. Send c (frame_of env (TextMessage m))) cs"
proof -
  let ?tasks = "map (\<lambda>l. (l, u, m)) (reg_members (online_users s) u)"
  let ?s = "s\<lparr>loop_tasks := loop_tasks s @ ?tasks\<rparr>"
  have call: "onRedisPubSubMessage env (''user.'' @ u) msg s = Some (Inr ?s)"
    using assms(2,3) by (auto simp: onRedisPubSubMessage_def reg_members_def split: option.split)
  have same: "local_conns ?s = local_conns s" by (simp add: local_conns_def fun_eq_iff)
  show ?thesis
    using call run_tasks_framed [OF assms(4), of u "reg_members (online_users s) u" ?s]
      connections_of_all [OF assms(1), of u]
    unfolding same connections_of_def [symmetric]
    by (intro exI conjI) (assumption | simp)+
qed

text \<open>
  C30: a message published on the channel of a user, in any state of the sessions that can be
  reached, is sent to every connection logged in as the user, in whatever loop, exactly once, and to
  no other connection: the callback hands it to the loops, and the loops' tasks send it.
\<close>

theorem published_reaches_all:
  assumes "reachable env hi servers w0 s" and "u \<noteq> ''''"
    and "ParseFromString env msg = Some m" and "can_frame env (TextMessage m)"
  shows "\<exists>s1 s2 tasks cs. onRedisPubSubMessage env (''user.'' @ u) msg s = Some (Inr s1)
     \<and> loop_tasks s1 = loop_tasks s @ tasks \<and> run_tasks env tasks s1 = Some (Inr s2)
     \<and> distinct cs \<and> set cs = {c. c \<in> set (reg_members (local_conns s (getLoop c)) u)}
     \<and> outputs s2 = outputs s @ map (\<lambda>c. Send c (frame_of env (TextMessage m))) cs"
  by (rule published_delivered [OF reachable_ok [OF assms(1)] assms(2-4)])

lemma sample_once_online:
  "returns sample_once (\<lambda>s. local_conns s 1 = [(''ann'', [sample_conn])] \<and> online_users s = [(''ann'', [1])])"
  by code_simp

theorem published_reaches_all_witness:
  "\<exists>s s1 s2 tasks. sample_once = Some (Inr s)
     \<and> onRedisPubSubMessage chat_env (''user.'' @ ''ann'')
         (SerializeAsString chat_env (empty_TextMessage\<lparr>tm_content := ''hi''\<rparr>)) s = Some (Inr s1)
     \<and> loop_tasks s1 = loop_tasks s @ tasks \<and> run_tasks chat_env tasks s1 = Some (Inr s2)
     \<and> outputs s2 = outputs s @
         [Send sample_conn (frame_of chat_env (TextMessage (empty_TextMessage\<lparr>tm_content := ''hi''\<rparr>)))]"
proof -
  let ?m = "empty_TextMessage\<lparr>tm_content := ''hi''\<rparr>"
  obtain s where s: "sample_once = Some (Inr s)"
    "local_conns s 1 = [(''ann'', [sample_conn])] \<and> online_users s = [(''ann'', [1])]"
    using sample_once_online by (rule returnsE)
  have p: "ParseFromString chat_env (SerializeAsString chat_env ?m) = Some ?m" by code_simp
  have f: "can_frame chat_env (TextMessage ?m)" by code_simp
  have r: "reachable chat_env mem_hi sample_servers sample_world s"
    by (rule sample_once_reachable [OF s(1)])
  from published_reaches_all [OF r _ p f, of "''ann''"] obtain s1 s2 tasks cs where
    d: "onRedisPubSubMessage chat_env (''user.'' @ ''ann'') (SerializeAsString chat_env ?m) s = Some (Inr s1)"
    "loop_tasks s1 = loop_tasks s @ tasks" "run_tasks chat_env tasks s1 = Some (Inr s2)"
    "distinct cs" "set cs = {c. c \<in> set (reg_members (local_conns s (getLoop c)) ''ann'')}"
    "outputs s2 = outputs s @ map (\<lambda>c. Send c (frame_of chat_env (TextMessage ?m))) cs" by blast
  have "c \<in> set (reg_members (local_conns s (getLoop c)) ''ann'') \<longleftrightarrow> c = sample_conn" for c
  proof -
    have "getLoop c = 1" if "c \<in> set (reg_members (local_conns s (getLoop c)) ''ann'')"
    proof -
      have "reg_members (local_conns s (getLoop c)) ''ann'' \<noteq> []" using that by auto
      then have "getLoop c \<in> set (reg_members (online_users s) ''ann'')"
        using sessions_okD(3) [OF reachable_ok [OF r]] by blast
      then show ?thesis using s(2) by (simp add: reg_members_def)
    qed
    moreover have "set (reg_members (local_conns s 1) ''ann'') = {sample_conn}"
      using s(2) by (simp add: reg_members_def)
    ultimately show ?thesis by (metis conn.sel(2) sample_conn_def singletonD singletonI)
  qed
  then have "cs = [sample_conn]" using d(4,5) enumerates_one [of cs sample_conn] by simp
  then show ?thesis using s(1) d(1-3,6) by auto
qed

section \<open>The user without a name\<close>

text \<open>
  C33: anyone can make a debug server abort. Registering the empty name with a password succeeds and
  so does logging in with it; every instance then reads the channel \<open>user.\<close>, and the first message
  published there, of whatever content, fails the assertion of the callback.
\<close>

theorem empty_name_aborts:
  assumes "redis_laws hi view unwritten"
    and "redis_up view (getLoop c) s" and "channels_up view (getLoop c) s" and "subscriptions_ok view s"
    and "nul_free p" and "p \<noteq> ''''" and "db_hash (db_of view s) ''users'' '''' = None"
    and "can_frame env registered" and "can_frame env (not_registered ''Username already exists.'')"
    and "can_frame env (login_accepted '''')" and "can_frame env login_refused"
  shows "\<exists>s' s''. onRegisterRequest env hi c \<lparr>cr_username = '''', cr_password = p\<rparr> s = Some (Inr s')
     \<and> onLoginRequest env hi c \<lparr>cr_username = '''', cr_password = p\<rparr> s' = Some (Inr s'')
     \<and> outputs s'' = outputs s @ framed env c [registered, login_accepted '''']
     \<and> (\<forall>ps \<in> set (redis_pubsubs s'').
          subscribed_to (v_sent (view (world s''))) (redis_context ps) ''user.'')
     \<and> (\<forall>msg. onRedisPubSubMessage env ''user.'' msg s'' = Some (Inl AssertFailed))"
proof -
  have n: "('''' :: string) \<noteq> ''guest''" "nul_free ''''" by (simp_all add: nul_free_def)
  from redis_laws.register_login_up [OF assms(1-4) n assms(5-11), of p] obtain s' s'' where
    "onRegisterRequest env hi c \<lparr>cr_username = '''', cr_password = p\<rparr> s = Some (Inr s')"
    "onLoginRequest env hi c \<lparr>cr_username = '''', cr_password = p\<rparr> s' = Some (Inr s'')"
    "outputs s'' = outputs s @ framed env c [registered, login_accepted '''']"
    "subscriptions_ok view s''" "map_of (online_users s'') '''' \<noteq> None" by auto
  moreover from this(4,5) n(2) have "\<forall>ps \<in> set (redis_pubsubs s'').
      subscribed_to (v_sent (view (world s''))) (redis_context ps) ''user.''"
    by (fastforce simp: subscriptions_ok_def)
  moreover have "onRedisPubSubMessage env ''user.'' msg s'' = Some (Inl AssertFailed)" for msg
    by (simp add: onRedisPubSubMessage_def)
  ultimately show ?thesis by blast
qed

theorem empty_name_aborts_witness:
  "\<exists>s' s''. onRegisterRequest chat_env mem_hi sample_conn
         \<lparr>cr_username = '''', cr_password = ''pw''\<rparr> (sample_server []) = Some (Inr s')
     \<and> onLoginRequest chat_env mem_hi sample_conn \<lparr>cr_username = '''', cr_password = ''pw''\<rparr> s' = Some (Inr s'')
     \<and> (\<forall>msg. onRedisPubSubMessage chat_env ''user.'' msg s'' = Some (Inl AssertFailed))"
proof -
  let ?s = "sample_server []"
  have f: "can_frame chat_env (login_accepted '''')" "can_frame chat_env login_refused"
    "can_frame chat_env registered" "can_frame chat_env (not_registered ''Username already exists.'')"
    by code_simp+
  have l: "getLoop sample_conn = 1" by (simp add: sample_conn_def)
  have p: "nul_free ''pw''" "''pw'' \<noteq> ''''" by (simp_all add: nul_free_def)
  have d: "db_hash (db_of mem_view ?s) ''users'' '''' = None" by (simp add: sample_server_db)
  show ?thesis
    using empty_name_aborts [OF memory.redis_laws_axioms, of sample_conn ?s, OF _ _ sample_server_up(3) p d f(3,4,1,2)]
      sample_server_up(1,2) unfolding l by blast
qed

end
