(* ===== verification/Delivery.thy ===== *)
theory Delivery
  imports Codec_Properties Client_Properties Server_Messages
begin

text \<open>
  Where the parts meet: a text that is typed at one client, framed, decoded by its server, published,
  handed to the callback of any server, and sent on to the clients of its target.
\<close>

definition typed_text :: "string \<Rightarrow> string \<Rightarrow> string \<Rightarrow> text_message" where
  "typed_text sender target content =
     \<lparr>tm_sender = sender, tm_content = content, tm_target = target, tm_target_type = USER\<rparr>"

text \<open>The frame of one message survives any cutting of its bytes.\<close>

lemma frame_decoded:
  assumes "protobuf_env env valid" and "valid m" and "can_frame env m"
    and "int (length (frame_of env m)) \<le> kMaxMessageLen + kHeaderLen"
    and "concat pieces = frame_of env m"
  shows "feed env [] pieces = Inr ([Deliver m], [])"
  using frames_decoded [OF assms(1), of "[m]" "[frame_of env m]"] assms(2-5) by (simp add: can_frame_def)

text \<open>What the sender's client writes.\<close>

lemma text_typed:
  assumes "connection a = Some c" and "parse_line line = Text USER u content"
    and "can_frame env (TextMessage (typed_text (username a) u content))"
  shows "\<exists>a'. client_line env line a = Some (Inr a')
     \<and> effects a' = effects a @ [Send c (frame_of env (TextMessage (typed_text (username a) u content)))]"
  using processCommand_session [OF assms(1), of line env] assms
  by (simp add: client_line_def does_def typed_text_def)

text \<open>What the sender's server publishes and answers.\<close>

context redis_laws
begin

lemma text_published:
  assumes "channels_up view (getLoop c) s"
    and "publish_index (thread s (getLoop c)) < length (redis_pubsubs s)"
    and "tm_target_type m = USER" and "can_frame env text_sent"
    and "nul_free (tm_target m)" and "nul_free (SerializeAsString env m)"
  shows "\<exists>s' p. server_message env hi c (TextMessage m) s = Some (Inr s')
     \<and> outputs s' = outputs s @ framed env c [text_sent]
     \<and> v_sent (view (world s')) = v_sent (view (world s))
         @ [(p, PUBLISH (''user.'' @ tm_target m) (SerializeAsString env m))]"
proof -
  have n: "c_str (''user.'' @ tm_target m) = ''user.'' @ tm_target m"
    "c_str (SerializeAsString env m) = SerializeAsString env m"
    using assms(5,6) by (simp_all add: c_str_Cons)
  from server_publish_up [OF channels_up_working [OF assms(1)] assms(2),
      of "''user.'' @ tm_target m" "SerializeAsString env m"] obtain s1 i where
    s1: "server_publish hi (getLoop c) (''user.'' @ tm_target m) (SerializeAsString env m) s = Some (Inr (True, s1))"
    "published_to view (getLoop c) s s1 i [(publisher (getLoop c) s (turn (getLoop c) s 0),
       PUBLISH (''user.'' @ tm_target m) (SerializeAsString env m))]"
    unfolding n by blast
  then show ?thesis
    using assms(3) published_toD(5,8) [OF s1(2)]
    by (simp add: server_message_cases onTextMessage_def codec_send_framed [OF assms(4)])
qed

end

end
