(* ===== verification/Server_Main.thy ===== *)
theory Server_Main
  imports Server_Sessions "HOL-Library.Word"
begin

text \<open>
  How the chat server starts and how it would end: the command line and \<^verbatim>\<open>start\<close> of \<^verbatim>\<open>server.cc\<close>,
  which put the server into a state the invariants speak of, and the destructors, which wait for
  listeners that nothing stops.
\<close>

section \<open>Start\<close>

fun init_each :: "'w outside \<Rightarrow> nat list \<Rightarrow> 'w handler" where
  "init_each hi [] s = Some (Inr s)"
| "init_each hi (t # ts) s = run_then (initRedisContext hi t s) (init_each hi ts)"

fun thread_init_each :: "'w outside \<Rightarrow> nat list \<Rightarrow> 'w handler" where
  "thread_init_each hi [] s = Some (Inr s)"
| "thread_init_each hi (loop # rest) s = run_then (threadInit hi loop s) (thread_init_each hi rest)"

text \<open>The two threads of the pool open their connections, then the loops start.\<close>

definition start_server :: "'w outside \<Rightarrow> nat \<Rightarrow> 'w handler" where
  "start_server hi numThreads s =
     run_then (init_each hi [numThreads + 1, numThreads + 2] s) (thread_init_each hi (io_loops numThreads))"

text \<open>\<^verbatim>\<open>static_cast<uint16_t>(atoi(...))\<close>\<close>

definition port_of :: "string \<Rightarrow> int" where
  "port_of arg = uint (word_of_int (atoi arg) :: 16 word)"

fun redis_servers_of :: "string list \<Rightarrow> RedisConnectionInfo list" where
  "redis_servers_of (h # p # rest) = \<lparr>rc_host = h, rc_port = port_of p\<rparr> # redis_servers_of rest"
| "redis_servers_of _ = []"

text \<open>
  \<open>None\<close> is the usage message. A negative number of threads fails an assertion of the library's
  \<^verbatim>\<open>setThreadNum\<close>.
\<close>

definition server_main :: "'w outside \<Rightarrow> string list \<Rightarrow> 'w \<Rightarrow> 'w server option run" where
  "server_main hi argv w =
     (if 4 < length argv then
        run_then (ChatServer hi (redis_servers_of (drop 3 argv)) w) (\<lambda>s.
          if atoi (argv ! 2) < 0 then Some (Inl AssertFailed)
          else run_then (start_server hi (nat (atoi (argv ! 2))) s) (\<lambda>s. Some (Inr (Some s))))
      else Some (Inr None))"

lemma init_each_reachable:
  "init_each hi ts s = Some (Inr s') \<Longrightarrow> reachable env hi servers w0 s \<Longrightarrow> reachable env hi servers w0 s'"
proof (induction ts arbitrary: s)
  case (Cons t ts)
  then show ?case by (auto simp: run_then_Inr_iff intro: Cons.IH reachable.step server_step.pool_start)
qed simp

lemma thread_init_each_reachable:
  "thread_init_each hi ts s = Some (Inr s') \<Longrightarrow> reachable env hi servers w0 s \<Longrightarrow>
     reachable env hi servers w0 s'"
proof (induction ts arbitrary: s)
  case (Cons t ts)
  then show ?case by (auto simp: run_then_Inr_iff intro: Cons.IH reachable.step server_step.thread_start)
qed simp

text \<open>The server runs from a reachable state, whatever the command line.\<close>

lemma server_main_reachable:
  assumes "server_main hi argv w = Some (Inr (Some s))"
  shows "reachable env hi (redis_servers_of (drop 3 argv)) w s"
proof -
  from assms obtain s0 s1 n where "ChatServer hi (redis_servers_of (drop 3 argv)) w = Some (Inr s0)"
    "init_each hi [n + 1, n + 2] s0 = Some (Inr s1)" "thread_init_each hi (io_loops n) s1 = Some (Inr s)"
    by (auto simp: server_main_def start_server_def run_then_Inr_iff split: if_splits simp del: init_each.simps)
  then show ?thesis by (blast intro: thread_init_each_reachable init_each_reachable reachable.start)
qed

section \<open>Destruction\<close>

text \<open>The listener thread of an instance, whose callback is the server's.\<close>

definition server_listener_turn :: "chat_codec \<Rightarrow> 'w outside \<Rightarrow> pubsub \<Rightarrow> 'w handler" where
  "server_listener_turn env hi ps s =
     run_then (listener_turn hi ps (onRedisPubSubMessage env) (world s, s)) (\<lambda>(w, s).
       Some (Inr (s\<lparr>world := w\<rparr>)))"

text \<open>\<^verbatim>\<open>listener_thread_.join()\<close> returns when the listener has left its loop.\<close>

partial_function (option) join_listener :: "chat_codec \<Rightarrow> 'w outside \<Rightarrow> pubsub \<Rightarrow> 'w handler" where
  [code]: "join_listener env hi ps s =
     (if stop_flag ps then Some (Inr s)
      else run_then (server_listener_turn env hi ps s) (join_listener env hi ps))"

definition delete_pubsub :: "chat_codec \<Rightarrow> 'w outside \<Rightarrow> pubsub \<Rightarrow> 'w handler" where
  "delete_pubsub env hi ps s =
     run_then (join_listener env hi ps s) (\<lambda>s.
       Some (Inr (s\<lparr>world := redisFree hi (redis_context ps) (world s)\<rparr>)))"

fun delete_each :: "chat_codec \<Rightarrow> 'w outside \<Rightarrow> pubsub list \<Rightarrow> 'w handler" where
  "delete_each env hi [] s = Some (Inr s)"
| "delete_each env hi (ps # rest) s = run_then (delete_pubsub env hi ps s) (delete_each env hi rest)"

text \<open>The destructor queues \<^verbatim>\<open>cleanupRedisContext\<close> in the loops it returns; then the members go.\<close>

definition delete_server :: "chat_codec \<Rightarrow> 'w outside \<Rightarrow> 'w server \<Rightarrow> (nat list \<times> 'w server) run" where
  "delete_server env hi s =
     run_then (delete_each env hi (redis_pubsubs s) s) (\<lambda>s'. Some (Inr (loops s, s'\<lparr>redis_pubsubs := []\<rparr>)))"

lemma join_never_returns:
  assumes "\<not> stop_flag ps" shows "join_listener env hi ps s \<noteq> Some (Inr s')"
proof -
  have "\<not> stop_flag ps \<longrightarrow> isl r" if "join_listener env hi ps s = Some r" for r s
  proof (rule join_listener.raw_induct [OF _ that, of "\<lambda>env hi ps s r. \<not> stop_flag ps \<longrightarrow> isl r"])
    fix join env hi ps s r
    assume "\<And>env hi ps s r. join env hi ps s = Some r \<Longrightarrow> \<not> stop_flag ps \<longrightarrow> isl r"
      and "(if stop_flag ps then Some (Inr s)
        else run_then (server_listener_turn env hi ps s) (join env hi ps)) = Some r"
    then show "\<not> stop_flag ps \<longrightarrow> isl r" by (auto simp: run_then_def split: option.splits sum.splits)
  qed
  then show ?thesis using assms by fastforce
qed

text \<open>
  As nothing in the server calls \<^verbatim>\<open>stop\<close>, its destructor does not return: it waits for the listener of
  the first instance.
\<close>

lemma server_never_destroyed:
  assumes "\<forall>ps \<in> set (redis_pubsubs s). \<not> stop_flag ps" and "redis_pubsubs s \<noteq> []"
  shows "delete_server env hi s \<noteq> Some (Inr r)"
  using assms
  by (cases "redis_pubsubs s") (auto simp: delete_server_def delete_pubsub_def run_then_Inr_iff join_never_returns)

end
