(* ===== verification/Pubsub_Opening.thy ===== *)
theory Pubsub_Opening
  imports Pubsub_Properties
begin

text \<open>
  Connections opened on demand. Where every attempt to connect gives a connection that works, each
  operation of the channel returns successfully from any thread, also from one that has not published
  before and opens its connection then.
\<close>

section \<open>Model of the environment\<close>

definition connects :: "'w outside \<Rightarrow> ('w \<Rightarrow> view) \<Rightarrow> bool" where
  "connects hi view \<longleftrightarrow>
     (\<forall>h p w. \<exists>c w'. redisConnect hi h p w = (Some c, w') \<and> c \<in> v_up (view w'))"

locale open_redis = redis_laws hi view unwritten
  for hi :: "'w outside" and view :: "'w \<Rightarrow> view" and unwritten :: "'w \<Rightarrow> ctx \<Rightarrow> nat" +
  assumes connects: "connects hi view"

text \<open>The connections that a thread has opened work.\<close>

definition open_map :: "('w \<Rightarrow> view) \<Rightarrow> context_map \<Rightarrow> 'w \<Rightarrow> bool" where
  "open_map view cmap w \<longleftrightarrow>
     (\<forall>k x. map_of cmap k = Some x \<longrightarrow> (\<exists>c. x = Some c \<and> c \<in> v_up (view w)))"

lemma open_map_Nil [simp]: "open_map view [] w"
  by (simp add: open_map_def)

lemma open_map_mono:
  "open_map view cmap w \<Longrightarrow> v_up (view w) \<subseteq> v_up (view w') \<Longrightarrow> open_map view cmap w'"
  by (fastforce simp: open_map_def)

lemma open_map_update:
  "open_map view cmap w \<Longrightarrow> c \<in> v_up (view w) \<Longrightarrow> open_map view (AList.update k (Some c) cmap) w"
  by (simp add: open_map_def update_conv')

section \<open>The operations\<close>

context open_redis
begin

lemma connect_up:
  obtains c w' where "redisConnect hi h p w = (Some c, w')" and "c \<in> v_up (view w')"
    and "v_up (view w) \<subseteq> v_up (view w')" and "v_waits (view w') = v_waits (view w)"
proof -
  obtain c w' where c: "redisConnect hi h p w = (Some c, w')" "c \<in> v_up (view w')"
    using connects unfolding connects_def by blast
  note l = connect [OF c(1)]
  then have "v_waits (view w') = v_waits (view w)" by (metis view.select_convs(5) view.update_convs(4) view.surjective)
  then show thesis using that [OF c] l by blast
qed

lemma publish_opens:
  assumes "open_map view cmap w"
  shows "\<exists>cmap' w'. publish hi ps ch msg (cmap, w) = Some (Inr (True, cmap', w'))
     \<and> open_map view cmap' w' \<and> v_up (view w) \<subseteq> v_up (view w') \<and> v_waits (view w') = v_waits (view w)"
proof (cases "map_of cmap (this ps)")
  case None
  obtain c w1 where c: "redisConnect hi (c_str (host ps)) (port ps) w = (Some c, w1)" "c \<in> v_up (view w1)"
    "v_up (view w) \<subseteq> v_up (view w1)" "v_waits (view w1) = v_waits (view w)" by (rule connect_up)
  from publish_first [OF None c(1,2)] obtain w' where w':
    "publish hi ps ch msg (cmap, w) = Some (Inr (True, AList.update (this ps) (Some c) cmap, w'))"
    "view w' = flushed c (PUBLISH (c_str ch) (c_str msg)) (view w1)" by blast
  have "v_up (view w) \<subseteq> v_up (view w')" "c \<in> v_up (view w')" "v_waits (view w') = v_waits (view w)"
    using c w'(2) by simp_all
  then show ?thesis using w'(1) assms by (blast intro: open_map_update open_map_mono)
next
  case (Some x)
  then obtain c where c: "map_of cmap (this ps) = Some (Some c)" "c \<in> v_up (view w)"
    using assms by (auto simp: open_map_def)
  from publish_up [OF c] obtain w' where w': "publish hi ps ch msg (cmap, w) = Some (Inr (True, cmap, w'))"
    "view w' = flushed c (PUBLISH (c_str ch) (c_str msg)) (view w)" by blast
  then show ?thesis using assms by (auto intro: open_map_mono)
qed

lemma lock_loop_opens:
  "open_map view cmap w \<Longrightarrow> \<exists>cmap' w'. lock_loop hi ps (cmap, w) = Some (Inr (cmap', w'))
     \<and> open_map view cmap' w' \<and> v_up (view w) \<subseteq> v_up (view w')"
proof (induction "v_waits (view w) (this ps)" arbitrary: cmap w rule: less_induct)
  case less
  obtain got w1 where t: "try_lock_for hi (this ps) w = (got, w1)" by (metis surj_pair)
  show ?case
  proof (cases got)
    case True
    then have "view w1 = view w" using lock_granted t by simp
    then show ?thesis using True t less.prems
      by (subst lock_loop.simps) (auto intro: open_map_mono)
  next
    case False
    then obtain n1 where v1: "view w1 = (view w)\<lparr>v_waits := (v_waits (view w))(this ps := n1)\<rparr>"
      "n1 < v_waits (view w) (this ps)" using lock_refused [of "this ps" w w1] t by auto
    then have "open_map view cmap w1" using less.prems by (auto intro: open_map_mono)
    from publish_opens [OF this, of ps unlock_channel "''unlock''"] obtain cmap2 w2 where p:
      "publish hi ps unlock_channel ''unlock'' (cmap, w1) = Some (Inr (True, cmap2, w2))"
      "open_map view cmap2 w2" "v_up (view w1) \<subseteq> v_up (view w2)" "v_waits (view w2) = v_waits (view w1)"
      by blast
    have "v_waits (view w2) (this ps) < v_waits (view w) (this ps)" using p(4) v1 by simp
    from less.hyps [OF this p(2)] obtain cmap' w' where r: "lock_loop hi ps (cmap2, w2) = Some (Inr (cmap', w'))"
      "open_map view cmap' w'" "v_up (view w2) \<subseteq> v_up (view w')" by blast
    have "lock_loop hi ps (cmap, w) = Some (Inr (cmap', w'))"
      using False t p(1) r(1) by (subst lock_loop.simps) simp
    then show ?thesis using r p(3) v1(1) by auto
  qed
qed

lemma send_locked_opens:
  assumes "open_map view cmap w" and "redis_context ps \<in> v_up (view w)"
  shows "\<exists>cmap' w'. send_locked hi ps cmd (cmap, w) = Some (Inr (True, cmap', w'))
     \<and> open_map view cmap' w' \<and> v_up (view w) \<subseteq> v_up (view w')"
proof -
  from lock_loop_opens [OF assms(1), of ps] obtain cmap' w1 where l:
    "lock_loop hi ps (cmap, w) = Some (Inr (cmap', w1))" "open_map view cmap' w1"
    "v_up (view w) \<subseteq> v_up (view w1)" by blast
  then have "redis_context ps \<in> v_up (view w1)" using assms(2) by blast
  from write_command_up [OF this] obtain w2 where w2:
    "write_loop hi (redis_context ps) (redisAppendCommand hi (redis_context ps) cmd w1) = Some (True, w2)"
    "view w2 = flushed (redis_context ps) cmd (view w1)" by blast
  have "send_locked hi ps cmd (cmap, w) = Some (Inr (True, cmap', mtx_unlock hi (this ps) w2))"
    using l(1) w2(1) by (simp add: send_locked_def)
  moreover have "v_up (view (mtx_unlock hi (this ps) w2)) = v_up (view w1)" by (simp add: unlock w2(2))
  ultimately show ?thesis using l(2,3) by (auto intro: open_map_mono)
qed

lemma new_pubsub_up:
  "\<exists>ps w'. new_pubsub hi n h p w = Some (Inr (ps, w')) \<and> redis_context ps \<in> v_up (view w')
     \<and> v_up (view w) \<subseteq> v_up (view w')"
proof -
  obtain c w1 where c: "redisConnect hi (c_str h) p w = (Some c, w1)" "c \<in> v_up (view w1)"
    "v_up (view w) \<subseteq> v_up (view w1)" by (rule connect_up)
  let ?w = "redisAppendCommand hi c (SUBSCRIBE unlock_channel) w1"
  have "c \<in> v_up (view ?w)" using c(2) by (simp add: append)
  from ctor_write_loop_up [OF this] obtain w2 where w2: "ctor_write_loop hi c ?w = Some w2"
    "v_up (view w2) = v_up (view w1)" by (auto simp: append)
  then show ?thesis using c up_no_err [OF c(2)]
    by (simp add: new_pubsub_def createRedisContext_def)
qed

end

section \<open>An instance\<close>

text \<open>The Redis in memory, accepting every connection.\<close>

definition mem_accept :: "string \<Rightarrow> int \<Rightarrow> mem \<Rightarrow> ctx option \<times> mem" where
  "mem_accept h p w = mem_connect h p
     (w\<lparr>m_refusing := False, m_next := foldr max (map Suc (m_broken w)) (m_next w)\<rparr>)"

definition mem_accepting :: "mem outside" where
  "mem_accepting = mem_hi\<lparr>redisConnect := mem_accept\<rparr>"

lemma mem_accepting_simps [simp]:
  "redisConnect mem_accepting = mem_accept" "redis_err mem_accepting = redis_err mem_hi"
  "redisCommand mem_accepting = redisCommand mem_hi"
  "redisAppendCommand mem_accepting = redisAppendCommand mem_hi"
  "redisBufferWrite mem_accepting = redisBufferWrite mem_hi"
  "try_lock_for mem_accepting = try_lock_for mem_hi" "mtx_unlock mem_accepting = mtx_unlock mem_hi"
  by (simp_all add: mem_accepting_def)

lemma mem_accept_law:
  assumes "mem_accept h p w = (r, w')"
  shows "mem_view w' = (mem_view w)\<lparr>v_up := v_up (mem_view w')\<rparr> \<and> v_up (mem_view w) \<subseteq> v_up (mem_view w')
     \<and> (\<forall>c. r = Some c \<longrightarrow> v_pending (mem_view w) c = [])"
proof -
  let ?w = "w\<lparr>m_refusing := False, m_next := foldr max (map Suc (m_broken w)) (m_next w)\<rparr>"
  have "mem_view ?w = (mem_view w)\<lparr>v_up := v_up (mem_view ?w)\<rparr>" by (rule mem_view_frame) simp_all
  moreover have "v_up (mem_view w) \<subseteq> v_up (mem_view ?w)"
    using foldr_max_ge(1) [of "m_next w" "map Suc (m_broken w)"] by (auto simp: mem_view_def mem_ok_def)
  moreover have "v_pending (mem_view ?w) = v_pending (mem_view w)" by (simp add: mem_view_def mem_pending_def fun_eq_iff)
  moreover note l = mem_connect_law [OF assms [unfolded mem_accept_def]]
  moreover have "(mem_view ?w)\<lparr>v_up := v_up (mem_view w')\<rparr> = (mem_view w)\<lparr>v_up := v_up (mem_view w')\<rparr>"
    by (subst calculation(1)) simp
  ultimately show ?thesis by auto
qed

lemma connects_accepting: "connects mem_accepting mem_view"
  unfolding connects_def
proof (intro allI)
  fix h :: string and p :: int and w :: mem
  let ?n = "foldr max (map Suc (m_broken w)) (m_next w)"
  let ?c = "foldr max (map (Suc \<circ> fst) (m_out w)) ?n"
  have "b < ?n" if "b \<in> set (m_broken w)" for b
    using foldr_max_ge(2) [of "Suc b" "map Suc (m_broken w)" "m_next w"] that by force
  moreover have "?n \<le> ?c" by (rule foldr_max_ge)
  ultimately have "?c \<notin> set (m_broken w)" by force
  then have "?c \<in> v_up (mem_view (snd (mem_accept h p w)))" "fst (mem_accept h p w) = Some ?c"
    by (simp_all add: mem_accept_def mem_connect_def Let_def mem_view_def mem_ok_def)
  then show "\<exists>c w'. redisConnect mem_accepting h p w = (Some c, w') \<and> c \<in> v_up (mem_view w')"
    by (metis mem_accepting_simps(1) prod.collapse)
qed

lemma redis_laws_accepting: "redis_laws mem_accepting mem_view (\<lambda>w. count_of (m_left w))"
  unfolding redis_laws_def mem_accepting_simps
  by (insert memory.redis_laws_axioms, unfold redis_laws_def, elim conjE, intro conjI;
      (assumption | intro allI impI, rule mem_accept_law, assumption))

interpretation accepting: open_redis mem_accepting mem_view "\<lambda>w. count_of (m_left w)"
  by (intro open_redis.intro open_redis_axioms.intro redis_laws_accepting connects_accepting)

end
