(* ===== verification/Server_Service.thy ===== *)
theory Server_Service
  imports Server_Groups Server_Messages Server_Main Serving Pubsub_Opening
begin

text \<open>
  The server starts and keeps serving: over a Redis that works, whatever bytes its clients send, in
  whatever pieces and order, and however they come and go, every input is handled to its end and
  leaves the server fit for the next. The proof is a small calculus of runs that keep an invariant,
  one rule for each thing a handler does.
\<close>

section \<open>Fitness\<close>

text \<open>
  The connections of the instances work; the threads \<open>T\<close> have theirs, the ones to publish over as far
  as they are opened, and their turns at publishing are in range.
\<close>

definition serving :: "('w \<Rightarrow> view) \<Rightarrow> nat set \<Rightarrow> 'w server \<Rightarrow> bool" where
  "serving view T s \<longleftrightarrow> (\<forall>ps \<in> set (redis_pubsubs s). redis_context ps \<in> v_up (view (world s)))
     \<and> (\<forall>t \<in> T. redis_up view t s \<and> open_map view (context_map (thread s t)) (world s)
          \<and> (redis_pubsubs s = [] \<or> publish_index (thread s t) < length (redis_pubsubs s)))"

lemma serving_cong:
  assumes "serving view T s" and "redis_pubsubs s' = redis_pubsubs s"
    and "\<And>t. redis_ctx (thread s' t) = redis_ctx (thread s t)"
    and "\<And>t. context_map (thread s' t) = context_map (thread s t)
      \<or> open_map view (context_map (thread s' t)) (world s')"
    and "\<And>t. publish_index (thread s' t) = publish_index (thread s t)
      \<or> publish_index (thread s' t) < length (redis_pubsubs s)"
    and "v_up (view (world s)) \<subseteq> v_up (view (world s'))"
  shows "serving view T s'"
  unfolding serving_def
proof (intro conjI ballI)
  show "redis_context ps \<in> v_up (view (world s'))" if "ps \<in> set (redis_pubsubs s')" for ps
    using assms(1,2,6) that by (auto simp: serving_def)
  fix t assume t: "t \<in> T"
  with assms(1) have o: "redis_up view t s" "open_map view (context_map (thread s t)) (world s)"
    "redis_pubsubs s = [] \<or> publish_index (thread s t) < length (redis_pubsubs s)"
    by (simp_all add: serving_def)
  show "redis_up view t s'" using o(1) assms(3) [of t] assms(6) by (auto simp: redis_up_def)
  show "open_map view (context_map (thread s' t)) (world s')"
    using open_map_mono [OF o(2) assms(6)] assms(4) [of t] by auto
  show "redis_pubsubs s' = [] \<or> publish_index (thread s' t) < length (redis_pubsubs s')"
    using o(3) assms(2) assms(5) [of t] by auto
qed

lemma serving_updates [simp]:
  "serving view T (s\<lparr>outputs := out\<rparr>) = serving view T s"
  "serving view T (s\<lparr>online_users := us\<rparr>) = serving view T s"
  "serving view T (s\<lparr>loop_tasks := lt\<rparr>) = serving view T s"
  "serving view T (s\<lparr>pool_tasks := pt\<rparr>) = serving view T s"
  "serving view T (on_thread t (\<lambda>l. l\<lparr>LocalConnections := f l\<rparr>) s) = serving view T s"
  by (auto simp: serving_def redis_up_def on_thread_def)

lemma codec_send_serves:
  assumes "protobuf_env env valid" and "short_names env" and "serving view T s"
  shows "serves env (codec_send env c m s) (serving view T)"
  unfolding codec_send_def by (rule serves_then [OF send_serves [OF assms(1,2)]]) (simp add: assms(3))

section \<open>The rules\<close>

text \<open>A service: Redis, Protocol Buffers, and the threads that have connections.\<close>

locale service = open_redis hi view unwritten + protobuf_env env valid
  for hi :: "'w outside" and view :: "'w \<Rightarrow> view" and unwritten :: "'w \<Rightarrow> ctx \<Rightarrow> nat"
    and env :: chat_codec and valid :: "chat_msg \<Rightarrow> bool" +
  fixes T :: "nat set"
  assumes short: "short_names env"
begin

abbreviation fit :: "'w server \<Rightarrow> bool" where
  "fit \<equiv> serving view T"

lemma codec_send_fit: "fit s \<Longrightarrow> serves env (codec_send env c m s) fit"
  by (rule codec_send_serves [OF protobuf_env_axioms short])

lemma redis_command_fit:
  assumes "fit s" and "t \<in> T" and "well_keyed cmd"
  shows "serves env (redis_command hi t cmd s) (\<lambda>(p, s'). fit s'
     \<and> (\<exists>reply. p = Some reply \<and> db_replies cmd (db_of view s) reply))"
proof -
  from assms(1,2) have "redis_up view t s" by (simp add: serving_def)
  from redis_command_up [OF this assms(3)] show ?thesis
    by (intro serves_returns, elim returns_mono)
      (auto simp: after_command_def intro: serving_cong [OF assms(1)])
qed

lemma server_publish_fit:
  assumes "fit s" and "t \<in> T"
  shows "serves env (server_publish hi t ch m s) (\<lambda>(_, s'). fit s')"
proof (cases "redis_pubsubs s")
  case Nil
  then show ?thesis using assms(1) by (simp add: server_publish_def)
next
  case (Cons ps0 pss)
  let ?ps = "redis_pubsubs s ! publish_index (thread s t)"
  from assms Cons have i: "publish_index (thread s t) < length (redis_pubsubs s)"
    and "open_map view (context_map (thread s t)) (world s)" by (auto simp: serving_def)
  from publish_opens [OF this(2), of ?ps ch m] obtain cmap w where
    p: "publish hi ?ps ch m (context_map (thread s t), world s) = Some (Inr (True, cmap, w))"
    "open_map view cmap w" "v_up (view (world s)) \<subseteq> v_up (view w)" by blast
  let ?s = "next_index t (set_channel t cmap w s)"
  have "server_publish hi t ch m s = Some (Inr (True, ?s))"
    using i p(1) Cons by (simp add: server_publish_def)
  moreover have "fit ?s"
    by (rule serving_cong [OF assms(1)]) (use p Cons in \<open>auto simp: next_index_def set_channel_def on_thread_def\<close>)
  ultimately show ?thesis by simp
qed

lemma locked_each_opens:
  "open_map view cmap w \<Longrightarrow> \<forall>ps \<in> set pss. redis_context ps \<in> v_up (view w) \<Longrightarrow>
     \<exists>cmap' w'. locked_each hi cmd pss (cmap, w) = Some (Inr (cmap', w'))
       \<and> open_map view cmap' w' \<and> v_up (view w) \<subseteq> v_up (view w')"
proof (induction pss arbitrary: cmap w)
  case (Cons ps pss)
  from send_locked_opens [OF Cons.prems(1), of ps cmd] Cons.prems(2) obtain cmap1 w1 where s:
    "send_locked hi ps cmd (cmap, w) = Some (Inr (True, cmap1, w1))" "open_map view cmap1 w1"
    "v_up (view w) \<subseteq> v_up (view w1)" by auto
  from Cons.IH [OF s(2)] Cons.prems(2) s(3) obtain cmap' w' where
    "locked_each hi cmd pss (cmap1, w1) = Some (Inr (cmap', w'))" "open_map view cmap' w'"
    "v_up (view w1) \<subseteq> v_up (view w')" by (meson list.set_intros(2) subsetD)
  with s show ?case by auto
qed auto

lemma locked_each_fit:
  assumes "fit s" and "t \<in> T"
  shows "serves env (run_then (locked_each hi cmd (redis_pubsubs s) (context_map (thread s t), world s))
      (\<lambda>(cmap, w). Some (Inr (set_channel t cmap w s)))) fit"
proof -
  from assms obtain cmap w where w: "locked_each hi cmd (redis_pubsubs s) (context_map (thread s t), world s) =
      Some (Inr (cmap, w))" "open_map view cmap w" "v_up (view (world s)) \<subseteq> v_up (view w)"
    using locked_each_opens [of "context_map (thread s t)" "world s" "redis_pubsubs s" cmd]
    by (auto simp: serving_def)
  have "fit (set_channel t cmap w s)"
    by (rule serving_cong [OF assms(1)]) (use w in \<open>auto simp: set_channel_def on_thread_def\<close>)
  then show ?thesis using w(1) by simp
qed

lemma subscribe_fit:
  assumes "fit s" and "t \<in> T"
  shows "serves env (server_subscribe hi t ch s) fit" "serves env (server_unsubscribe hi t ch s) fit"
  using locked_each_fit [OF assms] by (simp_all add: server_subscribe_def server_unsubscribe_def each_is_locked_each)

end

text \<open>Handlers, in the threads that may run them.\<close>

context service
begin

lemma addUserToOnlineUsers_fit:
  "fit s \<Longrightarrow> getLoop c \<in> T \<Longrightarrow> serves env (addUserToOnlineUsers hi c u s) fit"
  unfolding addUserToOnlineUsers_def
  by (rule serves_then [where P = fit]) (auto intro: subscribe_fit)

lemma removeUserFromOnlineUsers_fit:
  "fit s \<Longrightarrow> getLoop c \<in> T \<Longrightarrow> serves env (removeUserFromOnlineUsers hi c u s) fit"
  by (auto simp: removeUserFromOnlineUsers_def Let_def intro!: subscribe_fit)

lemma logout_fit: "fit s \<Longrightarrow> getLoop c \<in> T \<Longrightarrow> serves env (logout hi c s) fit"
  unfolding logout_def
  by (auto simp: Let_def intro!: removeUserFromOnlineUsers_fit split: option.split)

lemma onLoginRequest_fit:
  assumes "fit s" and "getLoop c \<in> T"
  shows "serves env (onLoginRequest env hi c m s) fit"
  unfolding onLoginRequest_def Let_def
proof (rule serves_then [OF redis_command_fit [OF assms]], simp, clarify)
  fix reply s1
  assume s1: "fit s1" and "db_replies (HGET ''users'' (c_str (cr_username m))) (db_of view s) reply"
  then obtain p where "(if rtype reply \<noteq> REDIS_REPLY_NIL then string_of (str reply) else Inr '''') = Inr p"
    by (auto simp: string_of_def split: option.splits)
  then show "serves env (run_then (deref (Some reply)) (\<lambda>reply.
      run_then (Some (if rtype reply \<noteq> REDIS_REPLY_NIL then string_of (str reply) else Inr '''')) (\<lambda>storedPassword.
        if storedPassword \<noteq> '''' \<and> storedPassword = cr_password m
        then run_then (addUserToOnlineUsers hi c (cr_username m)
            (on_thread (getLoop c) (\<lambda>l. l\<lparr>LocalConnections := reg_add (cr_username m) c (LocalConnections l)\<rparr>) s1))
          (codec_send env c (login_accepted (cr_username m)))
        else codec_send env c login_refused s1))) fit"
    using s1 assms(2)
    by (simp only: deref_simps run_then_simps)
      (auto intro!: serves_then [OF addUserToOnlineUsers_fit] codec_send_fit)
qed

lemma onLogoutRequest_fit: "fit s \<Longrightarrow> getLoop c \<in> T \<Longrightarrow> serves env (onLogoutRequest env hi c m s) fit"
  unfolding onLogoutRequest_def by (rule serves_then [OF logout_fit]) (auto intro: codec_send_fit)

lemma onRegisterRequest_fit:
  "fit s \<Longrightarrow> getLoop c \<in> T \<Longrightarrow> serves env (onRegisterRequest env hi c m s) fit"
  unfolding onRegisterRequest_def
  by (auto intro!: codec_send_fit serves_then [OF redis_command_fit])

lemma onSearchRequest_fit:
  assumes "fit s" and "getLoop c \<in> T"
  shows "serves env (onSearchRequest env hi c m s) fit"
  unfolding onSearchRequest_def using assms
  by (auto simp: strings_of_replies intro!: codec_send_fit serves_then [OF redis_command_fit])

end

context service
begin

lemma group_add_fit:
  "fit s \<Longrightarrow> t \<in> T \<Longrightarrow> serves env (group_add hi t g u s) (\<lambda>(_, s'). fit s')"
  unfolding group_add_def
  by (auto simp: both_one_def intro!: serves_then [OF redis_command_fit])

lemma drop_if_empty_fit:
  "fit s \<Longrightarrow> t \<in> T \<Longrightarrow> k \<noteq> ''users'' \<Longrightarrow> serves env (drop_if_empty hi t k s) fit"
  unfolding drop_if_empty_def
  by (auto intro!: serves_then [OF redis_command_fit])

lemma group_remove_fit:
  "fit s \<Longrightarrow> t \<in> T \<Longrightarrow> serves env (group_remove hi t g u s) (\<lambda>(_, s'). fit s')"
  unfolding group_remove_def
  by (auto simp: both_one_def intro!: serves_then [OF redis_command_fit] serves_then [OF drop_if_empty_fit])

lemma group_operation_fit:
  "fit s \<Longrightarrow> t \<in> T \<Longrightarrow> serves env (group_operation hi t m b s) (\<lambda>(_, s'). fit s')"
  unfolding group_operation_def
  by (cases "gq_operation m")
    (auto intro!: serves_then [OF group_add_fit] serves_then [OF group_remove_fit])

lemma onGroupRequest_fit:
  "fit s \<Longrightarrow> getLoop c \<in> T \<Longrightarrow> serves env (onGroupRequest env hi c m s) fit"
  unfolding onGroupRequest_def Let_def
  by (auto simp: strings_of_replies intro!: codec_send_fit serves_then [OF redis_command_fit]
      serves_then [OF group_operation_fit])

lemma onTextMessage_fit:
  "fit s \<Longrightarrow> getLoop c \<in> T \<Longrightarrow> serves env (onTextMessage env hi c m s) fit"
  unfolding onTextMessage_def
  by (cases "tm_target_type m") (auto intro!: codec_send_fit serves_then [OF server_publish_fit])

lemma publish_to_each_fit:
  "fit s \<Longrightarrow> t \<in> T \<Longrightarrow> serves env (publish_to_each env hi t m (map bulk_reply us) s) fit"
  by (induction us arbitrary: s) (auto simp: string_of_def intro!: serves_then [OF server_publish_fit])

lemma processGroupMessage_fit:
  "fit s \<Longrightarrow> t \<in> T \<Longrightarrow> serves env (processGroupMessage env hi t c g m s) fit"
  unfolding processGroupMessage_def
  by (auto intro!: codec_send_fit serves_then [OF redis_command_fit] serves_then [OF publish_to_each_fit])

lemma server_message_fit:
  "fit s \<Longrightarrow> getLoop c \<in> T \<Longrightarrow> serves env (server_message env hi c m s) fit"
  by (cases m) (auto simp: server_message_cases onUnknownMessageType_def onLoginRequest_fit
      onLogoutRequest_fit onRegisterRequest_fit onTextMessage_fit onSearchRequest_fit onGroupRequest_fit)

lemma server_events_fit:
  "fit s \<Longrightarrow> getLoop c \<in> T \<Longrightarrow> serves env (server_events env hi c evs s) fit"
proof (induction evs arbitrary: s)
  case (Cons ev evs)
  then show ?case
    by (cases ev) (auto intro!: serves_then [OF server_message_fit])
qed simp

lemma send_each_fit: "fit s \<Longrightarrow> serves env (send_each env m cs s) fit"
  by (induction cs arbitrary: s) (auto intro!: serves_then [OF codec_send_fit])

lemma sendTextMessage_fit: "fit s \<Longrightarrow> serves env (sendTextMessage env t u m s) fit"
  unfolding sendTextMessage_def by (auto intro: send_each_fit split: option.split)

lemma onRedisPubSubMessage_fit:
  "fit s \<Longrightarrow> u \<noteq> '''' \<Longrightarrow> serves env (onRedisPubSubMessage env (''user.'' @ u) msg s) fit"
  unfolding onRedisPubSubMessage_def by (auto split: option.split)

end

section \<open>Everything that can happen to a server\<close>

text \<open>
  A connection comes up or goes down, bytes arrive on it, a pool thread takes the next group
  message, a loop takes its next text, a published message comes in. Each connection has the bytes
  that arrived and were not yet consumed.
\<close>

datatype input =
  Up conn
| Down conn
| Arrives conn "byte list"
| PoolRuns nat
| LoopRuns nat
| Published string string

type_synonym 'w running = "(conn \<Rightarrow> byte list) \<times> 'w server"

definition serve_one :: "chat_codec \<Rightarrow> 'w outside \<Rightarrow> input \<Rightarrow> 'w running \<Rightarrow> 'w running run" where
  "serve_one env hi i r = (case r of (buf, s) \<Rightarrow>
     (case i of
        Up c \<Rightarrow> run_then (onConnection hi c True s) (\<lambda>s. Some (Inr (buf(c := []), s)))
      | Down c \<Rightarrow> run_then (onConnection hi c False s) (\<lambda>s. Some (Inr (buf(c := []), s)))
      | Arrives c bytes \<Rightarrow>
          run_then (Some (onMessage env (buf c @ bytes))) (\<lambda>(evs, rest).
            run_then (server_events env hi c evs s) (\<lambda>s. Some (Inr (buf(c := rest), s))))
      | PoolRuns t \<Rightarrow>
          (case pool_tasks s of
             [] \<Rightarrow> Some (Inr (buf, s))
           | (c, g, m) # rest \<Rightarrow>
               run_then (processGroupMessage env hi t c g m (s\<lparr>pool_tasks := rest\<rparr>)) (\<lambda>s. Some (Inr (buf, s))))
      | LoopRuns l \<Rightarrow>
          (case List.extract (\<lambda>task. fst task = l) (loop_tasks s) of
             None \<Rightarrow> Some (Inr (buf, s))
           | Some (before, (_, u, m), after) \<Rightarrow>
               run_then (sendTextMessage env l u m (s\<lparr>loop_tasks := before @ after\<rparr>)) (\<lambda>s. Some (Inr (buf, s))))
      | Published u msg \<Rightarrow>
          run_then (onRedisPubSubMessage env (''user.'' @ u) msg s) (\<lambda>s. Some (Inr (buf, s)))))"

fun serve :: "chat_codec \<Rightarrow> 'w outside \<Rightarrow> input list \<Rightarrow> 'w running \<Rightarrow> 'w running run" where
  "serve env hi [] r = Some (Inr r)"
| "serve env hi (i # is) r = run_then (serve_one env hi i r) (serve env hi is)"

text \<open>Connections belong to threads in \<open>T\<close>, the pool runs in threads of \<open>T\<close>, and channels name a user.\<close>

fun admissible :: "nat set \<Rightarrow> input \<Rightarrow> bool" where
  "admissible T (Up c) = (getLoop c \<in> T)"
| "admissible T (Down c) = (getLoop c \<in> T)"
| "admissible T (Arrives c bytes) = (getLoop c \<in> T)"
| "admissible T (PoolRuns t) = (t \<in> T)"
| "admissible T (LoopRuns l) = True"
| "admissible T (Published u msg) = (u \<noteq> '''')"

context service
begin

lemma serve_one_fit:
  assumes "fit s" and "admissible T i"
  shows "serves env (serve_one env hi i (buf, s)) (\<lambda>(_, s'). fit s')"
proof (cases i)
  case (Arrives c bytes)
  then obtain evs rest where "onMessage env (buf c @ bytes) = Inr (evs, rest)"
    using onMessage_total by blast
  then show ?thesis using assms Arrives
    by (auto simp: serve_one_def intro!: serves_then [OF server_events_fit])
next
  case (Up c)
  then show ?thesis using assms by (simp add: serve_one_def onConnection_def)
next
  case (Down c)
  then show ?thesis using assms
    by (auto simp: serve_one_def onConnection_def intro!: serves_then [OF logout_fit])
next
  case (PoolRuns t)
  then show ?thesis using assms
    by (auto simp: serve_one_def intro!: serves_then [OF processGroupMessage_fit] split: list.split)
next
  case (LoopRuns l)
  then show ?thesis using assms
    by (auto simp: serve_one_def intro!: serves_then [OF sendTextMessage_fit] split: option.split)
next
  case (Published u msg)
  show ?thesis unfolding Published serve_one_def prod.case input.case
    by (rule serves_then [OF onRedisPubSubMessage_fit]) (use assms Published in auto)
qed

lemma serve_fit:
  "fit (snd r) \<Longrightarrow> \<forall>i \<in> set is. admissible T i \<Longrightarrow> serves env (serve env hi is r) (\<lambda>(_, s'). fit s')"
proof (induction "is" arbitrary: r)
  case (Cons i "is")
  obtain buf s where r: "r = (buf, s)" by (cases r)
  have "serves env (serve_one env hi i r) (\<lambda>r. fit (snd r))"
    unfolding r by (rule serves_mono [OF serve_one_fit]) (use Cons.prems r in auto)
  then show ?case using Cons.prems(2) by (auto intro: serves_then Cons.IH)
qed auto

end

text \<open>Every input is a sequence of steps.\<close>

lemma server_events_reachable:
  "server_events env hi c evs s = Some (Inr s') \<Longrightarrow> reachable env hi servers w0 s \<Longrightarrow>
     reachable env hi servers w0 s'"
proof (induction evs arbitrary: s)
  case (Cons ev evs)
  show ?case
  proof (cases ev)
    case (Deliver m)
    with Cons show ?thesis by (auto simp: run_then_Inr_iff intro: Cons.IH reachable.step server_step.message)
  next
    case (ErrorCb e)
    let ?s = "if defaultErrorCallback (Some Connected) e = Some Disconnecting
        then s\<lparr>outputs := outputs s @ [Shutdown c]\<rparr> else s"
    have "server_events env hi c [ErrorCb e] s = Some (Inr ?s)" by simp
    then have "reachable env hi servers w0 ?s"
      using Cons.prems(2) by (blast intro: reachable.step server_step.rejected)
    then show ?thesis using Cons.IH [of ?s] Cons.prems(1) ErrorCb by simp
  qed
qed simp

lemma serve_one_reachable:
  assumes "serve_one env hi i (buf, s) = Some (Inr (buf', s'))" and r: "reachable env hi servers w0 s"
  shows "reachable env hi servers w0 s'"
proof (cases i)
  case (Arrives c bytes)
  then show ?thesis using assms
    by (auto simp: serve_one_def run_then_Inr_iff intro: server_events_reachable)
next
  case (LoopRuns l)
  show ?thesis
  proof (cases "List.extract (\<lambda>task. fst task = l) (loop_tasks s)")
    case (Some x)
    obtain before t u m "after" where x: "x = (before, (t, u, m), after)" by (cases x) auto
    have e: "loop_tasks s = before @ (l, u, m) # after" "l \<notin> fst ` set before"
      using Some by (force simp: x dest!: extract_SomeE)+
    then show ?thesis using assms LoopRuns Some x
      by (auto simp: serve_one_def run_then_Inr_iff intro: reachable.step server_step.loop_task)
  qed (use assms LoopRuns in \<open>simp add: serve_one_def\<close>)
next
  case (PoolRuns t)
  show ?thesis
  proof (cases "pool_tasks s")
    case (Cons task rest)
    obtain c g m where task: "task = (c, g, m)" by (cases task)
    have "processGroupMessage env hi t c g m (s\<lparr>pool_tasks := rest\<rparr>) = Some (Inr s')"
      using assms PoolRuns Cons task by (auto simp: serve_one_def run_then_Inr_iff)
    with Cons task show ?thesis by (blast intro: reachable.step [OF r] server_step.pool_task)
  qed (use assms PoolRuns in \<open>simp add: serve_one_def\<close>)
qed (use assms in \<open>auto simp: serve_one_def run_then_Inr_iff
      intro: reachable.step server_step.connection server_step.published\<close>)

lemma serve_reachable:
  "serve env hi is r = Some (Inr r') \<Longrightarrow> reachable env hi servers w0 (snd r) \<Longrightarrow>
     reachable env hi servers w0 (snd r')"
  by (induction "is" arbitrary: r) (auto simp: run_then_Inr_iff, metis prod.collapse serve_one_reachable)


interpretation accepting_service:
  service mem_accepting mem_view "\<lambda>w. count_of (m_left w)" chat_env "\<lambda>_. True" "{0, 1, 2, 3}"
  by (intro service.intro service_axioms.intro accepting.open_redis_axioms chat.protobuf_env_axioms
      short_names_chat)


section \<open>The start\<close>

text \<open>Before the threads serve: every connection a thread holds works, and nobody has published.\<close>

definition starting :: "('w \<Rightarrow> view) \<Rightarrow> 'w server \<Rightarrow> bool" where
  "starting view s \<longleftrightarrow> (\<forall>ps \<in> set (redis_pubsubs s). redis_context ps \<in> v_up (view (world s)))
     \<and> (\<forall>t. context_map (thread s t) = [] \<and> publish_index (thread s t) = 0
          \<and> (\<forall>c. redis_ctx (thread s t) = Some c \<longrightarrow> c \<in> v_up (view (world s))))"

lemma starting_serving:
  "starting view s \<Longrightarrow> \<forall>t \<in> T. redis_up view t s \<Longrightarrow> serving view T s"
  by (auto simp: starting_def serving_def)

context open_redis
begin

lemma initRedisContext_up:
  assumes "starting view s"
  shows "\<exists>s'. initRedisContext hi t s = Some (Inr s') \<and> starting view s' \<and> redis_up view t s'
     \<and> (\<forall>t'. redis_up view t' s \<longrightarrow> redis_up view t' s')"
proof (cases "redis_ctx (thread s t)")
  case None
  obtain c w where c: "redisConnect hi ''127.0.0.1'' 6379 (world s) = (Some c, w)" "c \<in> v_up (view w)"
    "v_up (view (world s)) \<subseteq> v_up (view w)" by (rule connect_up)
  let ?s = "on_thread t (\<lambda>l. l\<lparr>redis_ctx := Some c\<rparr>) (s\<lparr>world := w\<rparr>)"
  have "initRedisContext hi t s = Some (Inr ?s)"
    using None c(1) up_no_err [OF c(2)] by (simp add: initRedisContext_def)
  moreover have "starting view ?s" using assms c(2,3) by (auto simp: starting_def on_thread_def)
  moreover have "redis_up view t ?s" using c(2) by (simp add: redis_up_def)
  moreover have "redis_up view t' ?s" if "redis_up view t' s" for t'
    using that c(2,3) by (auto simp: redis_up_def on_thread_def)
  ultimately show ?thesis by blast
next
  case (Some c)
  then have "redis_up view t s" using assms by (auto simp: starting_def redis_up_def)
  with Some assms show ?thesis by (simp add: initRedisContext_def)
qed

lemma init_each_up:
  "starting view s \<Longrightarrow> \<exists>s'. init_each hi ts s = Some (Inr s') \<and> starting view s'
     \<and> (\<forall>t. redis_up view t s \<or> t \<in> set ts \<longrightarrow> redis_up view t s')"
proof (induction ts arbitrary: s)
  case (Cons t ts)
  from initRedisContext_up [OF Cons.prems, of t] obtain s1 where 1: "initRedisContext hi t s = Some (Inr s1)"
    "starting view s1" "redis_up view t s1" "\<forall>t'. redis_up view t' s \<longrightarrow> redis_up view t' s1" by blast
  from Cons.IH [OF 1(2)] 1 show ?case by fastforce
qed simp

lemma thread_init_each_up:
  "starting view s \<Longrightarrow> \<exists>s'. thread_init_each hi ts s = Some (Inr s') \<and> starting view s'
     \<and> (\<forall>t. redis_up view t s \<or> t \<in> set ts \<longrightarrow> redis_up view t s')"
proof (induction ts arbitrary: s)
  case (Cons t ts)
  from initRedisContext_up [OF Cons.prems, of t] obtain s1 where 1: "initRedisContext hi t s = Some (Inr s1)"
    "starting view s1" "redis_up view t s1" "\<forall>t'. redis_up view t' s \<longrightarrow> redis_up view t' s1" by blast
  have "starting view (s1\<lparr>loops := List.insert t (loops s1)\<rparr>)" using 1(2) by (simp add: starting_def)
  from Cons.IH [OF this] 1 show ?case by (fastforce simp: threadInit_def redis_up_def)
qed simp

lemma new_pubsubs_up:
  "\<exists>pss w'. new_pubsubs hi n servers w = Some (Inr (pss, w')) \<and> v_up (view w) \<subseteq> v_up (view w')
     \<and> (\<forall>ps \<in> set pss. redis_context ps \<in> v_up (view w'))"
proof (induction servers arbitrary: n w)
  case (Cons i servers)
  from new_pubsub_up obtain ps w1 where 1: "new_pubsub hi n (rc_host i) (rc_port i) w = Some (Inr (ps, w1))"
    "redis_context ps \<in> v_up (view w1)" "v_up (view w) \<subseteq> v_up (view w1)" by blast
  from Cons.IH [of "Suc n" w1] obtain pss w2 where "new_pubsubs hi (Suc n) servers w1 = Some (Inr (pss, w2))"
    "v_up (view w1) \<subseteq> v_up (view w2)" "\<forall>ps \<in> set pss. redis_context ps \<in> v_up (view w2)" by blast
  with 1 show ?case by auto
qed simp

lemma server_main_up:
  assumes "4 < length argv" and "0 \<le> atoi (argv ! 2)"
  defines "n \<equiv> nat (atoi (argv ! 2))"
  shows "\<exists>s. server_main hi argv w = Some (Inr (Some s))
     \<and> serving view (set (io_loops n) \<union> {n + 1, n + 2}) s"
proof -
  from new_pubsubs_up [of 0 "redis_servers_of (drop 3 argv)" w] obtain s0 where
    0: "ChatServer hi (redis_servers_of (drop 3 argv)) w = Some (Inr s0)" "starting view s0"
    by (auto simp: ChatServer_def starting_def new_thread_def)
  from init_each_up [OF 0(2), of "[n + 1, n + 2]"] obtain s1 where
    1: "init_each hi [n + 1, n + 2] s0 = Some (Inr s1)" "starting view s1"
      "\<forall>t \<in> {n + 1, n + 2}. redis_up view t s1" by (metis insertI1 insertI2 list.set)
  from thread_init_each_up [OF 1(2), of "io_loops n"] obtain s2 where
    2: "thread_init_each hi (io_loops n) s1 = Some (Inr s2)" "starting view s2"
      "\<forall>t. redis_up view t s1 \<or> t \<in> set (io_loops n) \<longrightarrow> redis_up view t s2" by blast
  have "server_main hi argv w = Some (Inr (Some s2))"
    using assms(1,2) 0(1) 1(1) 2(1) unfolding n_def
    by (simp add: server_main_def start_server_def del: init_each.simps)
  moreover have "serving view (set (io_loops n) \<union> {n + 1, n + 2}) s2"
    using 1(3) 2(3) by (intro starting_serving [OF 2(2)]) blast
  ultimately show ?thesis by blast
qed

end

section \<open>Properties\<close>

text \<open>The threads of a server with the arguments: its loops and the two of its pool.\<close>

definition threads_of :: "string list \<Rightarrow> nat set" where
  "threads_of argv = (let n = nat (atoi (argv ! 2)) in set (io_loops n) \<union> {n + 1, n + 2})"



definition sample_argv :: "string list" where
  "sample_argv = [''server'', ''9000'', ''1'', ''127.0.0.1'', ''6379'']"

text \<open>A connection that sends a length below the least, in two pieces, between other inputs.\<close>

definition sample_inputs :: "input list" where
  "sample_inputs = [Up sample_conn, Arrives sample_conn [0, 0, 0], Published ''ann'' ''hi'',
     Arrives sample_conn [1, 2, 3, 4, 5], PoolRuns 2, LoopRuns 1, Down sample_conn]"


end
