(* ===== verification/Client_Service.thy ===== *)
theory Client_Service
  imports Client_Properties Serving
begin

text \<open>
  The whole client, from its command line on: the user's lines and the server's bytes in any order
  and pieces, and the connection coming and going. Every input is handled to its end.
\<close>

section \<open>The program\<close>

text \<open>
  \<^verbatim>\<open>main\<close>: the address of the server and the client that connects to it; \<open>None\<close> is the usage message.
\<close>

definition client_main :: "string list \<Rightarrow> ((string \<times> int) \<times> client) option run" where
  "client_main argv =
     (if 2 < length argv then
        run_then ChatClient (\<lambda>client.
          Some (Inr (Some ((argv ! 1, uint (word_of_int (atoi (argv ! 2)) :: 16 word)), client))))
      else Some (Inr None))"

text \<open>What can happen to a client; a connection has the bytes that arrived and were not yet consumed.\<close>

datatype client_input = Typed string | Opens conn | Closes conn | Receives conn "byte list"

type_synonym client_running = "(conn \<Rightarrow> byte list) \<times> client"

definition client_one :: "chat_codec \<Rightarrow> client_input \<Rightarrow> client_running \<Rightarrow> client_running run" where
  "client_one env i r = (case r of (buf, s) \<Rightarrow>
     (case i of
        Typed line \<Rightarrow> run_then (client_line env line s) (\<lambda>s. Some (Inr (buf, s)))
      | Opens c \<Rightarrow> run_then (client_onConnection c True s) (\<lambda>s. Some (Inr (buf(c := []), s)))
      | Closes c \<Rightarrow> run_then (client_onConnection c False s) (\<lambda>s. Some (Inr (buf(c := []), s)))
      | Receives c bytes \<Rightarrow>
          run_then (Some (onMessage env (buf c @ bytes))) (\<lambda>(evs, rest).
            run_then (client_events env c evs s) (\<lambda>s. Some (Inr (buf(c := rest), s))))))"

fun client_serve :: "chat_codec \<Rightarrow> client_input list \<Rightarrow> client_running \<Rightarrow> client_running run" where
  "client_serve env [] r = Some (Inr r)"
| "client_serve env (i # is) r = run_then (client_one env i r) (client_serve env is)"

section \<open>UTF-8\<close>

text \<open>The string fields of a message.\<close>

fun strings_in :: "chat_msg \<Rightarrow> string list" where
  "strings_in (TextMessage m) = [tm_sender m, tm_content m, tm_target m]"
| "strings_in (TextMessageResponse m) = [st_error_message m]"
| "strings_in (LoginRequest m) = [cr_username m, cr_password m]"
| "strings_in (LoginResponse m) = [lr_username m, lr_error_message m]"
| "strings_in (LogoutRequest u) = [u]"
| "strings_in (LogoutResponse m) = [st_error_message m]"
| "strings_in (RegisterRequest m) = [cr_username m, cr_password m]"
| "strings_in (RegisterResponse m) = [st_error_message m]"
| "strings_in (SearchRequest m) = [sq_keyword m]"
| "strings_in (SearchResponse us) = us"
| "strings_in (GroupRequest m) = [gq_group_name m, gq_username m]"
| "strings_in (GroupResponse m) = gr_error_message m # gr_joined_groups m"

definition utf8_message :: "chat_msg \<Rightarrow> bool" where
  "utf8_message m \<longleftrightarrow> (\<forall>s \<in> set (strings_in m). utf8_to_utf32 s \<noteq> None)"

section \<open>Every input\<close>

text \<open>The states of a client, whatever the server has confirmed so far.\<close>

definition client_state :: "chat_codec \<Rightarrow> client \<Rightarrow> bool" where
  "client_state env s \<longleftrightarrow> (\<exists>names. client_reach env s names)"

lemma client_state_filter: "client_state env s \<Longrightarrow> make_filter client_words = Some (Inr (ac s))"
  by (auto simp: client_state_def client_reach_ac)

lemma client_state_connection:
  assumes "client_state env s"
  shows "client_state env (s\<lparr>connection := Some c\<rparr>)" "client_state env (s\<lparr>connection := None\<rparr>)"
  using assms client_reach.connection [where up = True and c = c] client_reach.connection [where up = False]
  unfolding client_state_def client_onConnection_def by fastforce+

locale client_service = protobuf_env env utf8_message for env :: chat_codec +
  assumes short: "short_names env"
begin

lemma client_send_serves:
  "connection s \<noteq> None \<Longrightarrow> serves env (client_send env m s) (\<lambda>s'. connection s' \<noteq> None)"
  unfolding client_send_def
  by (auto intro!: serves_then [OF send_serves [OF protobuf_env_axioms short]])

lemma leave_session_serves:
  "connection s \<noteq> None \<Longrightarrow> serves env (leave_session env s) (\<lambda>s'. connection s' \<noteq> None)"
  "connection s \<noteq> None \<Longrightarrow> serves env (cmd_logout env s) (\<lambda>s'. connection s' \<noteq> None)"
  unfolding leave_session_def cmd_logout_def by (auto intro!: serves_then [OF client_send_serves])

lemma processCommand_serves:
  assumes "connection s \<noteq> None"
  shows "serves env (processCommand env line s) (\<lambda>s'. connection s' \<noteq> None)"
proof -
  obtain cmd r1 where n1: "next_word line = (cmd, r1)" by fastforce
  obtain a r2 where n2: "next_word r1 = (a, r2)" by fastforce
  obtain b r3 where n3: "next_word r2 = (b, r3)" by fastforce
  obtain d r4 where n4: "next_word r3 = (d, r4)" by fastforce
  let ?Q = "\<lambda>s'. connection s' \<noteq> None"
  note words = n1 n2 n3 n4
  have "serves env (cmd_login env r1 s) ?Q"
    using assms serves_then [OF leave_session_serves(1) [OF assms] client_send_serves]
    by (simp add: cmd_login_def words del: not_None_eq)
  moreover have "serves env (cmd_group env r1 s) ?Q"
    using assms by (simp add: cmd_group_def words client_send_serves del: not_None_eq split: option.split)
  moreover have "serves env (cmd_register env r1 s) ?Q" "serves env (cmd_send env r1 s) ?Q"
    "serves env (cmd_search env k r1 s) ?Q" for k
    using assms by (simp_all add: cmd_register_def cmd_send_def cmd_search_def words client_send_serves del: not_None_eq)
  ultimately show ?thesis using assms
    by (simp add: processCommand_def n1 leave_session_serves(2) del: not_None_eq)
qed

lemma client_line_state:
  assumes "client_state env s"
  shows "serves env (client_line env line s) (client_state env)"
proof -
  have "serves env (client_line env line s) (\<lambda>_. True)"
    by (auto simp: client_line_def intro: serves_mono [OF processCommand_serves])
  moreover have "post (client_line env line s) (client_state env)"
    using assms by (auto simp: post_def client_state_def intro: client_reach.typed)
  ultimately show ?thesis using serves_post by fastforce
qed

lemma client_message_returns:
  assumes "client_state env s" and "utf8_message m"
  shows "\<exists>s'. client_message c m s = Some (Inr s') \<and> client_state env s'"
proof -
  have "\<exists>s'. client_message c m s = Some (Inr s')"
  proof (cases m)
    case (TextMessage t)
    then obtain cs where cs: "utf8_to_utf32 (tm_content t) = Some cs"
      using assms(2) by (auto simp: utf8_message_def)
    obtain names where "client_reach env s names" using assms(1) by (auto simp: client_state_def)
    from client_reach_shows [OF this cs] TextMessage show ?thesis by blast
  qed (simp_all add: client_message_cases onLoginResponse_def onLogoutResponse_def
      onRegisterResponse_def onTextMessageResponse_def onSearchResponse_def onGroupResponse_def
      client_onUnknownMessageType_def Let_def)
  then show ?thesis using assms(1) by (fastforce simp: client_state_def intro: client_reach.received)
qed

lemma client_events_return:
  "client_state env s \<Longrightarrow> (\<And>m. Deliver m \<in> set evs \<Longrightarrow> utf8_message m) \<Longrightarrow>
     \<exists>s'. client_events env c evs s = Some (Inr s') \<and> client_state env s'"
proof (induction evs arbitrary: s)
  case (Cons ev evs)
  show ?case
  proof (cases ev)
    case (Deliver m)
    with Cons.prems client_message_returns [OF Cons.prems(1), of m c] obtain s1 where
      1: "client_message c m s = Some (Inr s1)" "client_state env s1" by auto
    from Cons.IH [OF 1(2)] Cons.prems(2) 1(1) Deliver show ?thesis by auto
  next
    case (ErrorCb e)
    let ?s = "s\<lparr>effects := effects s @ [Shutdown c]\<rparr>"
    have "client_events env c [ErrorCb e] s = Some (Inr ?s)"
      by (simp add: defaultErrorCallback_def)
    then have "client_state env ?s" using Cons.prems(1)
      unfolding client_state_def by (blast intro: client_reach.rejected)
    from Cons.IH [OF this] Cons.prems(2) ErrorCb show ?thesis by (simp add: defaultErrorCallback_def)
  qed
qed simp

lemma client_one_state:
  assumes "client_state env s"
  shows "serves env (client_one env i (buf, s)) (\<lambda>(_, s'). client_state env s')"
proof (cases i)
  case (Typed line)
  then show ?thesis
    by (auto simp: client_one_def intro!: serves_then [OF client_line_state [OF assms]])
next
  case (Receives c bytes)
  obtain evs rest where o: "onMessage env (buf c @ bytes) = Inr (evs, rest)"
    using onMessage_total by blast
  from client_events_return [OF assms, of evs c] delivered_valid [OF o] obtain s' where
    "client_events env c evs s = Some (Inr s')" "client_state env s'" by blast
  then show ?thesis by (simp add: client_one_def Receives o)
qed (use assms in \<open>auto simp: client_one_def client_onConnection_def client_state_connection\<close>)

lemma client_serve_state:
  "client_state env (snd r) \<Longrightarrow> serves env (client_serve env is r) (\<lambda>(_, s'). client_state env s')"
proof (induction "is" arbitrary: r)
  case (Cons i "is")
  obtain buf s where r: "r = (buf, s)" by (cases r)
  have "serves env (client_one env i r) (\<lambda>r. client_state env (snd r))"
    unfolding r by (rule serves_mono [OF client_one_state]) (use Cons.prems r in auto)
  then show ?case by (auto intro: serves_then Cons.IH)
qed auto

end

section \<open>An instance\<close>

text \<open>The messages of the program under a parser that accepts UTF-8 text only.\<close>

definition strict_env :: chat_codec where
  "strict_env = chat_env\<lparr>pb_parse_from := (\<lambda>p bs. case pb_parse_from chat_env p bs of
     (ok, m) \<Rightarrow> (ok \<and> utf8_message m, m))\<rparr>"

lemma strict_env_simps [simp]:
  "pb_type_name strict_env = pb_type_name chat_env" "pb_initialized strict_env = pb_initialized chat_env"
  "pb_byte_size strict_env = pb_byte_size chat_env" "pb_serialize strict_env = pb_serialize chat_env"
  "pb_find strict_env = pb_find chat_env" "pb_prototype strict_env = pb_prototype chat_env"
  "pb_new strict_env = pb_new chat_env" "z_adler32 strict_env = z_adler32 chat_env"
  by (simp_all add: strict_env_def)

interpretation strict: client_service strict_env
proof
  fix m :: chat_msg and p bs
  show "pb_initialized strict_env m" by (simp add: chat.initialized)
  show "sint (pb_byte_size strict_env m) = int (length (pb_serialize strict_env m))"
    if "length (pb_serialize strict_env m) < 2 ^ 31" using chat.size [of m] that by simp
  show "pb_type_name strict_env m \<noteq> []" by (simp add: chat.name)
  show "\<exists>d p. pb_find strict_env (pb_type_name strict_env m) = Some d
      \<and> pb_prototype strict_env d = Some p
      \<and> pb_parse_from strict_env (pb_new strict_env p) (pb_serialize strict_env m) = (True, m)"
    if "utf8_message m" using chat.find [of m] that by (fastforce simp: strict_env_def)
  show "utf8_message m" if "pb_parse_from strict_env p bs = (True, m)"
    using that by (auto simp: strict_env_def split: prod.splits)
  show "short_names strict_env" using short_names_chat by (simp add: short_names_def)
qed

section \<open>Properties\<close>



end
