(* ===== verification/Spec2Isabelle.thy ===== *)
theory Spec2Isabelle
  imports AC_Automaton Codec_Properties Pubsub_Properties Client_Properties Server_Groups
    Server_Replies Broadcast_Service SSL_Properties Delivery Server_Service Client_Service
begin

text \<open>
  LuminoChat: a chat server over Redis, its console client, a smaller broadcast example, and a TLS
  layer with two programs of its own. This development models their C++ code and proves what makes
  it correct, and records where it is not.

  \<^bold>\<open>The program.\<close> Clients (\<^verbatim>\<open>client.cc\<close>) and servers (\<^verbatim>\<open>server.cc\<close>) exchange Protocol Buffers messages
  (\<^verbatim>\<open>chat.proto\<close>) in checksummed frames (\<^verbatim>\<open>codec.h\<close>, \<^verbatim>\<open>codec.cc\<close>); a dispatcher (\<^verbatim>\<open>dispatcher.h\<close>) hands
  each message to the handler of its type. A server keeps, per event loop, the connections of the
  users logged in, and, shared, the loops of each user online; users and groups are data in Redis. A
  text is published on the channel of its target through \<^verbatim>\<open>RedisPubSub\<close> (\<^verbatim>\<open>pubsub.cc\<close>), whose listener
  calls every subscribed server back. The client masks keywords with an Aho-Corasick automaton
  (\<^verbatim>\<open>ACAutomaton.cc\<close>) before it prints. \<^verbatim>\<open>simple_broadcast/\<close> is a server without Redis, with its users
  in a map that is copied on writing, and a client for it. \<^verbatim>\<open>SSL_Helper.cpp\<close> runs OpenSSL between
  memory BIOs for \<^verbatim>\<open>ssl_server.cpp\<close> and \<^verbatim>\<open>ssl_client.cpp\<close>.

  \<^bold>\<open>The theories.\<close>
  \<^item> \<open>Chat_Prelude\<close>: runs that may not return or may fault, C strings, substring search, hash maps of
    hash sets as association lists.
  \<^item> \<open>Utf8\<close>, \<open>AC_Trie\<close>, \<open>AC_Build\<close>, \<open>AC_Filter\<close>, \<open>AC_Automaton\<close>: the conversions, \<^verbatim>\<open>insert\<close>, \<^verbatim>\<open>build\<close>,
    \<^verbatim>\<open>filter\<close> and the destructor of \<^verbatim>\<open>ACAutomaton\<close>, nodes in a heap of optional pointers. The lemmas relate
    the heap to the set of paths of the trie, the links to longest proper suffixes, and the filter to
    the code points that occurrences cover.
  \<^item> \<open>Codec\<close>, \<open>Codec_Stream\<close>, \<open>Codec_Properties\<close>: \<^verbatim>\<open>fillEmptyBuffer\<close>, \<^verbatim>\<open>parse\<close>, \<^verbatim>\<open>onMessage\<close>; safety, round
    trip over any cutting of the stream, the layout, and each way to refuse a frame.
  \<^item> \<open>Chat_Messages\<close>, \<open>Dispatcher\<close>, \<open>Network\<close>: the schema with a wire format, registration and typed
    callbacks (locale \<open>typed_message\<close>), sending.
  \<^item> \<open>Redis_Interface\<close>, \<open>Redis_Memory\<close>, \<open>Pubsub\<close>, \<open>Pubsub_Properties\<close>: the calls of hiredis as
    parameters, their documented behaviour as the locale \<open>redis_laws\<close>, an instance in memory, and
    \<^verbatim>\<open>RedisPubSub\<close>.
  \<^item> \<open>Server\<close>: the handlers of \<^verbatim>\<open>ChatServer\<close>. \<open>Server_Frames\<close>: the locale \<open>frame\<close> of relations a handler
    keeps. \<open>Server_Sessions\<close>: the steps of a server, reachable states and the invariant of the tables.
    \<open>Server_Accounts\<close>: logins, registrations and subscriptions. \<open>Server_Groups\<close>: refinement of a
    relation between groups and users. \<open>Server_Messages\<close>: publishing, groups, delivery.
    \<open>Server_Replies\<close>: the type of every answer, and search. \<open>Server_Main\<close>: start and destruction.
    \<open>Pubsub_Opening\<close>, \<open>Server_Service\<close>: the whole server from its command line on, under any inputs; a
    calculus of runs that keep it fit to serve (locale \<open>service\<close>).
  \<^item> \<open>Client\<close>, \<open>Client_Properties\<close>, \<open>Client_Service\<close>: the commands and handlers of \<^verbatim>\<open>ChatClient\<close>
    against an abstract session, and the whole client under any inputs.
  \<^item> \<open>Broadcast_Messages\<close>, \<open>Broadcast_Server\<close>, \<open>Broadcast_Properties\<close>, \<open>Broadcast_Client\<close>,
    \<open>Broadcast_Session\<close>, \<open>Broadcast_Service\<close>: the smaller programs; readers and writers of the user
    map interleave and refine one abstract directory, and the whole server under any schedule.
  \<^item> \<open>Serving\<close>: runs that end and keep an invariant, shared by the three programs under any inputs.
  \<^item> \<open>SSL_Helper\<close>, \<open>SSL_Programs\<close>, \<open>SSL_Session\<close>, \<open>SSL_Properties\<close>: the TLS helper and its programs, the
    behaviour of OpenSSL as the locale \<open>openssl_laws\<close>, and an instance with a null cipher.
  \<^item> \<open>Delivery\<close> and this theory: a text from the line that is typed to the screens it reaches.

  \<^bold>\<open>State.\<close> Handlers are functions from a record of the fields of their class to a run of it. A run is
  \<open>None\<close> if the code does not return, \<open>Some (Inl f)\<close> if it faults and \<open>Some (Inr s)\<close> if it returns; what
  goes out is a list of effects in order. Handlers run under their locks as single steps; where a
  lock is let go in between, there are two steps. Any order of steps is a run of \<open>server_step\<close>, of
  \<open>client_reach\<close> or of \<open>broadcast_moves\<close>.

  \<^bold>\<open>Loops and bounds.\<close> Lengths of the codec are 32-bit words, sizes of the TLS layer 64-bit words cut to
  32 bits where the code passes them for an \<^verbatim>\<open>int\<close>. Loops whose end depends on a library
  (\<open>write_loop\<close>, \<open>lock_loop\<close>, \<open>SSLProcessingSend\<close>, \<open>recv_loop\<close>) are partial functions and their return is
  proved under the laws; the failure chain, the breadth-first search and the decoder are total.
  \<open>publish_round\<close> counts the instances, as the code does; \<open>messageListener\<close> takes the number of turns
  that the stop flag leaves it.

  \<^bold>\<open>Parameters.\<close> Protocol Buffers and zlib (\<open>codec_env\<close>, laws \<open>protobuf_env\<close>, whose parser accepts only
  messages with UTF-8 strings), hiredis with the Redis servers and the timed lock (\<open>outside\<close>, laws
  \<open>redis_laws\<close> and, where every connection must succeed, \<open>connects\<close>), OpenSSL (\<open>openssl\<close>, laws
  \<open>openssl_laws\<close>).
  muduo's loops appear as the steps they run and its connections as the effects on them.

  \<^bold>\<open>Not modelled.\<close> Log lines, clocks and sleeps; the wiring of \<^verbatim>\<open>TcpServer\<close> and \<^verbatim>\<open>TcpClient\<close>,
  which connect, retry and disconnect; the \<^verbatim>\<open>main\<close> functions of the broadcast client, beyond its
  input loop, and of the TLS programs; the text of the certificate in \<^verbatim>\<open>cert.cpp\<close>, which is data; the
  freeing of OpenSSL objects; the test programs, which only drive the classes; the Redis Cluster
  build, which differs in the library called. The files \<^verbatim>\<open>simple_broadcast/codec.*\<close> and
  \<^verbatim>\<open>simple_broadcast/dispatcher.h\<close> repeat those of the chat program.
\<close>

section \<open>From a typed line to a screen\<close>

text \<open>
  C2: a typed text is shown. A user's line \<^verbatim>\<open>send user u content\<close> becomes one frame on the client's
  connection; its server, in whatever pieces the bytes come, reads the message, publishes it once on
  the channel of \<open>u\<close> and confirms it; any server that hands the published bytes to its callback sends
  the frame of the same message to every connection of \<open>u\<close>, once; and a client that receives it
  prints the sender and the content with the keywords masked.
\<close>

theorem typed_text_is_shown:
  assumes "protobuf_env env valid" and "redis_laws hi view unwritten"
    and "connection a = Some ca" and "parse_line line = Text USER u content"
    and "m = typed_text (username a) u content"
    and "can_frame env (TextMessage m)" and "can_frame env text_sent"
    and "int (length (frame_of env (TextMessage m))) \<le> kMaxMessageLen + kHeaderLen"
    and "ParseFromString env (SerializeAsString env m) = Some m"
    and "nul_free (SerializeAsString env m)" and "nul_free u" and "u \<noteq> ''''"
    and "channels_up view (getLoop c) s"
    and "publish_index (thread s (getLoop c)) < length (redis_pubsubs s)"
    and "reachable env hi servers w0 s'"
    and "client_reach env b names" and "utf8_to_utf32 content = Some cs"
    and "concat pieces = frame_of env (TextMessage m)" and "valid (TextMessage m)"
  shows "\<exists>a' s1 p t1 t2 tasks ds b' r.
       client_line env line a = Some (Inr a') \<and> effects a' = effects a @ [Send ca (concat pieces)]
     \<and> feed env [] pieces = Inr ([Deliver (TextMessage m)], [])
     \<and> server_message env hi c (TextMessage m) s = Some (Inr s1)
     \<and> outputs s1 = outputs s @ framed env c [text_sent]
     \<and> v_sent (view (world s1)) = v_sent (view (world s)) @ [(p, PUBLISH (''user.'' @ u) (SerializeAsString env m))]
     \<and> onRedisPubSubMessage env (''user.'' @ u) (SerializeAsString env m) s' = Some (Inr t1)
     \<and> loop_tasks t1 = loop_tasks s' @ tasks \<and> run_tasks env tasks t1 = Some (Inr t2)
     \<and> outputs t2 = outputs s' @ map (\<lambda>d. Send d (concat pieces)) ds \<and> distinct ds
     \<and> set ds = {d. d \<in> set (reg_members (local_conns s' (getLoop d)) u)}
     \<and> client_message d (TextMessage m) b = Some (Inr b')
     \<and> utf8_to_utf32 r = Some (masked (kwords client_words) cs)
     \<and> screen b' = screen b @ ''<<< private ['' @ c_str (username a) @ ''] '' @ c_str r @ [CHR 0x0A]"
proof -
  let ?msg = "SerializeAsString env m"
  have m: "tm_target_type m = USER" "tm_target m = u" "tm_content m = content" "tm_sender m = username a"
    by (simp_all add: assms(5) typed_text_def)
  from text_typed [OF assms(3,4) assms(6) [unfolded assms(5)]] obtain a' where
    1: "client_line env line a = Some (Inr a')" "effects a' = effects a @ [Send ca (concat pieces)]"
    unfolding assms(18) by (auto simp: assms(5))
  have 2: "feed env [] pieces = Inr ([Deliver (TextMessage m)], [])"
    by (rule frame_decoded [OF assms(1,19,6,8,18)])
  from redis_laws.text_published [OF assms(2,13,14) m(1) assms(7) _ assms(10)] assms(11) obtain s1 p where
    3: "server_message env hi c (TextMessage m) s = Some (Inr s1)"
      "outputs s1 = outputs s @ framed env c [text_sent]"
      "v_sent (view (world s1)) = v_sent (view (world s)) @ [(p, PUBLISH (''user.'' @ u) ?msg)]"
    unfolding m(2) by blast
  from published_delivered [OF reachable_ok [OF assms(15)] assms(12,9,6)] obtain t1 t2 tasks ds where
    4: "onRedisPubSubMessage env (''user.'' @ u) ?msg s' = Some (Inr t1)"
      "loop_tasks t1 = loop_tasks s' @ tasks" "run_tasks env tasks t1 = Some (Inr t2)"
      "distinct ds" "set ds = {d. d \<in> set (reg_members (local_conns s' (getLoop d)) u)}"
      "outputs t2 = outputs s' @ map (\<lambda>d. Send d (concat pieces)) ds"
    unfolding assms(18) by blast
  from client_reach_shows [OF assms(16), of m cs d] assms(17) obtain r b' where
    5: "client_message d (TextMessage m) b = Some (Inr b')"
      "utf8_to_utf32 r = Some (masked (kwords client_words) cs)"
      "screen b' = screen b @ ''<<< private ['' @ c_str (username a) @ ''] '' @ c_str r @ [CHR 0x0A]"
    by (auto simp: m c_str_Cons)
  show ?thesis by (intro exI conjI) (rule 1 2 3 4 5)+
qed

theorem typed_text_is_shown_witness:
  "\<exists>a' s1 s' t1 t2 tasks b b' r.
       client_line chat_env ''send user ann hi'' sample_client = Some (Inr a')
     \<and> server_message chat_env mem_hi sample_conn (TextMessage (typed_text ''ann'' ''ann'' ''hi'')) (sample_server [])
         = Some (Inr s1)
     \<and> outputs s1 = framed chat_env sample_conn [text_sent]
     \<and> sample_once = Some (Inr s')
     \<and> onRedisPubSubMessage chat_env ''user.ann''
         (SerializeAsString chat_env (typed_text ''ann'' ''ann'' ''hi'')) s' = Some (Inr t1)
     \<and> run_tasks chat_env tasks t1 = Some (Inr t2)
     \<and> client_message sample_conn (TextMessage (typed_text ''ann'' ''ann'' ''hi'')) b = Some (Inr b')
     \<and> utf8_to_utf32 r = Some (masked (kwords client_words) [104, 105])
     \<and> screen b' = screen b @ ''<<< private [ann] '' @ c_str r @ [CHR 0x0A]"
proof -
  let ?m = "typed_text ''ann'' ''ann'' ''hi''"
  have c: "connection sample_client = Some (Conn 1 1)" "username sample_client = ''ann''"
    by (simp_all add: sample_client_def)
  have p: "parse_line ''send user ann hi'' = Text USER ''ann'' ''hi''" by code_simp
  have f: "can_frame chat_env (TextMessage ?m)" "can_frame chat_env text_sent" by code_simp+
  have l: "int (length (frame_of chat_env (TextMessage ?m))) \<le> kMaxMessageLen + kHeaderLen" by code_simp
  have r: "ParseFromString chat_env (SerializeAsString chat_env ?m) = Some ?m" by code_simp
  have n: "nul_free (SerializeAsString chat_env ?m)" "nul_free ''ann''" "''ann'' \<noteq> ''''" by code_simp+
  have u: "utf8_to_utf32 ''hi'' = Some [104, 105]"
    by (simp add: utf8_to_utf32_def decode_bytes.simps read_code_point_def)
  obtain s' where s': "sample_once = Some (Inr s')" using sample_once_returns by (rule returnsE)
  obtain b where b: "client_reach chat_env b {}" using client_starts by (blast intro: client_reach.start)
  have i: "publish_index (thread (sample_server []) 1) < length (redis_pubsubs (sample_server []))"
    "outputs (sample_server []) = []" by (simp_all add: sample_server_def)
  have g: "getLoop sample_conn = 1" by (simp add: sample_conn_def)
  have m: "?m = typed_text (username sample_client) ''ann'' ''hi''" by (simp add: c)
  have e: "concat [frame_of chat_env (TextMessage ?m)] = frame_of chat_env (TextMessage ?m)" by simp
  note channels = sample_server_up(2) [folded g] i(1) [folded g]
  from typed_text_is_shown [OF chat.protobuf_env_axioms memory.redis_laws_axioms c(1) p m f l r n
      channels sample_once_reachable [OF s'] b u e TrueI, of sample_conn]
  obtain a' s1 t1 t2 tasks b' r where
    d: "client_line chat_env ''send user ann hi'' sample_client = Some (Inr a')"
      "server_message chat_env mem_hi sample_conn (TextMessage ?m) (sample_server []) = Some (Inr s1)"
      "outputs s1 = outputs (sample_server []) @ framed chat_env sample_conn [text_sent]"
      "onRedisPubSubMessage chat_env (''user.'' @ ''ann'') (SerializeAsString chat_env ?m) s' = Some (Inr t1)"
      "run_tasks chat_env tasks t1 = Some (Inr t2)"
      "client_message sample_conn (TextMessage ?m) b = Some (Inr b')"
      "utf8_to_utf32 r = Some (masked (kwords client_words) [104, 105])"
      "screen b' = screen b @ ''<<< private ['' @ c_str (username sample_client) @ ''] '' @ c_str r @ [CHR 0x0A]"
    by (elim exE conjE) rule
  have "outputs s1 = framed chat_env sample_conn [text_sent]" using d(3) unfolding i(2) append_Nil .
  moreover have "screen b' = screen b @ ''<<< private [ann] '' @ c_str r @ [CHR 0x0A]"
    using d(8) by (simp add: c(2) c_str_Cons)
  moreover have "''user.'' @ ''ann'' = ''user.ann''" by simp
  ultimately show ?thesis using d(1,2,4-7) s' by (intro exI conjI) (assumption | simp only:)+
qed

end
